(* ===== verification/Prelude.thy ===== *)
theory Prelude
  imports Main "HOL-Library.Word"
begin

text \<open>
  Shared vocabulary of the development: the machine types of the C sources
  (\<open>unsigned char\<close>, \<open>uint32_t\<close>, \<open>uint64_t\<close>), the C conversions to \<open>int\<close>,
  the library calls \<open>memcpy\<close>/\<open>memset\<close> on a buffer, the byte order of words in memory,
  and the cutting of a byte stream into blocks, on which every digest and every
  stream copier below is proved.
\<close>

unbundle bit_operations_syntax

named_theorems mem_simps \<open>length and content of a buffer after memcpy, memset and the like\<close>
named_theorems block_simps \<open>cutting a byte string into blocks\<close>

type_synonym byte = "8 word"
type_synonym u32 = "32 word"
type_synonym u64 = "64 word"

section \<open>Definitions\<close>

text \<open>Conversion of a mathematical integer to \<open>int\<close> (32 bits, two's complement).\<close>

definition to_int32 :: "int \<Rightarrow> int" where
  "to_int32 x = signed_take_bit 31 x"

lemma to_int32_id: "- (2 ^ 31) \<le> x \<Longrightarrow> x < 2 ^ 31 \<Longrightarrow> to_int32 x = x"
  by (simp add: to_int32_def signed_take_bit_int_eq_self)

text \<open>\<open>memcpy (buf + off, src, length src)\<close> on a buffer held as a list.\<close>

definition poke :: "'a list \<Rightarrow> nat \<Rightarrow> 'a list \<Rightarrow> 'a list" where
  "poke buf off src = take off buf @ src @ drop (off + length src) buf"

text \<open>The bytes of a string literal.\<close>

definition bytes_of :: "string \<Rightarrow> byte list" where
  "bytes_of s = map of_char s"

text \<open>Words in memory, low byte first and high byte first.\<close>

definition le32 :: "byte \<Rightarrow> byte \<Rightarrow> byte \<Rightarrow> byte \<Rightarrow> u32" where
  "le32 b0 b1 b2 b3 =
     ucast b0 OR push_bit 8 (ucast b1) OR push_bit 16 (ucast b2) OR push_bit 24 (ucast b3)"

fun le_words :: "byte list \<Rightarrow> u32 list" where
  "le_words (b0 # b1 # b2 # b3 # bs) = le32 b0 b1 b2 b3 # le_words bs"
| "le_words _ = []"

fun be_words :: "byte list \<Rightarrow> u32 list" where
  "be_words (b0 # b1 # b2 # b3 # bs) = le32 b3 b2 b1 b0 # be_words bs"
| "be_words _ = []"

definition le_bytes32 :: "u32 \<Rightarrow> byte list" where
  "le_bytes32 w = [ucast w, ucast (drop_bit 8 w), ucast (drop_bit 16 w), ucast (drop_bit 24 w)]"

definition be_bytes32 :: "u32 \<Rightarrow> byte list" where
  "be_bytes32 w = rev (le_bytes32 w)"

definition le_bytes64 :: "u64 \<Rightarrow> byte list" where
  "le_bytes64 w = le_bytes32 (ucast w) @ le_bytes32 (ucast (drop_bit 32 w))"

definition be_bytes64 :: "u64 \<Rightarrow> byte list" where
  "be_bytes64 w = rev (le_bytes64 w)"

text \<open>
  The full blocks of \<open>n\<close> bytes at the front of a byte string, and the bytes left over
  behind the last full block.
\<close>

function blocks :: "nat \<Rightarrow> 'a list \<Rightarrow> 'a list list" where
  "blocks n xs = (if 0 < n \<and> n \<le> length xs then take n xs # blocks n (drop n xs) else [])"
  by pat_completeness auto
termination
  by (relation "measure (\<lambda>(n, xs). length xs)") auto

declare blocks.simps [simp del]

definition leftover :: "nat \<Rightarrow> 'a list \<Rightarrow> 'a list" where
  "leftover n xs = drop (n * (length xs div n)) xs"

section \<open>Buffers\<close>

lemma length_poke [mem_simps]:
  "off + length src \<le> length buf \<Longrightarrow> length (poke buf off src) = length buf"
  by (simp add: poke_def)

lemma take_poke_before [mem_simps]: "off \<le> length buf \<Longrightarrow> take off (poke buf off src) = take off buf"
  by (simp add: poke_def)

lemma take_poke [mem_simps]:
  "off \<le> length buf \<Longrightarrow> take (off + length src) (poke buf off src) = take off buf @ src"
  by (simp add: poke_def)

lemma drop_poke [mem_simps]:
  "off + length src \<le> length buf \<Longrightarrow>
    drop (off + length src) (poke buf off src) = drop (off + length src) buf"
  by (simp add: poke_def)

lemma poke_whole [mem_simps]: "length src = length buf \<Longrightarrow> poke buf 0 src = src"
  by (simp add: poke_def)

lemma poke_nil [simp]: "poke buf off [] = buf"
  by (simp add: poke_def)

lemma poke_append: "length xs = off \<Longrightarrow> poke (xs @ ys) off src = xs @ src @ drop (length src) ys"
  by (simp add: poke_def)

lemma nth_poke:
  assumes "off + length src \<le> length buf"
  shows "poke buf off src ! i =
    (if off \<le> i \<and> i < off + length src then src ! (i - off) else buf ! i)"
  using assms by (auto simp: poke_def nth_append)

text \<open>A window of a buffer after a copy elsewhere, and after a copy inside the window.\<close>

lemma window_poke_outside:
  assumes "off + length src \<le> length buf" and "i + m \<le> off \<or> off + length src \<le> i"
  shows "take m (drop i (poke buf off src)) = take m (drop i buf)"
  using assms by (intro nth_equalityI) (auto simp: length_poke nth_poke)

lemma window_poke_inside:
  assumes "off + length src \<le> i + m" and "i \<le> off" and "i + m \<le> length buf"
  shows "take m (drop i (poke buf off src)) = poke (take m (drop i buf)) (off - i) src"
  using assms by (intro nth_equalityI) (auto simp: length_poke nth_poke add.commute)

section \<open>Words as numbers\<close>

lemma unat_drop_bit_div: "unat (drop_bit n w) = unat w div 2 ^ n"
  by (simp only: unat_drop_bit_eq drop_bit_eq_div [of n "unat w"])

lemma unat_take_bit_mod: "unat (take_bit n w) = unat w mod 2 ^ n"
  by (simp only: unsigned_take_bit_eq take_bit_eq_mod [of n "unat w"])

lemma unat_u32_of_nat: "unat (of_nat n :: u32) = n mod 2 ^ 32"
  by (simp only: unat_of_nat) simp

lemma unat_u64_of_nat: "unat (of_nat n :: u64) = n mod 2 ^ 64"
  by (simp only: unat_of_nat) simp

lemma add_carry_iff: "x + y < x \<longleftrightarrow> 2 ^ LENGTH('a) \<le> unat x + unat y" for x y :: "'a::len word"
proof -
  have sum: "unat (x + y) = (unat x + unat y) mod 2 ^ LENGTH('a)"
    by (simp add: unat_word_ariths)
  have y: "unat y < 2 ^ LENGTH('a)" and x: "unat x < 2 ^ LENGTH('a)"
    by (rule unsigned_less)+
  show ?thesis
  proof (cases "2 ^ LENGTH('a) \<le> unat x + unat y")
    case True
    with sum x y have "unat (x + y) = unat x + unat y - 2 ^ LENGTH('a)"
      by (simp add: le_mod_geq)
    with True y show ?thesis
      unfolding word_less_nat_alt by linarith
  next
    case False
    with sum show ?thesis
      unfolding word_less_nat_alt by simp
  qed
qed

lemma div_add_carry:
  fixes a b n :: nat
  assumes "0 < n"
  shows "(a + b) div n = a div n + b div n + (if n \<le> a mod n + b mod n then 1 else 0)"
proof -
  have "a mod n < n" "b mod n < n"
    using assms by simp_all
  then have "a mod n + b mod n < 2 * n" by linarith
  then have "(a mod n + b mod n) div n = (if n \<le> a mod n + b mod n then 1 else 0)"
    using assms by (auto simp: le_div_geq)
  then show ?thesis
    by (simp add: div_add1_eq [of a])
qed

section \<open>Byte order\<close>

lemma length_le_bytes32 [simp]: "length (le_bytes32 w) = 4"
  by (simp add: le_bytes32_def)

lemma length_be_bytes32 [simp]: "length (be_bytes32 w) = 4"
  by (simp add: be_bytes32_def)

lemma length_le_bytes64 [simp]: "length (le_bytes64 w) = 8"
  by (simp add: le_bytes64_def)

lemma length_be_bytes64 [simp]: "length (be_bytes64 w) = 8"
  by (simp add: be_bytes64_def)

lemma le32_bytes [simp]:
  "le32 (ucast w) (ucast (drop_bit 8 w)) (ucast (drop_bit 16 w)) (ucast (drop_bit 24 w)) = w"
proof (rule bit_word_eqI)
  fix n
  assume "n < LENGTH(32)"
  then consider "n < 8" | "8 \<le> n" "n < 16" | "16 \<le> n" "n < 24" | "24 \<le> n" "n < 32"
    by fastforce
  then show "bit (le32 (ucast w) (ucast (drop_bit 8 w)) (ucast (drop_bit 16 w))
      (ucast (drop_bit 24 w))) n = bit w n"
    by cases (auto simp: le32_def bit_simps)
qed

lemma le_words_bytes32 [simp]: "le_words (le_bytes32 w @ bs) = w # le_words bs"
  by (simp add: le_bytes32_def)

lemma be_words_bytes32 [simp]: "be_words (be_bytes32 w @ bs) = w # be_words bs"
  by (simp add: be_bytes32_def le_bytes32_def)

lemma length_le_words: "length (le_words bs) = length bs div 4"
  by (induction bs rule: le_words.induct) auto

lemma length_be_words: "length (be_words bs) = length bs div 4"
  by (induction bs rule: be_words.induct) auto

section \<open>Blocks\<close>

lemma blocks_short [block_simps]: "length xs < n \<Longrightarrow> blocks n xs = []"
  by (simp add: blocks.simps)

lemma blocks_nil [simp]: "blocks n [] = []"
  by (auto simp: blocks.simps)

lemma blocks_step [block_simps]:
  "0 < n \<Longrightarrow> n \<le> length xs \<Longrightarrow> blocks n xs = take n xs # blocks n (drop n xs)"
  by (simp add: blocks.simps)

lemma blocks_one [block_simps]: "0 < n \<Longrightarrow> length xs = n \<Longrightarrow> blocks n xs = [xs]"
  by (simp add: blocks_step)

lemma length_leftover [block_simps]: "length (leftover n xs) = length xs mod n"
  by (simp add: leftover_def minus_mult_div_eq_mod)

lemma leftover_short [block_simps]: "length xs < n \<Longrightarrow> leftover n xs = xs"
  by (simp add: leftover_def)

lemma leftover_nil [simp]: "leftover n [] = []"
  by (simp add: leftover_def)

lemma leftover_drop:
  assumes "0 < n" and "n \<le> length xs"
  shows "leftover n (drop n xs) = leftover n xs"
proof -
  have "length xs div n = Suc ((length xs - n) div n)"
    using assms by (simp add: le_div_geq)
  then show ?thesis
    by (simp add: leftover_def add.commute)
qed

lemma blocks_length: "b \<in> set (blocks n xs) \<Longrightarrow> length b = n"
  by (induction n xs rule: blocks.induct) (subst (asm) blocks.simps, auto split: if_splits)

lemma concat_blocks: "0 < n \<Longrightarrow> concat (blocks n xs) @ leftover n xs = xs"
proof (induction n xs rule: blocks.induct)
  case (1 n xs)
  show ?case
  proof (cases "n \<le> length xs")
    case True
    with 1 have "concat (blocks n (drop n xs)) @ leftover n xs = drop n xs"
      by (simp add: leftover_drop)
    with True 1(2) show ?thesis
      by (simp add: blocks_step)
  next
    case False
    then show ?thesis by (simp add: block_simps)
  qed
qed

lemma blocks_append: "0 < n \<Longrightarrow> blocks n (xs @ ys) = blocks n xs @ blocks n (leftover n xs @ ys)"
proof (induction n xs rule: blocks.induct)
  case (1 n xs)
  show ?case
  proof (cases "n \<le> length xs")
    case True
    with 1 have "blocks n (drop n xs @ ys) = blocks n (drop n xs) @ blocks n (leftover n xs @ ys)"
      by (simp add: leftover_drop)
    with True 1(2) show ?thesis
      by (simp add: blocks_step)
  next
    case False
    then show ?thesis by (simp add: block_simps)
  qed
qed

lemma leftover_append: "0 < n \<Longrightarrow> leftover n (xs @ ys) = leftover n (leftover n xs @ ys)"
proof (induction n xs rule: blocks.induct)
  case (1 n xs)
  show ?case
  proof (cases "n \<le> length xs")
    case True
    with 1 have "leftover n (drop n xs @ ys) = leftover n (leftover n xs @ ys)"
      by (simp add: leftover_drop)
    moreover have "leftover n (drop n (xs @ ys)) = leftover n (xs @ ys)"
      using True 1(2) by (intro leftover_drop) auto
    ultimately show ?thesis
      using True by simp
  next
    case False
    then show ?thesis by (simp add: block_simps)
  qed
qed

end
