(* ===== verification/Iso_Pvd.thy ===== *)
theory Iso_Pvd
  imports Prelude
begin

text \<open>
  The image file or medium the three tools of \<open>mediacheck/\<close> work on, and the search for the
  primary volume descriptor, \<open>parsepvd\<close>, which each of the three files
  \<open>checkisomd5.c\<close>, \<open>implantisomd5.c\<close> and \<open>mediacheck.c\<close> has in a version of its own.

  A file descriptor is its data, the position, whether it can be seeked and written, and
  \<open>io_limit\<close>, the number of bytes in front of the first unreadable sector: a read that
  starts behind it fails with -1, one that runs into it is cut short. A regular file has
  \<open>io_limit = length io_data\<close>; the last sectors of a burned medium may lie behind the limit.
  Buffers the code does not initialise are arguments of the model.
\<close>

section \<open>Definitions\<close>

record iofd =
  io_data :: "byte list"
  io_limit :: nat
  io_seekable :: bool
  io_writable :: bool
  io_pos :: nat

text \<open>\<open>lseek (fd, off, SEEK_SET)\<close>, \<open>read (fd, buf, n)\<close> and \<open>write (fd, buf, n)\<close>.\<close>

definition sys_lseek :: "iofd \<Rightarrow> nat \<Rightarrow> int \<times> iofd" where
  "sys_lseek fd off =
     (if io_seekable fd then (int off, fd\<lparr>io_pos := off\<rparr>) else (-1, fd))"

definition sys_read :: "iofd \<Rightarrow> nat \<Rightarrow> int \<times> byte list \<times> iofd" where
  "sys_read fd n =
     (if length (io_data fd) \<le> io_pos fd then (0, [], fd)
      else if io_limit fd \<le> io_pos fd then (-1, [], fd)
      else let bs = take n (drop (io_pos fd) (take (io_limit fd) (io_data fd)))
           in (int (length bs), bs, fd\<lparr>io_pos := io_pos fd + length bs\<rparr>))"

definition sys_write :: "iofd \<Rightarrow> byte list \<Rightarrow> int \<times> iofd" where
  "sys_write fd bs =
     (if io_writable fd then
        (int (length bs),
         fd\<lparr>io_data := poke (io_data fd @ replicate (io_pos fd - length (io_data fd)) 0) (io_pos fd) bs,
            io_pos := io_pos fd + length bs\<rparr>)
      else (-1, fd))"

definition APPDATA_OFFSET :: nat where "APPDATA_OFFSET = 883"
definition SIZE_OFFSET :: nat where "SIZE_OFFSET = 84"
definition SKIPSECTORS :: int where "SKIPSECTORS = 150"

text \<open>
  The loop over the volume descriptors: \<open>None\<close> when a read fails, the file ends or the
  terminator is met, else the offset of the primary descriptor and the sector read.
\<close>

function pvd_scan :: "iofd \<Rightarrow> byte list \<Rightarrow> int \<Rightarrow> (int \<times> byte list) option \<times> iofd" where
  "pvd_scan fd buf offset =
     (case sys_read fd 2048 of (nread, bs, fd') \<Rightarrow>
        if nread \<le> 0 then (None, fd')
        else let buf = poke buf 0 bs
             in if buf ! 0 = 1 then (Some (offset, buf), fd')
                else if buf ! 0 = 255 then (None, fd')
                else pvd_scan fd' buf (offset + 2048))"
  by pat_completeness auto
termination
  by (relation "measure (\<lambda>(fd, buf, offset). length (io_data fd) - io_pos fd)")
    (auto simp: sys_read_def Let_def split: if_splits)

declare pvd_scan.simps [simp del]

text \<open>\<open>for (p = mediasum; *p; p++) if (*p != ' ') break;\<close> and the byte \<open>*p\<close> it stops at.\<close>

fun skip_spaces :: "byte list \<Rightarrow> byte" where
  "skip_spaces [] = 0"
| "skip_spaces (c # cs) = (if c = 0 then 0 else if c \<noteq> 0x20 then c else skip_spaces cs)"

text \<open>The size field, computed in \<open>int\<close>, times the sector size in \<open>long long\<close>.\<close>

definition pvd_isosize :: "byte list \<Rightarrow> int" where
  "pvd_isosize buf =
     to_int32 (uint (buf ! SIZE_OFFSET) * 0x1000000 + uint (buf ! (SIZE_OFFSET + 1)) * 0x10000 +
       uint (buf ! (SIZE_OFFSET + 2)) * 0x100 + uint (buf ! (SIZE_OFFSET + 3))) * 2048"

text \<open>The sum out of the application data: 32 bytes and a NUL.\<close>

definition pvd_mediasum :: "byte list \<Rightarrow> byte list" where
  "pvd_mediasum buf = take 32 (drop (APPDATA_OFFSET + 13) buf) @ [0]"

text \<open>
  \<open>parsepvd\<close> of \<open>checkisomd5.c\<close>: the value returned, \<open>mediasum\<close>, \<open>*isosize\<close> and the
  descriptor afterwards; \<open>buf\<close> is the uninitialised stack buffer.
\<close>

definition checkiso_parsepvd ::
  "iofd \<Rightarrow> byte list \<Rightarrow> byte list \<Rightarrow> int \<Rightarrow> int \<times> byte list \<times> int \<times> iofd" where
  "checkiso_parsepvd fd buf mediasum isosize =
     (case sys_lseek fd (16 * 2048) of (r, fd) \<Rightarrow>
        if r = -1 then (-1, mediasum, isosize, fd)
        else (case pvd_scan fd buf (16 * 2048) of
            (None, fd) \<Rightarrow> (-1, mediasum, isosize, fd)
          | (Some (offset, buf), fd) \<Rightarrow>
              (let mediasum = pvd_mediasum buf
               in if skip_spaces mediasum = 0 then (-1, mediasum, isosize, fd)
                  else (to_int32 offset, mediasum, pvd_isosize buf, fd))))"

text \<open>\<open>parsepvd\<close> of \<open>implantisomd5.c\<close>: the part that reads the sum is compiled out.\<close>

definition implant_parsepvd ::
  "iofd \<Rightarrow> byte list \<Rightarrow> byte list \<Rightarrow> int \<Rightarrow> int \<times> byte list \<times> int \<times> iofd" where
  "implant_parsepvd fd buf mediasum isosize =
     (case sys_lseek fd (16 * 2048) of (r, fd) \<Rightarrow>
        if r = -1 then (-1, mediasum, isosize, fd)
        else (case pvd_scan fd buf (16 * 2048) of
            (None, fd) \<Rightarrow> (-1, mediasum, isosize, fd)
          | (Some (offset, buf), fd) \<Rightarrow> (to_int32 offset, mediasum, pvd_isosize buf, fd)))"

text \<open>
  \<open>parsepvd\<close> of \<open>mediacheck.c\<close>: here the loop does not look at the result of \<open>read\<close>, so it
  is a partial function; \<open>None\<close> is a loop that does not end.
\<close>

partial_function (option) media_scan ::
  "iofd \<Rightarrow> byte list \<Rightarrow> int \<Rightarrow> ((int \<times> byte list) option \<times> iofd) option" where
  "media_scan fd buf offset =
     (case sys_read fd 2048 of (nread, bs, fd') \<Rightarrow>
        let buf = poke buf 0 bs
        in if buf ! 0 = 1 then Some (Some (offset, buf), fd')
           else if buf ! 0 = 255 then Some (None, fd')
           else media_scan fd' buf (offset + 2048))"

definition media_parsepvd ::
  "iofd \<Rightarrow> byte list \<Rightarrow> byte list \<Rightarrow> int \<Rightarrow> (int \<times> byte list \<times> int \<times> iofd) option" where
  "media_parsepvd fd buf mediasum isosize =
     (case sys_lseek fd (16 * 2048) of (r, fd) \<Rightarrow>
        if r = -1 then Some (-1, mediasum, isosize, fd)
        else (case media_scan fd buf (16 * 2048) of
            None \<Rightarrow> None
          | Some (None, fd) \<Rightarrow> Some (-1, mediasum, isosize, fd)
          | Some (Some (offset, buf), fd) \<Rightarrow>
              (let mediasum = pvd_mediasum buf
               in if skip_spaces mediasum = 0 then Some (-1, mediasum, isosize, fd)
                  else Some (to_int32 offset, mediasum, pvd_isosize buf, fd))))"

text \<open>
  The images the theorems speak about: readable up to \<open>io_limit\<close>, with the primary volume
  descriptor in sector \<open>16 + k\<close> and neither it nor the terminator in a sector before.
\<close>

definition sector :: "byte list \<Rightarrow> nat \<Rightarrow> byte list" where
  "sector d i = take 2048 (drop (2048 * i) d)"

definition pvd_at :: "byte list \<Rightarrow> nat \<Rightarrow> bool" where
  "pvd_at d k \<longleftrightarrow>
     2048 * (17 + k) \<le> length d \<and> d ! (2048 * (16 + k)) = 1 \<and>
     (\<forall>i < k. d ! (2048 * (16 + i)) \<noteq> 1 \<and> d ! (2048 * (16 + i)) \<noteq> 255)"

text \<open>An image of \<open>n\<close> sectors that ends without a primary descriptor or a terminator.\<close>

definition no_descriptor :: "byte list \<Rightarrow> nat \<Rightarrow> bool" where
  "no_descriptor d n \<longleftrightarrow>
     length d = 2048 * n \<and> 17 \<le> n \<and>
     (\<forall>i. 16 \<le> i \<and> i < n \<longrightarrow> d ! (2048 * i) \<noteq> 1 \<and> d ! (2048 * i) \<noteq> 255)"

section \<open>Reading\<close>

lemma sys_read_full:
  assumes "io_pos fd + n \<le> io_limit fd" and "io_limit fd \<le> length (io_data fd)" and "0 < n"
  shows "sys_read fd n =
    (int n, take n (drop (io_pos fd) (io_data fd)), fd\<lparr>io_pos := io_pos fd + n\<rparr>)"
proof -
  have "take n (drop (io_pos fd) (take (io_limit fd) (io_data fd)))
      = take n (drop (io_pos fd) (io_data fd))"
    using assms by (simp add: drop_take)
  then show ?thesis
    using assms by (simp add: sys_read_def Let_def)
qed

lemma sys_read_eof: "length (io_data fd) \<le> io_pos fd \<Longrightarrow> sys_read fd n = (0, [], fd)"
  by (simp add: sys_read_def)

lemma pvd_scan_eof: "length (io_data fd) \<le> io_pos fd \<Longrightarrow> pvd_scan fd buf offset = (None, fd)"
  by (subst pvd_scan.simps) (simp add: sys_read_eof)

lemma length_sector: "2048 * (i + 1) \<le> length d \<Longrightarrow> length (sector d i) = 2048"
  by (simp add: sector_def)

lemma sector_nth: "2048 * (i + 1) \<le> length d \<Longrightarrow> j < 2048 \<Longrightarrow> sector d i ! j = d ! (2048 * i + j)"
  by (simp add: sector_def)

text \<open>One descriptor read at a sector boundary.\<close>

lemma pvd_scan_step:
  assumes "length buf = 2048" and "io_pos fd = 2048 * i" and "2048 * (i + 1) \<le> io_limit fd"
    and "io_limit fd \<le> length (io_data fd)"
  shows "pvd_scan fd buf offset =
    (let b = io_data fd ! (2048 * i); fd' = fd\<lparr>io_pos := 2048 * (i + 1)\<rparr>
     in if b = 1 then (Some (offset, sector (io_data fd) i), fd')
        else if b = 255 then (None, fd')
        else pvd_scan fd' (sector (io_data fd) i) (offset + 2048))"
proof -
  have read: "sys_read fd 2048 = (2048, sector (io_data fd) i, fd\<lparr>io_pos := 2048 * (i + 1)\<rparr>)"
    using assms by (subst sys_read_full) (simp_all add: sector_def)
  have len: "length (sector (io_data fd) i) = 2048"
    using assms by (intro length_sector) simp
  then have "poke buf 0 (sector (io_data fd) i) = sector (io_data fd) i"
    using assms(1) by (simp add: poke_whole)
  moreover have "sector (io_data fd) i ! 0 = io_data fd ! (2048 * i)"
    using assms by (subst sector_nth) simp_all
  ultimately show ?thesis
    by (subst pvd_scan.simps) (simp add: read Let_def)
qed

lemma pvd_scan_found:
  assumes "pvd_at (io_data fd) k" and "2048 * (17 + k) \<le> io_limit fd"
    and "io_limit fd \<le> length (io_data fd)" and "length buf = 2048"
    and "io_pos fd = 2048 * (16 + j)" and "j \<le> k"
  shows "pvd_scan fd buf (2048 * int (16 + j)) =
    (Some (2048 * int (16 + k), sector (io_data fd) (16 + k)), fd\<lparr>io_pos := 2048 * (17 + k)\<rparr>)"
  using assms
proof (induction "k - j" arbitrary: j fd buf)
  case 0
  then show ?case
    by (subst pvd_scan_step [where i = "16 + k"]) (auto simp: pvd_at_def Let_def)
next
  case (Suc n)
  let ?fd = "fd\<lparr>io_pos := 2048 * (16 + Suc j)\<rparr>"
  have "pvd_scan fd buf (2048 * int (16 + j)) =
      pvd_scan ?fd (sector (io_data fd) (16 + j)) (2048 * int (16 + Suc j))"
    using Suc by (subst pvd_scan_step [where i = "16 + j"]) (auto simp: pvd_at_def Let_def)
  also have "\<dots> = (Some (2048 * int (16 + k), sector (io_data fd) (16 + k)),
      fd\<lparr>io_pos := 2048 * (17 + k)\<rparr>)"
    using Suc.hyps(1) [of "Suc j" ?fd "sector (io_data fd) (16 + j)"] Suc(2-) by (simp add: length_sector)
  finally show ?case .
qed

lemma implant_parsepvd_found:
  assumes "io_seekable fd" and "pvd_at (io_data fd) k" and "2048 * (17 + k) \<le> io_limit fd"
    and "io_limit fd \<le> length (io_data fd)" and "length buf = 2048" and "k < 2 ^ 19"
  shows "implant_parsepvd fd buf mediasum isosize =
    (2048 * int (16 + k), mediasum, pvd_isosize (sector (io_data fd) (16 + k)),
     fd\<lparr>io_pos := 2048 * (17 + k)\<rparr>)"
proof -
  have "to_int32 (2048 * int (16 + k)) = 2048 * int (16 + k)"
    using assms(6) by (intro to_int32_id) simp_all
  then show ?thesis
    using pvd_scan_found [of "fd\<lparr>io_pos := 32768\<rparr>" k buf 0] assms
    by (simp add: implant_parsepvd_def sys_lseek_def)
qed

lemma checkiso_parsepvd_found:
  assumes "io_seekable fd" and "pvd_at (io_data fd) k" and "2048 * (17 + k) \<le> io_limit fd"
    and "io_limit fd \<le> length (io_data fd)" and "length buf = 2048" and "k < 2 ^ 19"
  shows "checkiso_parsepvd fd buf mediasum isosize =
    (let sec = sector (io_data fd) (16 + k); fd' = fd\<lparr>io_pos := 2048 * (17 + k)\<rparr>
     in if skip_spaces (pvd_mediasum sec) = 0 then (-1, pvd_mediasum sec, isosize, fd')
        else (2048 * int (16 + k), pvd_mediasum sec, pvd_isosize sec, fd'))"
proof -
  have "to_int32 (2048 * int (16 + k)) = 2048 * int (16 + k)"
    using assms(6) by (intro to_int32_id) simp_all
  then show ?thesis
    using pvd_scan_found [of "fd\<lparr>io_pos := 32768\<rparr>" k buf 0] assms
    by (simp add: checkiso_parsepvd_def sys_lseek_def Let_def)
qed

section \<open>The unchecked loop of mediacheck.c\<close>

text \<open>Where the checked loop finds a descriptor or the terminator, the unchecked one does the same.\<close>

lemma media_scan_found:
  "pvd_scan fd buf offset = (Some r, fd') \<Longrightarrow> media_scan fd buf offset = Some (Some r, fd')"
proof (induction fd buf offset rule: pvd_scan.induct)
  case (1 fd buf offset)
  obtain n bs fd1 where read: "sys_read fd 2048 = (n, bs, fd1)"
    by (cases "sys_read fd 2048")
  from 1(2) have n: "\<not> n \<le> 0"
    by (subst (asm) pvd_scan.simps) (auto simp: read)
  show ?case
    using 1(2) "1.IH" [OF read [symmetric] refl n refl] n
    by (subst media_scan.simps, subst (asm) pvd_scan.simps) (auto simp: read Let_def split: if_splits)
qed

text \<open>Behind the end of the data nothing changes any more: the loop does not end.\<close>

lemma media_scan_eof:
  assumes "length (io_data fd) \<le> io_pos fd" and "buf ! 0 \<noteq> 1" and "buf ! 0 \<noteq> 255"
  shows "media_scan fd buf offset = None"
proof (rule ccontr)
  assume "media_scan fd buf offset \<noteq> None"
  then obtain r where ret: "media_scan fd buf offset = Some r" by auto
  have "\<not> (length (io_data fd) \<le> io_pos fd \<and> buf ! 0 \<noteq> 1 \<and> buf ! 0 \<noteq> 255)"
  proof (rule media_scan.raw_induct [where P = "\<lambda>fd buf offset r.
      \<not> (length (io_data fd) \<le> io_pos fd \<and> buf ! 0 \<noteq> 1 \<and> buf ! 0 \<noteq> 255)", OF _ ret])
    fix scan :: "iofd \<Rightarrow> byte list \<Rightarrow> int \<Rightarrow> ((int \<times> byte list) option \<times> iofd) option"
    fix fd buf offset r
    assume IH: "\<And>fd buf offset r. scan fd buf offset = Some r \<Longrightarrow>
        \<not> (length (io_data fd) \<le> io_pos fd \<and> buf ! 0 \<noteq> 1 \<and> buf ! 0 \<noteq> 255)"
      and eq: "(case sys_read fd 2048 of (nread, bs, fd') \<Rightarrow>
        let buf = poke buf 0 bs
        in if buf ! 0 = 1 then Some (Some (offset, buf), fd')
           else if buf ! 0 = 255 then Some (None, fd')
           else scan fd' buf (offset + 2048)) = Some r"
    show "\<not> (length (io_data fd) \<le> io_pos fd \<and> buf ! 0 \<noteq> 1 \<and> buf ! 0 \<noteq> 255)"
      using IH [of fd buf "offset + 2048" r] eq by (auto simp: sys_read_eof Let_def split: if_splits)
  qed
  with assms show False by blast
qed

lemma sys_read_sector:
  assumes "io_pos fd = 2048 * i" and "2048 * (i + 1) \<le> io_limit fd"
    and "io_limit fd \<le> length (io_data fd)"
  shows "sys_read fd 2048 = (2048, sector (io_data fd) i, fd\<lparr>io_pos := 2048 * (i + 1)\<rparr>)"
  using assms by (subst sys_read_full) (simp_all add: sector_def)

lemma scan_no_descriptor:
  assumes "no_descriptor (io_data fd) n" and "io_limit fd = length (io_data fd)"
    and "length buf = 2048" and "io_pos fd = 2048 * i" and "16 \<le> i" and "i < n"
  shows "media_scan fd buf offset = None \<and>
    pvd_scan fd buf offset = (None, fd\<lparr>io_pos := length (io_data fd)\<rparr>)"
  using assms
proof (induction "n - i" arbitrary: i fd buf offset)
  case (Suc m)
  let ?sec = "sector (io_data fd) i" and ?fd = "fd\<lparr>io_pos := 2048 * (i + 1)\<rparr>"
  have read: "sys_read fd 2048 = (2048, ?sec, ?fd)"
    using Suc.prems by (intro sys_read_sector) (simp_all add: no_descriptor_def)
  have len: "length ?sec = 2048"
    using Suc.prems by (intro length_sector) (simp add: no_descriptor_def)
  have sec: "poke buf 0 ?sec = ?sec" "?sec ! 0 \<noteq> 1" "?sec ! 0 \<noteq> 255"
    using Suc.prems len sector_nth [of i "io_data fd" 0]
    by (auto simp: poke_whole no_descriptor_def)
  have step: "media_scan fd buf offset = media_scan ?fd ?sec (offset + 2048)"
    "pvd_scan fd buf offset = pvd_scan ?fd ?sec (offset + 2048)"
    by (subst media_scan.simps, simp add: read sec Let_def)
      (subst pvd_scan.simps, simp add: read sec Let_def)
  show ?case
  proof (cases "i + 1 < n")
    case True
    with Suc(2-) len step Suc.hyps(1) [of "i + 1" ?fd ?sec "offset + 2048"] show ?thesis
      by simp
  next
    case False
    then have "length (io_data fd) = 2048 * (i + 1)"
      using Suc.prems by (simp add: no_descriptor_def)
    then show ?thesis
      using sec step by (simp add: media_scan_eof pvd_scan_eof)
  qed
qed simp

section \<open>Properties\<close>

text \<open>
  C24: The search for the primary volume descriptor finds it: on any seekable medium whose
  descriptor lies in sector \<open>16 + k\<close> behind \<open>k\<close> other descriptors, \<open>parsepvd\<close> of \<open>implantisomd5.c\<close>
  returns its byte offset and the size in the size field, and leaves the file positioned
  behind it.
\<close>

theorem implant_parsepvd_correct:
  assumes "io_seekable fd" and "pvd_at (io_data fd) k" and "2048 * (17 + k) \<le> io_limit fd"
    and "io_limit fd \<le> length (io_data fd)" and "length buf = 2048" and "k < 2 ^ 19"
  shows "implant_parsepvd fd buf mediasum isosize =
    (2048 * int (16 + k), mediasum, pvd_isosize (sector (io_data fd) (16 + k)),
     fd\<lparr>io_pos := 2048 * (17 + k)\<rparr>)"
  using assms by (rule implant_parsepvd_found)

definition blank_image :: "byte \<Rightarrow> iofd" where
  "blank_image b = \<lparr>io_data = replicate (2048 * 16) 0 @ b # replicate 2047 0,
     io_limit = 2048 * 17, io_seekable = True, io_writable = True, io_pos = 0\<rparr>"

theorem implant_parsepvd_correct_witness:
  "implant_parsepvd (blank_image 1) (replicate 2048 0) [] 0 =
    (2048 * int (16 + 0), [], pvd_isosize (sector (io_data (blank_image 1)) (16 + 0)),
     (blank_image 1)\<lparr>io_pos := 2048 * (17 + 0)\<rparr>)"
  by (rule implant_parsepvd_correct) (simp_all add: blank_image_def pvd_at_def nth_append)

text \<open>
  C25: On an image that ends without a primary descriptor or a terminator, \<open>parsepvd\<close> of
  \<open>checkisomd5.c\<close> reports -1, and the one of \<open>mediacheck.c\<close>, which ignores the result of
  \<open>read\<close>, never returns.
\<close>

theorem media_parsepvd_diverges:
  assumes "io_seekable fd" and "io_limit fd = length (io_data fd)"
    and "no_descriptor (io_data fd) n" and "length buf = 2048"
  shows "media_parsepvd fd buf mediasum isosize = None \<and>
    fst (checkiso_parsepvd fd buf mediasum isosize) = -1"
proof -
  have "16 < n"
    using assms(3) by (simp add: no_descriptor_def)
  then show ?thesis
    using scan_no_descriptor [of "fd\<lparr>io_pos := 2048 * 16\<rparr>" n buf 16 "16 * 2048"] assms
    by (simp add: media_parsepvd_def checkiso_parsepvd_def sys_lseek_def)
qed

theorem media_parsepvd_diverges_witness:
  "media_parsepvd (blank_image 0) (replicate 2048 0) [] 0 = None \<and>
    fst (checkiso_parsepvd (blank_image 0) (replicate 2048 0) [] 0) = -1"
proof (rule media_parsepvd_diverges [where n = 17])
  have "i = 16" if "16 \<le> i \<and> i < 17" for i :: nat using that by simp
  then show "no_descriptor (io_data (blank_image 0)) 17"
    by (auto simp: no_descriptor_def blank_image_def nth_append)
qed (simp_all add: blank_image_def)

end
