(* ===== verification/Digest_Stream.thy ===== *)
theory Digest_Stream
  imports Prelude
begin

text \<open>
  The contract of a message digest computed over a stream: what MD5, SHA-1 and SHA-2
  promise (the reference side: pad the message, cut it into blocks, fold the compression
  function), and what a client of the three calls begin / update / end may rely on
  (the locale \<open>digest_stream\<close>). The contexts of \<open>mediacheck/md5.c\<close> and of
  \<open>busybox/libbb/hash_md5_sha.c\<close> are proved to implement it in their own theories.
\<close>

section \<open>Reference: padding and folding\<close>

definition absorb :: "nat \<Rightarrow> ('h \<Rightarrow> byte list \<Rightarrow> 'h) \<Rightarrow> 'h \<Rightarrow> byte list \<Rightarrow> 'h" where
  "absorb n f h m = foldl f h (blocks n m)"

text \<open>
  The padding of RFC 1321 and FIPS 180: one byte \<open>0x80\<close>, zeros, and the length field,
  up to the next multiple of the block size.
\<close>

definition md_pad :: "nat \<Rightarrow> byte list \<Rightarrow> byte list \<Rightarrow> byte list" where
  "md_pad n lenfield m =
     m @ 0x80 # replicate ((2 * n - 1 - length lenfield - length m mod n) mod n) 0 @ lenfield"

lemma absorb_nil [simp]: "absorb n f h [] = h"
  by (simp add: absorb_def)

lemma absorb_short: "length m < n \<Longrightarrow> absorb n f h m = h"
  by (simp add: absorb_def blocks_short)

lemma absorb_step:
  "0 < n \<Longrightarrow> length b = n \<Longrightarrow> absorb n f h (b @ m) = absorb n f (f h b) m"
  by (simp add: absorb_def blocks_step)

lemma absorb_one: "0 < n \<Longrightarrow> length b = n \<Longrightarrow> absorb n f h b = f h b"
  by (simp add: absorb_def blocks_one)

lemma absorb_append: "0 < n \<Longrightarrow> absorb n f h (m @ m') = absorb n f (absorb n f h m) (leftover n m @ m')"
  by (simp add: absorb_def blocks_append [of n m m'])

text \<open>
  Feeding \<open>b\<close> after \<open>m\<close>, when the buffered bytes and \<open>b\<close> together do not fill a block, and
  when they do: the block is completed with the first \<open>k\<close> bytes of \<open>b\<close>.
\<close>

lemma absorb_partial:
  assumes "length m mod n + length b < n"
  shows "absorb n f h (m @ b) = absorb n f h m"
    and "leftover n (m @ b) = leftover n m @ b"
    and "(length m + length b) mod n = length m mod n + length b"
proof -
  have n: "0 < n" using assms by simp
  have short: "length (leftover n m @ b) < n"
    using assms by (simp add: length_leftover)
  then show "absorb n f h (m @ b) = absorb n f h m"
    by (simp add: absorb_append [OF n, of _ _ m] absorb_short)
  show "leftover n (m @ b) = leftover n m @ b"
    using short by (simp add: leftover_append [OF n, of m] leftover_short)
  show "(length m + length b) mod n = length m mod n + length b"
    using assms mod_add_left_eq [of "length m" n "length b"] by simp
qed

lemma absorb_fill:
  assumes "0 < n" and "k = n - length m mod n" and "k \<le> length b"
  shows "absorb n f h (m @ b) =
      absorb n f (f (absorb n f h m) (leftover n m @ take k b)) (drop k b)"
    and "leftover n (m @ b) = leftover n (drop k b)"
    and "(length m + length b) mod n = (length b - k) mod n"
    and "length (leftover n m @ take k b) = n"
proof -
  let ?blk = "leftover n m @ take k b"
  have r: "length m mod n < n" using assms by simp
  then show blk: "length ?blk = n"
    using assms by (simp add: length_leftover)
  have mb: "leftover n m @ b = ?blk @ drop k b" by simp
  show "absorb n f h (m @ b) = absorb n f (f (absorb n f h m) ?blk) (drop k b)"
    by (simp only: absorb_append [OF assms(1), of _ _ m] mb absorb_step [OF assms(1) blk])
  have "leftover n (m @ b) = leftover n (drop n (?blk @ drop k b))"
    using leftover_drop [of n "?blk @ drop k b"] assms(1) blk
    by (simp only: leftover_append [OF assms(1), of m] mb) simp
  moreover have "drop n (?blk @ drop k b) = drop k b"
    by (metis append_eq_conv_conj blk)
  ultimately show "leftover n (m @ b) = leftover n (drop k b)"
    by simp
  have "length m mod n + length b = n + (length b - k)"
    using assms r by simp
  then have "(length m mod n + length b) mod n = (length b - k) mod n"
    by simp
  then show "(length m + length b) mod n = (length b - k) mod n"
    by (simp add: mod_add_left_eq)
qed

text \<open>The last one or two blocks of a padded message.\<close>

lemma absorb_pad_one:
  assumes "length lenfield < n" and "length m mod n + 1 + length lenfield \<le> n"
  shows "absorb n f h (md_pad n lenfield m) =
    f (absorb n f h m)
      (leftover n m @ 0x80 # replicate (n - 1 - length m mod n - length lenfield) 0 @ lenfield)"
proof -
  have n: "0 < n" using assms by simp
  have eq: "2 * n - 1 - length lenfield - length m mod n
      = n + (n - 1 - length m mod n - length lenfield)"
    using assms by simp
  have "(2 * n - 1 - length lenfield - length m mod n) mod n
      = n - 1 - length m mod n - length lenfield"
    unfolding eq using n by simp
  then have "absorb n f h (md_pad n lenfield m) =
      absorb n f (absorb n f h m)
        (leftover n m @ 0x80 # replicate (n - 1 - length m mod n - length lenfield) 0 @ lenfield)"
    by (simp only: md_pad_def absorb_append [OF n, of _ _ m])
  also have "\<dots> = f (absorb n f h m)
      (leftover n m @ 0x80 # replicate (n - 1 - length m mod n - length lenfield) 0 @ lenfield)"
    using n assms by (intro absorb_one) (auto simp: length_leftover)
  finally show ?thesis .
qed

lemma absorb_pad_two:
  assumes "length lenfield < n" and "n < length m mod n + 1 + length lenfield"
  shows "absorb n f h (md_pad n lenfield m) =
    f (f (absorb n f h m) (leftover n m @ 0x80 # replicate (n - 1 - length m mod n) 0))
      (replicate (n - length lenfield) 0 @ lenfield)"
proof -
  let ?r = "length m mod n"
  have n: "0 < n" using assms by simp
  have r: "?r < n" using n by simp
  have "2 * n - 1 - length lenfield - ?r < n"
    using assms r by linarith
  moreover have "2 * n - 1 - length lenfield - ?r = (n - 1 - ?r) + (n - length lenfield)"
    using assms r by linarith
  ultimately have "(2 * n - 1 - length lenfield - ?r) mod n = (n - 1 - ?r) + (n - length lenfield)"
    by simp
  then have "absorb n f h (md_pad n lenfield m) =
      absorb n f (absorb n f h m)
        ((leftover n m @ 0x80 # replicate (n - 1 - ?r) 0) @
          (replicate (n - length lenfield) 0 @ lenfield))"
    by (simp add: md_pad_def absorb_append [OF n, of _ _ m] replicate_add)
  also have "\<dots> = absorb n f
      (f (absorb n f h m) (leftover n m @ 0x80 # replicate (n - 1 - ?r) 0))
      (replicate (n - length lenfield) 0 @ lenfield)"
    using n r by (intro absorb_step) (auto simp: length_leftover)
  also have "\<dots> = f (f (absorb n f h m) (leftover n m @ 0x80 # replicate (n - 1 - ?r) 0))
      (replicate (n - length lenfield) 0 @ lenfield)"
    using n assms by (intro absorb_one) auto
  finally show ?thesis .
qed

section \<open>Buffers that hold the unprocessed part of a message\<close>

definition holds :: "nat \<Rightarrow> byte list \<Rightarrow> byte list \<Rightarrow> bool" where
  "holds n wb m \<longleftrightarrow> length wb = n \<and> take (length m mod n) wb = leftover n m"

lemma holds_partial:
  assumes "holds n wb m" and "length m mod n + length b < n"
  shows "holds n (poke wb (length m mod n) b) (m @ b)"
proof -
  have "length m mod n \<le> length wb" "length m mod n + length b \<le> length wb"
    using assms by (simp_all add: holds_def)
  then show ?thesis
    using assms(1) absorb_partial(2,3) [OF assms(2)]
    by (simp add: holds_def length_poke take_poke)
qed

lemma holds_fill:
  assumes "holds n wb m" and "0 < n" and "k = n - length m mod n" and "k \<le> length b"
  shows "poke wb (length m mod n) (take k b) = leftover n m @ take k b"
    and "length (leftover n m @ take k b) = n"
    and "absorb n f h (m @ take k b) = f (absorb n f h m) (leftover n m @ take k b)"
    and "holds n wb' (m @ take k b) \<longleftrightarrow> length wb' = n"
    and "(length m + length (take k b)) mod n = 0"
proof -
  have r: "length m mod n < n" using assms(2) by simp
  have k: "k \<le> length (take k b)" using assms(4) by simp
  show "poke wb (length m mod n) (take k b) = leftover n m @ take k b"
    using assms r by (simp add: holds_def poke_def)
  show "length (leftover n m @ take k b) = n"
    using absorb_fill(4) [OF assms(2-4)] .
  show "absorb n f h (m @ take k b) = f (absorb n f h m) (leftover n m @ take k b)"
    using absorb_fill(1) [OF assms(2,3) k, of f h] by simp
  show "holds n wb' (m @ take k b) \<longleftrightarrow> length wb' = n"
    using absorb_fill(2,3) [OF assms(2,3) k] assms(4) by (auto simp: holds_def min_def)
  show "(length m + length (take k b)) mod n = 0"
    using absorb_fill(3) [OF assms(2,3) k] assms(4) by (simp add: min_def)
qed

text \<open>The padding: the byte \<open>0x80\<close>, zeros to the end of the buffer, and the length over its last bytes.\<close>

lemma holds_pad:
  assumes "holds n wb m" and "0 < n" and "q = length m mod n"
  shows "poke (wb[q := 0x80]) (q + 1) (replicate (n - (q + 1)) 0) = leftover n m @ 0x80 # replicate (n - 1 - q) 0"
proof -
  have q: "q < n" using assms(2,3) by simp
  have eq: "wb[q := 0x80] = (leftover n m @ [0x80]) @ drop (q + 1) wb"
    using assms(1,3) q by (simp add: holds_def upd_conv_take_nth_drop)
  have "length (leftover n m @ [0x80]) = q + 1" using assms(3) by (simp add: length_leftover)
  then show ?thesis
    unfolding eq using assms(1) q by (subst poke_append) (simp_all add: holds_def)
qed

lemma pad_length_one:
  fixes m lf :: "byte list"
  assumes "q = length m mod n" and "q + 1 + length lf \<le> n"
  shows "poke (leftover n m @ 0x80 # replicate (n - 1 - q) 0) (n - length lf) lf
    = leftover n m @ 0x80 # replicate (n - 1 - q - length lf) 0 @ lf"
proof -
  have "replicate (n - 1 - q) (0 :: byte) = replicate (n - 1 - q - length lf) 0 @ replicate (length lf) 0"
    using assms(2) by (simp add: replicate_add [symmetric])
  then have eq: "leftover n m @ 0x80 # replicate (n - 1 - q) 0
      = (leftover n m @ 0x80 # replicate (n - 1 - q - length lf) 0) @ replicate (length lf) 0"
    by (simp only: append.simps append_assoc)
  show ?thesis
    unfolding eq using assms by (subst poke_append) (simp_all add: length_leftover)
qed

lemma pad_length_two:
  assumes "length wb = n" and "length lf \<le> n"
  shows "poke (poke wb 0 (replicate n 0)) (n - length lf) lf = replicate (n - length lf) 0 @ lf"
proof -
  have "poke wb 0 (replicate n 0) = replicate (n - length lf) 0 @ replicate (length lf) 0"
    using assms by (simp add: poke_whole replicate_add [symmetric])
  then show ?thesis by (simp add: poke_append)
qed

section \<open>The interface of a streaming digest\<close>

text \<open>
  \<open>repr c m\<close>: the context \<open>c\<close> is what remains after the message \<open>m\<close> has been fed.
  \<open>fits\<close> bounds the size of one update (the width of the length argument in C).
\<close>

locale digest_stream =
  fixes begin_ctx :: "'c \<Rightarrow> 'c"
    and update :: "'c \<Rightarrow> byte list \<Rightarrow> 'c"
    and finish :: "'c \<Rightarrow> byte list"
    and fits :: "byte list \<Rightarrow> bool"
    and wf :: "'c \<Rightarrow> bool"
    and repr :: "'c \<Rightarrow> byte list \<Rightarrow> bool"
    and digest :: "byte list \<Rightarrow> byte list"
  assumes repr_begin: "wf c \<Longrightarrow> repr (begin_ctx c) []"
    and repr_update: "repr c m \<Longrightarrow> fits b \<Longrightarrow> repr (update c b) (m @ b)"
    and finish_digest: "repr c m \<Longrightarrow> finish c = digest m"
begin

lemma repr_foldl: "repr c m \<Longrightarrow> list_all fits bs \<Longrightarrow> repr (foldl update c bs) (m @ concat bs)"
proof (induction bs arbitrary: c m)
  case (Cons b bs)
  then have "repr (update c b) (m @ b)"
    by (simp add: repr_update)
  with Cons show ?case by fastforce
qed simp

lemma stream_digest:
  assumes "wf c" and "list_all fits bs"
  shows "finish (foldl update (begin_ctx c) bs) = digest (concat bs)"
  using repr_foldl [OF repr_begin [OF assms(1)] assms(2)] by (simp add: finish_digest)

lemma chunking_irrelevant:
  assumes "wf c" and "wf c'" and "list_all fits bs" and "list_all fits bs'"
    and "concat bs = concat bs'"
  shows "finish (foldl update (begin_ctx c) bs) = finish (foldl update (begin_ctx c') bs')"
  using assms by (simp add: stream_digest)

end

end
