(* ===== verification/Md5_Ref.thy ===== *)
theory Md5_Ref
  imports Digest_Stream
begin

text \<open>
  The MD5 message digest as RFC 1321 defines it: the four round functions, the sine table,
  the rotation amounts, the order in which a round reads the message words, one step of the
  loop, the compression of a block and the digest of a message. Nothing here is taken from
  the sources: it is the specification the two implementations in the repository
  (\<open>mediacheck/md5.c\<close> and \<open>busybox/libbb/hash_md5_sha.c\<close>) are proved against.
\<close>

unbundle bit_operations_syntax

type_synonym quad = "u32 \<times> u32 \<times> u32 \<times> u32"

section \<open>Definitions\<close>

definition md5_F :: "nat \<Rightarrow> u32 \<Rightarrow> u32 \<Rightarrow> u32 \<Rightarrow> u32" where
  "md5_F i x y z =
     (if i < 16 then (x AND y) OR (NOT x AND z)
      else if i < 32 then (x AND z) OR (y AND NOT z)
      else if i < 48 then x XOR y XOR z
      else y XOR (x OR NOT z))"

text \<open>Which word of the block step \<open>i\<close> reads.\<close>

definition md5_g :: "nat \<Rightarrow> nat" where
  "md5_g i =
     (if i < 16 then i
      else if i < 32 then (5 * i + 1) mod 16
      else if i < 48 then (3 * i + 5) mod 16
      else (7 * i) mod 16)"

definition md5_s :: "nat \<Rightarrow> nat" where
  "md5_s i =
     (if i < 16 then [7, 12, 17, 22] ! (i mod 4)
      else if i < 32 then [5, 9, 14, 20] ! (i mod 4)
      else if i < 48 then [4, 11, 16, 23] ! (i mod 4)
      else [6, 10, 15, 21] ! (i mod 4))"

text \<open>\<open>T[i] = floor (4294967296 * abs (sin (i + 1)))\<close>.\<close>

definition md5_T :: "u32 list" where
  "md5_T =
    [0xd76aa478, 0xe8c7b756, 0x242070db, 0xc1bdceee,
     0xf57c0faf, 0x4787c62a, 0xa8304613, 0xfd469501,
     0x698098d8, 0x8b44f7af, 0xffff5bb1, 0x895cd7be,
     0x6b901122, 0xfd987193, 0xa679438e, 0x49b40821,
     0xf61e2562, 0xc040b340, 0x265e5a51, 0xe9b6c7aa,
     0xd62f105d, 0x02441453, 0xd8a1e681, 0xe7d3fbc8,
     0x21e1cde6, 0xc33707d6, 0xf4d50d87, 0x455a14ed,
     0xa9e3e905, 0xfcefa3f8, 0x676f02d9, 0x8d2a4c8a,
     0xfffa3942, 0x8771f681, 0x6d9d6122, 0xfde5380c,
     0xa4beea44, 0x4bdecfa9, 0xf6bb4b60, 0xbebfbc70,
     0x289b7ec6, 0xeaa127fa, 0xd4ef3085, 0x04881d05,
     0xd9d4d039, 0xe6db99e5, 0x1fa27cf8, 0xc4ac5665,
     0xf4292244, 0x432aff97, 0xab9423a7, 0xfc93a039,
     0x655b59c3, 0x8f0ccc92, 0xffeff47d, 0x85845dd1,
     0x6fa87e4f, 0xfe2ce6e0, 0xa3014314, 0x4e0811a1,
     0xf7537e82, 0xbd3af235, 0x2ad7d2bb, 0xeb86d391]"

definition md5_step :: "u32 list \<Rightarrow> quad \<Rightarrow> nat \<Rightarrow> quad" where
  "md5_step X = (\<lambda>(a, b, c, d) i.
     (d, b + word_rotl (md5_s i) (a + md5_F i b c d + X ! md5_g i + md5_T ! i), b, c))"

definition md5_add :: "quad \<Rightarrow> quad \<Rightarrow> quad" where
  "md5_add = (\<lambda>(a, b, c, d) (a', b', c', d'). (a + a', b + b', c + c', d + d'))"

definition md5_compress :: "quad \<Rightarrow> byte list \<Rightarrow> quad" where
  "md5_compress h blk = md5_add h (foldl (md5_step (le_words blk)) h [0..<64])"

definition md5_h0 :: quad where
  "md5_h0 = (0x67452301, 0xefcdab89, 0x98badcfe, 0x10325476)"

definition md5_lenfield :: "byte list \<Rightarrow> byte list" where
  "md5_lenfield m = le_bytes64 (of_nat (8 * length m))"

definition quad_bytes :: "quad \<Rightarrow> byte list" where
  "quad_bytes = (\<lambda>(a, b, c, d). le_bytes32 a @ le_bytes32 b @ le_bytes32 c @ le_bytes32 d)"

definition md5_digest :: "byte list \<Rightarrow> byte list" where
  "md5_digest m = quad_bytes (absorb 64 md5_compress md5_h0 (md_pad 64 (md5_lenfield m) m))"

section \<open>The loop in groups of four steps\<close>

lemma length_quad_bytes [simp]: "length (quad_bytes q) = 16"
  by (cases q) (simp add: quad_bytes_def)

lemma length_md5_digest [simp]: "length (md5_digest m) = 16"
  by (simp add: md5_digest_def)

lemma word_rotl_or:
  fixes w :: u32
  assumes "s < 32"
  shows "push_bit s w OR drop_bit (32 - s) w = word_rotl s w"
proof (rule bit_word_eqI)
  fix n
  assume "n < LENGTH(32)"
  then have n: "n < 32" by simp
  have "(n + (32 - s mod 32)) mod 32 = (if n < s then 32 - s + n else n - s)"
    using n assms by (auto simp: mod_if)
  then have "bit (word_rotl s w) n = bit w (if n < s then 32 - s + n else n - s)"
    using n by (simp only: bit_word_rotl_iff len_num0 len_num1 len_bit0 len_bit1) simp
  moreover have "\<not> bit w (32 - s + n)" if "\<not> n < s"
    using that assms by (auto dest: bit_imp_le_length)
  ultimately show "bit (push_bit s w OR drop_bit (32 - s) w) n = bit (word_rotl s w) n"
    using n by (auto simp: bit_simps)
qed

text \<open>The two optimised forms of the first two round functions.\<close>

lemma md5_F_opt1: "z XOR (x AND (y XOR z)) = (x AND y) OR (NOT x AND z)" for x :: u32
  by (rule bit_word_eqI) (auto simp: bit_simps)

lemma md5_F_opt2: "y XOR (z AND (x XOR y)) = (x AND z) OR (y AND NOT z)" for x :: u32
  by (rule bit_word_eqI) (auto simp: bit_simps)

text \<open>
  Both implementations keep the four registers in place and rename them from step to step.
  One group of four in-place steps is four steps of the reference loop.
\<close>

definition step_val :: "u32 list \<Rightarrow> nat \<Rightarrow> u32 \<Rightarrow> u32 \<Rightarrow> u32 \<Rightarrow> u32 \<Rightarrow> u32" where
  "step_val X i w x y z = x + word_rotl (md5_s i) (w + md5_F i x y z + X ! md5_g i + md5_T ! i)"

definition four_steps :: "u32 list \<Rightarrow> nat \<Rightarrow> quad \<Rightarrow> quad" where
  "four_steps X i = (\<lambda>(a, b, c, d).
     let a = step_val X i a b c d;
         d = step_val X (i + 1) d a b c;
         c = step_val X (i + 2) c d a b;
         b = step_val X (i + 3) b c d a
     in (a, b, c, d))"

lemma four_steps: "foldl (md5_step X) q [i, i + 1, i + 2, i + 3] = four_steps X i q"
  by (cases q) (simp add: md5_step_def four_steps_def step_val_def Let_def)

lemma md5_loop_groups:
  "foldl (md5_step X) q [0..<64] = foldl (\<lambda>q i. four_steps X (4 * i) q) q [0..<16]"
proof -
  have "[0..<4 * n] = concat (map (\<lambda>i. [4 * i, 4 * i + 1, 4 * i + 2, 4 * i + 3]) [0..<n])" for n
    by (induction n) (simp_all add: numeral_eq_Suc)
  from this [of 16] have "[0..<64] = concat (map (\<lambda>i. [4 * i, 4 * i + 1, 4 * i + 2, 4 * i + 3]) [0..<16])"
    by simp
  moreover have "foldl (md5_step X) q (concat (map (\<lambda>i. [4 * i, 4 * i + 1, 4 * i + 2, 4 * i + 3]) js))
      = foldl (\<lambda>q i. four_steps X (4 * i) q) q js" for js q
    by (induction js arbitrary: q) (simp_all add: four_steps [symmetric])
  ultimately show ?thesis by simp
qed

end
