(* ===== verification/Mediacheck_Md5.thy ===== *)
theory Mediacheck_Md5
  imports Md5_Ref
begin

text \<open>
  The MD5 of \<open>mediacheck/md5.c\<close>: the context \<open>struct MD5Context\<close>, \<open>MD5_Init\<close>,
  \<open>MD5_Update\<close>, \<open>MD5_Final\<close> and the unrolled \<open>MD5_Transform\<close>, on a little-endian
  machine (\<open>HIGHFIRST\<close> undefined, \<open>byteReverse\<close> empty; the big-endian \<open>byteReverse\<close>
  is modelled beside it). The theorems: the transform is the compression function of
  RFC 1321, the three calls implement the interface \<open>digest_stream\<close>, and what
  \<open>MD5_Final\<close> leaves in the context.
\<close>

unbundle bit_operations_syntax

section \<open>Definitions\<close>

record MD5_CTX =
  md_buf :: quad
  md_bits0 :: u32
  md_bits1 :: u32
  md_in :: "byte list"

text \<open>The four core functions (macros \<open>F1\<close> to \<open>F4\<close>).\<close>

definition F1 :: "u32 \<Rightarrow> u32 \<Rightarrow> u32 \<Rightarrow> u32" where
  "F1 x y z = z XOR (x AND (y XOR z))"

definition F2 :: "u32 \<Rightarrow> u32 \<Rightarrow> u32 \<Rightarrow> u32" where
  "F2 x y z = F1 z x y"

definition F3 :: "u32 \<Rightarrow> u32 \<Rightarrow> u32 \<Rightarrow> u32" where
  "F3 x y z = x XOR y XOR z"

definition F4 :: "u32 \<Rightarrow> u32 \<Rightarrow> u32 \<Rightarrow> u32" where
  "F4 x y z = y XOR (x OR NOT z)"

text \<open>
  The macro \<open>MD5STEP (f, w, x, y, z, data, s)\<close>: the new value of \<open>w\<close>, and its four uses,
  in which \<open>w\<close> is the register \<open>a\<close>, \<open>d\<close>, \<open>c\<close> or \<open>b\<close>.
\<close>

definition MD5STEP ::
  "(u32 \<Rightarrow> u32 \<Rightarrow> u32 \<Rightarrow> u32) \<Rightarrow> u32 \<Rightarrow> u32 \<Rightarrow> u32 \<Rightarrow> u32 \<Rightarrow> u32 \<Rightarrow> nat \<Rightarrow> u32" where
  "MD5STEP f w x y z data s =
     (let w = w + (f x y z + data);
          w = push_bit s w OR drop_bit (32 - s) w
      in w + x)"

definition MD5STEP_a :: "(u32 \<Rightarrow> u32 \<Rightarrow> u32 \<Rightarrow> u32) \<Rightarrow> u32 \<Rightarrow> nat \<Rightarrow> quad \<Rightarrow> quad" where
  "MD5STEP_a f data s = (\<lambda>(a, b, c, d). (MD5STEP f a b c d data s, b, c, d))"

definition MD5STEP_d :: "(u32 \<Rightarrow> u32 \<Rightarrow> u32 \<Rightarrow> u32) \<Rightarrow> u32 \<Rightarrow> nat \<Rightarrow> quad \<Rightarrow> quad" where
  "MD5STEP_d f data s = (\<lambda>(a, b, c, d). (a, b, c, MD5STEP f d a b c data s))"

definition MD5STEP_c :: "(u32 \<Rightarrow> u32 \<Rightarrow> u32 \<Rightarrow> u32) \<Rightarrow> u32 \<Rightarrow> nat \<Rightarrow> quad \<Rightarrow> quad" where
  "MD5STEP_c f data s = (\<lambda>(a, b, c, d). (a, b, MD5STEP f c d a b data s, d))"

definition MD5STEP_b :: "(u32 \<Rightarrow> u32 \<Rightarrow> u32 \<Rightarrow> u32) \<Rightarrow> u32 \<Rightarrow> nat \<Rightarrow> quad \<Rightarrow> quad" where
  "MD5STEP_b f data s = (\<lambda>(a, b, c, d). (a, MD5STEP f b c d a data s, c, d))"

text \<open>
  \<open>MD5_Transform (buf, in)\<close>: the 64 macro calls on the registers \<open>s = (a, b, c, d)\<close>, then
  the function.
\<close>

definition MD5_steps :: "u32 list \<Rightarrow> quad \<Rightarrow> quad" where
  "MD5_steps inp s = (let
    s = MD5STEP_a F1 (inp ! 0 + 0xd76aa478) 7 s;
    s = MD5STEP_d F1 (inp ! 1 + 0xe8c7b756) 12 s;
    s = MD5STEP_c F1 (inp ! 2 + 0x242070db) 17 s;
    s = MD5STEP_b F1 (inp ! 3 + 0xc1bdceee) 22 s;
    s = MD5STEP_a F1 (inp ! 4 + 0xf57c0faf) 7 s;
    s = MD5STEP_d F1 (inp ! 5 + 0x4787c62a) 12 s;
    s = MD5STEP_c F1 (inp ! 6 + 0xa8304613) 17 s;
    s = MD5STEP_b F1 (inp ! 7 + 0xfd469501) 22 s;
    s = MD5STEP_a F1 (inp ! 8 + 0x698098d8) 7 s;
    s = MD5STEP_d F1 (inp ! 9 + 0x8b44f7af) 12 s;
    s = MD5STEP_c F1 (inp ! 10 + 0xffff5bb1) 17 s;
    s = MD5STEP_b F1 (inp ! 11 + 0x895cd7be) 22 s;
    s = MD5STEP_a F1 (inp ! 12 + 0x6b901122) 7 s;
    s = MD5STEP_d F1 (inp ! 13 + 0xfd987193) 12 s;
    s = MD5STEP_c F1 (inp ! 14 + 0xa679438e) 17 s;
    s = MD5STEP_b F1 (inp ! 15 + 0x49b40821) 22 s;
    s = MD5STEP_a F2 (inp ! 1 + 0xf61e2562) 5 s;
    s = MD5STEP_d F2 (inp ! 6 + 0xc040b340) 9 s;
    s = MD5STEP_c F2 (inp ! 11 + 0x265e5a51) 14 s;
    s = MD5STEP_b F2 (inp ! 0 + 0xe9b6c7aa) 20 s;
    s = MD5STEP_a F2 (inp ! 5 + 0xd62f105d) 5 s;
    s = MD5STEP_d F2 (inp ! 10 + 0x02441453) 9 s;
    s = MD5STEP_c F2 (inp ! 15 + 0xd8a1e681) 14 s;
    s = MD5STEP_b F2 (inp ! 4 + 0xe7d3fbc8) 20 s;
    s = MD5STEP_a F2 (inp ! 9 + 0x21e1cde6) 5 s;
    s = MD5STEP_d F2 (inp ! 14 + 0xc33707d6) 9 s;
    s = MD5STEP_c F2 (inp ! 3 + 0xf4d50d87) 14 s;
    s = MD5STEP_b F2 (inp ! 8 + 0x455a14ed) 20 s;
    s = MD5STEP_a F2 (inp ! 13 + 0xa9e3e905) 5 s;
    s = MD5STEP_d F2 (inp ! 2 + 0xfcefa3f8) 9 s;
    s = MD5STEP_c F2 (inp ! 7 + 0x676f02d9) 14 s;
    s = MD5STEP_b F2 (inp ! 12 + 0x8d2a4c8a) 20 s;
    s = MD5STEP_a F3 (inp ! 5 + 0xfffa3942) 4 s;
    s = MD5STEP_d F3 (inp ! 8 + 0x8771f681) 11 s;
    s = MD5STEP_c F3 (inp ! 11 + 0x6d9d6122) 16 s;
    s = MD5STEP_b F3 (inp ! 14 + 0xfde5380c) 23 s;
    s = MD5STEP_a F3 (inp ! 1 + 0xa4beea44) 4 s;
    s = MD5STEP_d F3 (inp ! 4 + 0x4bdecfa9) 11 s;
    s = MD5STEP_c F3 (inp ! 7 + 0xf6bb4b60) 16 s;
    s = MD5STEP_b F3 (inp ! 10 + 0xbebfbc70) 23 s;
    s = MD5STEP_a F3 (inp ! 13 + 0x289b7ec6) 4 s;
    s = MD5STEP_d F3 (inp ! 0 + 0xeaa127fa) 11 s;
    s = MD5STEP_c F3 (inp ! 3 + 0xd4ef3085) 16 s;
    s = MD5STEP_b F3 (inp ! 6 + 0x04881d05) 23 s;
    s = MD5STEP_a F3 (inp ! 9 + 0xd9d4d039) 4 s;
    s = MD5STEP_d F3 (inp ! 12 + 0xe6db99e5) 11 s;
    s = MD5STEP_c F3 (inp ! 15 + 0x1fa27cf8) 16 s;
    s = MD5STEP_b F3 (inp ! 2 + 0xc4ac5665) 23 s;
    s = MD5STEP_a F4 (inp ! 0 + 0xf4292244) 6 s;
    s = MD5STEP_d F4 (inp ! 7 + 0x432aff97) 10 s;
    s = MD5STEP_c F4 (inp ! 14 + 0xab9423a7) 15 s;
    s = MD5STEP_b F4 (inp ! 5 + 0xfc93a039) 21 s;
    s = MD5STEP_a F4 (inp ! 12 + 0x655b59c3) 6 s;
    s = MD5STEP_d F4 (inp ! 3 + 0x8f0ccc92) 10 s;
    s = MD5STEP_c F4 (inp ! 10 + 0xffeff47d) 15 s;
    s = MD5STEP_b F4 (inp ! 1 + 0x85845dd1) 21 s;
    s = MD5STEP_a F4 (inp ! 8 + 0x6fa87e4f) 6 s;
    s = MD5STEP_d F4 (inp ! 15 + 0xfe2ce6e0) 10 s;
    s = MD5STEP_c F4 (inp ! 6 + 0xa3014314) 15 s;
    s = MD5STEP_b F4 (inp ! 13 + 0x4e0811a1) 21 s;
    s = MD5STEP_a F4 (inp ! 4 + 0xf7537e82) 6 s;
    s = MD5STEP_d F4 (inp ! 11 + 0xbd3af235) 10 s;
    s = MD5STEP_c F4 (inp ! 2 + 0x2ad7d2bb) 15 s;
    s = MD5STEP_b F4 (inp ! 9 + 0xeb86d391) 21 s
   in s)"

definition MD5_Transform :: "quad \<Rightarrow> u32 list \<Rightarrow> quad" where
  "MD5_Transform buf inp = (let
     (a, b, c, d) = MD5_steps inp buf;
     (buf0, buf1, buf2, buf3) = buf
   in (buf0 + a, buf1 + b, buf2 + c, buf3 + d))"

definition MD5_Init :: "MD5_CTX \<Rightarrow> MD5_CTX" where
  "MD5_Init ctx = ctx\<lparr>
     md_buf := (0x67452301, 0xefcdab89, 0x98badcfe, 0x10325476),
     md_bits0 := 0, md_bits1 := 0\<rparr>"

text \<open>
  \<open>MD5_Update (ctx, buf, len)\<close>, where \<open>len\<close> is the length of the list: the loop over
  whole 64-byte chunks with the copy of the remaining bytes after it, then the function.
\<close>

function MD5_Update_chunks :: "MD5_CTX \<Rightarrow> byte list \<Rightarrow> MD5_CTX" where
  "MD5_Update_chunks ctx buf =
     (if 64 \<le> length buf then
        let inb = poke (md_in ctx) 0 (take 64 buf)
        in MD5_Update_chunks
             (ctx\<lparr>md_in := inb, md_buf := MD5_Transform (md_buf ctx) (le_words inb)\<rparr>)
             (drop 64 buf)
      else ctx\<lparr>md_in := poke (md_in ctx) 0 buf\<rparr>)"
  by pat_completeness auto
termination
  by (relation "measure (\<lambda>(ctx, buf). length buf)") auto

declare MD5_Update_chunks.simps [simp del]

definition MD5_Update :: "MD5_CTX \<Rightarrow> byte list \<Rightarrow> MD5_CTX" where
  "MD5_Update ctx buf = (let
     len = (of_nat (length buf) :: u32);
     t = md_bits0 ctx;
     bits0 = t + push_bit 3 len;
     bits1 = (if bits0 < t then md_bits1 ctx + 1 else md_bits1 ctx) + drop_bit 29 len;
     ctx = ctx\<lparr>md_bits0 := bits0, md_bits1 := bits1\<rparr>;
     t = unat (drop_bit 3 t AND 0x3f)
   in if t \<noteq> 0 then
        (let p = t;
             t = 64 - t
         in if length buf < t then ctx\<lparr>md_in := poke (md_in ctx) p buf\<rparr>
            else
              (let inb = poke (md_in ctx) p (take t buf)
               in MD5_Update_chunks
                    (ctx\<lparr>md_in := inb, md_buf := MD5_Transform (md_buf ctx) (le_words inb)\<rparr>)
                    (drop t buf)))
      else MD5_Update_chunks ctx buf)"

text \<open>
  \<open>MD5_Final (digest, ctx)\<close> returns the digest and the context it leaves behind. The last
  line, \<open>memset (ctx, 0, sizeof (ctx))\<close>, clears as many bytes as a pointer has: on a 64-bit
  machine the first two words of \<open>buf\<close>.
\<close>

definition MD5_Final :: "MD5_CTX \<Rightarrow> byte list \<times> MD5_CTX" where
  "MD5_Final ctx = (let
     count = unat (drop_bit 3 (md_bits0 ctx) AND 0x3F);
     inb = (md_in ctx)[count := 0x80];
     p = count + 1;
     count = 64 - 1 - count;
     (buf, inb) =
       (if count < 8 then
          (let inb = poke inb p (replicate count 0)
           in (MD5_Transform (md_buf ctx) (le_words inb), poke inb 0 (replicate 56 0)))
        else (md_buf ctx, poke inb p (replicate (count - 8) 0)));
     inb = poke inb 56 (le_bytes32 (md_bits0 ctx));
     inb = poke inb 60 (le_bytes32 (md_bits1 ctx));
     buf = MD5_Transform buf (le_words inb);
     digest = quad_bytes buf;
     (buf0, buf1, buf2, buf3) = buf
   in (digest, ctx\<lparr>md_buf := (0, 0, buf2, buf3), md_in := inb\<rparr>))"

text \<open>\<open>byteReverse (buf, longs)\<close> where \<open>HIGHFIRST\<close> is defined: the word is stored high byte first.\<close>

fun byteReverse :: "byte list \<Rightarrow> byte list" where
  "byteReverse (b0 # b1 # b2 # b3 # buf) =
     (let t = push_bit 16 (push_bit 8 (ucast b3) OR ucast b2) OR (push_bit 8 (ucast b1) OR ucast b0)
      in be_bytes32 t @ byteReverse buf)"
| "byteReverse buf = buf"

section \<open>The transform is the compression function of RFC 1321\<close>

lemma F_rounds:
  "i < 16 \<Longrightarrow> md5_F i = F1"
  "16 \<le> i \<Longrightarrow> i < 32 \<Longrightarrow> md5_F i = F2"
  "32 \<le> i \<Longrightarrow> i < 48 \<Longrightarrow> md5_F i = F3"
  "48 \<le> i \<Longrightarrow> md5_F i = F4"
  by (simp_all add: fun_eq_iff md5_F_def F1_def F2_def F3_def F4_def md5_F_opt1 and.commute)

lemma MD5STEP_val:
  "s < 32 \<Longrightarrow> MD5STEP f w x y z (k + t) s = x + word_rotl s (w + f x y z + k + t)"
  by (simp add: MD5STEP_def word_rotl_or ac_simps)

text \<open>One group of four macro calls, as the reference counts them.\<close>

definition md5_group :: "(u32 \<Rightarrow> u32 \<Rightarrow> u32 \<Rightarrow> u32) \<Rightarrow> u32 list \<Rightarrow> nat \<Rightarrow> quad \<Rightarrow> quad" where
  "md5_group f X i q =
     MD5STEP_b f (X ! md5_g (i + 3) + md5_T ! (i + 3)) (md5_s (i + 3))
      (MD5STEP_c f (X ! md5_g (i + 2) + md5_T ! (i + 2)) (md5_s (i + 2))
       (MD5STEP_d f (X ! md5_g (i + 1) + md5_T ! (i + 1)) (md5_s (i + 1))
        (MD5STEP_a f (X ! md5_g i + md5_T ! i) (md5_s i) q)))"

lemma md5_s_less: "md5_s i < 32"
proof -
  have "i mod 4 \<in> {0, 1, 2, 3}" by auto
  then show ?thesis by (auto simp: md5_s_def)
qed

lemma four_steps_group:
  assumes "md5_F i = f" "md5_F (i + 1) = f" "md5_F (i + 2) = f" "md5_F (i + 3) = f"
  shows "four_steps X i q = md5_group f X i q"
proof -
  obtain a b c d where q: "q = (a, b, c, d)" by (cases q)
  show ?thesis
    unfolding q md5_group_def four_steps_def step_val_def Let_def
      MD5STEP_a_def MD5STEP_b_def MD5STEP_c_def MD5STEP_d_def
    using assms by (simp add: MD5STEP_val md5_s_less)
qed

lemma four_steps_rounds:
  "i + 3 < 16 \<Longrightarrow> four_steps X i q = md5_group F1 X i q"
  "16 \<le> i \<Longrightarrow> i + 3 < 32 \<Longrightarrow> four_steps X i q = md5_group F2 X i q"
  "32 \<le> i \<Longrightarrow> i + 3 < 48 \<Longrightarrow> four_steps X i q = md5_group F3 X i q"
  "48 \<le> i \<Longrightarrow> four_steps X i q = md5_group F4 X i q"
  by (simp_all add: four_steps_group F_rounds)

lemma MD5_steps_loop: "MD5_steps X h = foldl (md5_step X) h [0..<64]"
proof -
  have "[0..<16] = [0, 1, 2, 3, 4, 5, 6, 7, 8, 9, 10, 11, 12, 13, 14, 15::nat]"
    by (simp add: upt_rec)
  then have loop: "foldl (md5_step X) h [0..<64] =
    foldl (\<lambda>q i. four_steps X (4 * i) q) h [0, 1, 2, 3, 4, 5, 6, 7, 8, 9, 10, 11, 12, 13, 14, 15]"
    by (simp only: md5_loop_groups)
  show ?thesis
    unfolding loop
    by (simp add: MD5_steps_def Let_def four_steps_rounds md5_group_def md5_g_def md5_s_def
        md5_T_def) (simp add: numeral_2_eq_2)
qed

lemma MD5_Transform_compress: "MD5_Transform h (le_words blk) = md5_compress h blk"
  by (simp add: MD5_Transform_def MD5_steps_loop md5_compress_def md5_add_def case_prod_beta)

section \<open>Streaming: the context implements the interface of a digest\<close>

definition md5_repr :: "MD5_CTX \<Rightarrow> byte list \<Rightarrow> bool" where
  "md5_repr ctx m \<longleftrightarrow>
     length (md_in ctx) = 64 \<and>
     md_buf ctx = absorb 64 md5_compress md5_h0 m \<and>
     take (length m mod 64) (md_in ctx) = leftover 64 m \<and>
     md_bits0 ctx = of_nat (8 * length m) \<and>
     md_bits1 ctx = of_nat (8 * length m div 2 ^ 32)"

definition fits32 :: "byte list \<Rightarrow> bool" where
  "fits32 b \<longleftrightarrow> length b < 2 ^ 32"

definition md5_wf :: "MD5_CTX \<Rightarrow> bool" where
  "md5_wf ctx \<longleftrightarrow> length (md_in ctx) = 64"

lemma bits_low: "(of_nat (8 * l) :: u32) + push_bit 3 (of_nat k) = of_nat (8 * (l + k))"
  by (simp add: push_bit_eq_mult algebra_simps)

lemma bits_high:
  assumes "k < 2 ^ 32"
  shows "(if (of_nat (8 * l) :: u32) + push_bit 3 (of_nat k) < of_nat (8 * l)
      then of_nat (8 * l div 2 ^ 32) + 1 else of_nat (8 * l div 2 ^ 32)) + drop_bit 29 (of_nat k)
    = (of_nat (8 * (l + k) div 2 ^ 32) :: u32)"
proof -
  have "push_bit 3 (of_nat k) = (of_nat (8 * k) :: u32)"
    by (simp add: push_bit_eq_mult)
  then have shifted: "unat (push_bit 3 (of_nat k) :: u32) = (8 * k) mod 2 ^ 32"
    by (simp only: unat_u32_of_nat)
  have "unat (drop_bit 29 (of_nat k) :: u32) = k div 2 ^ 29"
    using assms by (simp only: unat_drop_bit_div unat_u32_of_nat) simp
  also have "\<dots> = 8 * k div 2 ^ 32" by simp
  finally have "of_nat (unat (drop_bit 29 (of_nat k) :: u32)) = (of_nat (8 * k div 2 ^ 32) :: u32)"
    by (simp only:)
  then have high: "drop_bit 29 (of_nat k) = (of_nat (8 * k div 2 ^ 32) :: u32)"
    by simp
  have "8 * (l + k) div 2 ^ 32 = 8 * l div 2 ^ 32 + 8 * k div 2 ^ 32
      + (if 2 ^ 32 \<le> (8 * l) mod 2 ^ 32 + (8 * k) mod 2 ^ 32 then 1 else 0)"
    unfolding distrib_left by (rule div_add_carry) simp
  then show ?thesis
    unfolding add_carry_iff unat_u32_of_nat shifted high by simp
qed

lemma count_mod: "unat (drop_bit 3 (of_nat (8 * l)) AND 0x3f :: u32) = l mod 64"
proof -
  have "drop_bit 3 (of_nat (8 * l)) AND 0x3f = take_bit 6 (drop_bit 3 (of_nat (8 * l)) :: u32)"
    by (simp add: take_bit_eq_mask mask_eq_exp_minus_1)
  then have "unat (drop_bit 3 (of_nat (8 * l)) AND 0x3f :: u32) = (8 * l mod 2 ^ 32) div 2 ^ 3 mod 2 ^ 6"
    by (simp only: unat_take_bit_mod unat_drop_bit_div unat_u32_of_nat)
  also have "8 * l mod 2 ^ 32 = 8 * (l mod 2 ^ 29)"
    using mult_mod_right [of 8 l "2 ^ 29"] by simp
  also have "8 * (l mod 2 ^ 29) div 2 ^ 3 mod 2 ^ 6 = l mod 64"
    by (simp add: mod_mod_cancel)
  finally show ?thesis .
qed

lemma md5_Update_chunks:
  assumes "length (md_in ctx) = 64"
  shows "\<exists>inb. length inb = 64 \<and> take (length buf mod 64) inb = leftover 64 buf \<and>
    MD5_Update_chunks ctx buf =
      ctx\<lparr>md_in := inb, md_buf := absorb 64 md5_compress (md_buf ctx) buf\<rparr>"
  using assms
proof (induction ctx buf rule: MD5_Update_chunks.induct)
  case (1 ctx buf)
  show ?case
  proof (cases "64 \<le> length buf")
    case True
    let ?ctx = "ctx\<lparr>md_in := take 64 buf, md_buf := md5_compress (md_buf ctx) (take 64 buf)\<rparr>"
    have inb: "poke (md_in ctx) 0 (take 64 buf) = take 64 buf"
      using True 1(2) by (simp add: poke_whole)
    have step: "MD5_Update_chunks ctx buf = MD5_Update_chunks ?ctx (drop 64 buf)"
      using True inb
      by (subst MD5_Update_chunks.simps) (simp add: MD5_Transform_compress Let_def)
    have "absorb 64 md5_compress (md_buf ctx) (take 64 buf @ drop 64 buf)
        = absorb 64 md5_compress (md5_compress (md_buf ctx) (take 64 buf)) (drop 64 buf)"
      using True by (intro absorb_step) auto
    moreover have "length buf mod 64 = (length buf - 64) mod 64"
      using True by (simp add: le_mod_geq)
    moreover obtain inb' where "length inb' = 64"
      "take ((length buf - 64) mod 64) inb' = leftover 64 (drop 64 buf)"
      "MD5_Update_chunks ?ctx (drop 64 buf) = ?ctx\<lparr>md_in := inb',
         md_buf := absorb 64 md5_compress (md_buf ?ctx) (drop 64 buf)\<rparr>"
      using "1.IH" [OF True refl] True inb by (auto simp: MD5_Transform_compress)
    ultimately show ?thesis
      using True step by (auto simp: leftover_drop)
  next
    case False
    then have "take (length buf mod 64) (poke (md_in ctx) 0 buf) = leftover 64 buf"
      by (simp add: poke_def leftover_short)
    with False 1(2) show ?thesis
      by (subst MD5_Update_chunks.simps)
        (auto simp: absorb_short length_poke intro!: exI [of _ "poke (md_in ctx) 0 buf"])
  qed
qed

lemma md5_repr_Init: "md5_wf ctx \<Longrightarrow> md5_repr (MD5_Init ctx) []"
  by (simp add: md5_wf_def md5_repr_def MD5_Init_def md5_h0_def)

text \<open>The part of \<open>MD5_Update\<close> after the bit count has been updated.\<close>

lemma md5_absorb_leading:
  assumes "md5_repr ctx m" and "p = length m mod 64" and "64 - p \<le> length b"
  shows "poke (md_in ctx) p (take (64 - p) b) = leftover 64 m @ take (64 - p) b"
proof -
  have "p \<le> 64" using assms(2) by simp
  with assms show ?thesis
    by (simp add: md5_repr_def poke_def)
qed

lemma md5_repr_Update:
  assumes repr: "md5_repr ctx m" and fit: "fits32 b"
  shows "md5_repr (MD5_Update ctx b) (m @ b)"
proof -
  let ?n = "length m mod 64"
  define ctx' where "ctx' = ctx\<lparr>md_bits0 := of_nat (8 * (length m + length b)),
    md_bits1 := of_nat (8 * (length m + length b) div 2 ^ 32)\<rparr>"
  have ctx': "length (md_in ctx') = 64" "md_buf ctx' = absorb 64 md5_compress md5_h0 m"
    "md_in ctx' = md_in ctx" "take ?n (md_in ctx') = leftover 64 m"
    using repr by (simp_all add: ctx'_def md5_repr_def)
  have bits: "md_bits0 ctx = of_nat (8 * length m)" "md_bits1 ctx = of_nat (8 * length m div 2 ^ 32)"
    using repr by (simp_all only: md5_repr_def)
  have len: "length b < 2 ^ 32"
    using fit by (simp only: fits32_def)
  have upd: "MD5_Update ctx b =
    (if ?n \<noteq> 0 then
       if length b < 64 - ?n then ctx'\<lparr>md_in := poke (md_in ctx) ?n b\<rparr>
       else MD5_Update_chunks (ctx'\<lparr>md_in := poke (md_in ctx) ?n (take (64 - ?n) b),
              md_buf := MD5_Transform (md_buf ctx) (le_words (poke (md_in ctx) ?n (take (64 - ?n) b)))\<rparr>)
              (drop (64 - ?n) b)
     else MD5_Update_chunks ctx' b)"
    unfolding MD5_Update_def Let_def bits bits_low bits_high [OF len, unfolded bits_low] count_mod ctx'_def
    by simp
  consider (partial) "?n \<noteq> 0" "length b < 64 - ?n" | (fill) "?n \<noteq> 0" "64 - ?n \<le> length b"
    | (aligned) "?n = 0"
    by linarith
  then show ?thesis
  proof cases
    case partial
    then have "?n + length b < 64" by simp
    note part = absorb_partial [OF this]
    show ?thesis
      using partial ctx' upd take_poke [of ?n "md_in ctx" b] length_poke [of ?n b "md_in ctx"]
      by (simp add: md5_repr_def ctx'_def part)
  next
    case fill
    let ?k = "64 - ?n"
    let ?blk = "leftover 64 m @ take ?k b"
    note fil = absorb_fill(1) [OF _ refl fill(2), of md5_compress md5_h0, simplified]
      absorb_fill(2-4) [OF _ refl fill(2), simplified]
    define ctx'' where "ctx'' = ctx'\<lparr>md_in := ?blk, md_buf := md5_compress (md_buf ctx') ?blk\<rparr>"
    have "MD5_Update ctx b = MD5_Update_chunks ctx'' (drop ?k b)"
      using fill upd ctx'(2) repr md5_absorb_leading [OF repr refl fill(2)]
      by (simp add: MD5_Transform_compress ctx''_def md5_repr_def)
    moreover have "length (md_in ctx'') = 64"
      using fil(4) by (simp add: ctx''_def)
    ultimately obtain inb where inb: "length inb = 64"
      "take ((length b - ?k) mod 64) inb = leftover 64 (drop ?k b)"
      "MD5_Update ctx b = ctx''\<lparr>md_in := inb,
         md_buf := absorb 64 md5_compress (md_buf ctx'') (drop ?k b)\<rparr>"
      using md5_Update_chunks [of ctx'' "drop ?k b"] by auto
    then show ?thesis
      using fil ctx'(2) by (simp add: md5_repr_def ctx''_def ctx'_def)
  next
    case aligned
    then have lo: "leftover 64 m = []"
      using length_leftover [of 64 m] by simp
    obtain inb where inb: "length inb = 64" "take (length b mod 64) inb = leftover 64 b"
      "MD5_Update ctx b = ctx'\<lparr>md_in := inb,
         md_buf := absorb 64 md5_compress (md_buf ctx') b\<rparr>"
      using aligned upd md5_Update_chunks [OF ctx'(1)] by auto
    moreover have "(length m + length b) mod 64 = length b mod 64"
      using aligned by (simp add: mod_add_left_eq [symmetric, of "length m"])
    ultimately show ?thesis
      using ctx'(2) absorb_append [of 64 md5_compress md5_h0 m] leftover_append [of 64 m]
      by (simp add: md5_repr_def ctx'_def lo)
  qed
qed

lemma le_bytes64_halves:
  "le_bytes64 (of_nat n) = le_bytes32 (of_nat n) @ le_bytes32 (of_nat (n div 2 ^ 32))"
proof -
  have "ucast (of_nat n :: u64) = (of_nat n :: u32)"
    by (rule bit_word_eqI) (simp add: bit_simps)
  moreover have "ucast (drop_bit 32 (of_nat n :: u64)) = (of_nat (drop_bit 32 n) :: u32)"
    by (rule bit_word_eqI) (simp add: bit_simps)
  ultimately show ?thesis
    by (simp add: le_bytes64_def drop_bit_eq_div)
qed

text \<open>The last block (or the last two) as \<open>MD5_Final\<close> builds it in the buffer.\<close>

lemma final_one_block:
  assumes "length l = n" and "n + 9 \<le> 64" and "length rs = 63 - n" and "length a = 4" and "length b = 4"
  shows "poke (poke (poke (l @ 0x80 # rs) (n + 1) (replicate (55 - n) 0)) 56 a) 60 b
    = l @ 0x80 # replicate (55 - n) (0 :: byte) @ a @ b"
proof -
  have "poke ((l @ [0x80]) @ rs) (n + 1) (replicate (55 - n) 0)
      = (l @ [0x80] @ replicate (55 - n) 0) @ drop (55 - n) rs"
    using assms by (subst poke_append) simp_all
  moreover have "poke ((l @ [0x80] @ replicate (55 - n) 0) @ drop (55 - n) rs) 56 a
      = (l @ [0x80] @ replicate (55 - n) 0 @ a) @ drop (59 - n) rs"
    using assms by (subst poke_append) simp_all
  moreover have "poke ((l @ [0x80] @ replicate (55 - n) 0 @ a) @ drop (59 - n) rs) 60 b
      = l @ [0x80] @ replicate (55 - n) 0 @ a @ b"
    using assms by (subst poke_append) simp_all
  ultimately show ?thesis by simp
qed

lemma final_two_blocks:
  assumes "length l = n" and "n < 64" and "length rs = 63 - n" and "length a = 4" and "length b = 4"
  shows "poke (l @ 0x80 # rs) (n + 1) (replicate (63 - n) 0) = l @ 0x80 # replicate (63 - n) (0 :: byte)"
    and "poke (poke (poke (l @ 0x80 # replicate (63 - n) 0) 0 (replicate 56 0)) 56 a) 60 b
      = replicate 56 (0 :: byte) @ a @ b"
proof -
  have "poke ((l @ [0x80]) @ rs) (n + 1) (replicate (63 - n) 0) = (l @ [0x80]) @ replicate (63 - n) 0"
    using assms by (subst poke_append) simp_all
  then show "poke (l @ 0x80 # rs) (n + 1) (replicate (63 - n) 0) = l @ 0x80 # replicate (63 - n) (0 :: byte)"
    by simp
  define r where "r = drop 56 (l @ 0x80 # replicate (63 - n) (0 :: byte))"
  have r: "length r = 8" using assms by (simp add: r_def)
  have "poke (l @ 0x80 # replicate (63 - n) 0) 0 (replicate 56 0) = replicate 56 0 @ r"
    by (simp add: poke_def r_def)
  moreover have "poke (replicate 56 0 @ r) 56 a = (replicate 56 0 @ a) @ drop 4 r"
    using assms by (subst poke_append) simp_all
  moreover have "poke ((replicate 56 0 @ a) @ drop 4 r) 60 b = (replicate 56 0 @ a) @ b"
    using assms r by (subst poke_append) simp_all
  ultimately show "poke (poke (poke (l @ 0x80 # replicate (63 - n) 0) 0 (replicate 56 0)) 56 a) 60 b
      = replicate 56 (0 :: byte) @ a @ b"
    by simp
qed

lemma md5_Final_digest:
  assumes repr: "md5_repr ctx m"
  shows "fst (MD5_Final ctx) = md5_digest m"
proof -
  let ?n = "length m mod 64"
  let ?a = "le_bytes32 (of_nat (8 * length m))"
  let ?b = "le_bytes32 (of_nat (8 * length m div 2 ^ 32))"
  let ?tl = "drop (?n + 1) (md_in ctx)"
  have bits: "md_bits0 ctx = of_nat (8 * length m)" "md_bits1 ctx = of_nat (8 * length m div 2 ^ 32)"
    using repr by (simp_all only: md5_repr_def)
  have inb: "length (md_in ctx) = 64" "take ?n (md_in ctx) = leftover 64 m"
    and buf: "md_buf ctx = absorb 64 md5_compress md5_h0 m"
    using repr by (simp_all add: md5_repr_def)
  have lf: "?a @ ?b = md5_lenfield m"
    by (simp only: md5_lenfield_def le_bytes64_halves)
  have set80: "(md_in ctx)[?n := 0x80] = leftover 64 m @ 0x80 # ?tl"
    using inb by (simp add: upd_conv_take_nth_drop)
  have lens: "length (leftover 64 m) = ?n" "length ?tl = 63 - ?n" "length ?a = 4" "length ?b = 4"
    using inb by (simp_all add: length_leftover)
  have n64: "?n < 64" by simp
  show ?thesis
  proof (cases "?n + 9 \<le> 64")
    case True
    then have "(64 - 1 - ?n < 8) = False" by simp
    then have "fst (MD5_Final ctx) = quad_bytes (md5_compress (md_buf ctx)
        (leftover 64 m @ 0x80 # replicate (55 - ?n) 0 @ ?a @ ?b))"
      unfolding MD5_Final_def Let_def bits count_mod set80
      using final_one_block [OF lens(1) True lens(2-4)]
      by (simp add: MD5_Transform_compress case_prod_beta del: of_nat_mult)
    also have "\<dots> = md5_digest m"
      using absorb_pad_one [of "md5_lenfield m" 64 m md5_compress md5_h0] True
      by (simp add: md5_digest_def buf lf [symmetric] del: of_nat_mult)
    finally show ?thesis .
  next
    case False
    then have "(64 - 1 - ?n < 8) = True" by simp
    then have "fst (MD5_Final ctx) = quad_bytes (md5_compress
        (md5_compress (md_buf ctx) (leftover 64 m @ 0x80 # replicate (63 - ?n) 0))
        (replicate 56 0 @ ?a @ ?b))"
      unfolding MD5_Final_def Let_def bits count_mod set80
      using final_two_blocks [OF lens(1) n64 lens(2-4)]
      by (simp add: MD5_Transform_compress case_prod_beta del: of_nat_mult)
    also have "\<dots> = md5_digest m"
      using absorb_pad_two [of "md5_lenfield m" 64 m md5_compress md5_h0] False
      by (simp add: md5_digest_def buf lf [symmetric] del: of_nat_mult)
    finally show ?thesis .
  qed
qed

interpretation mediacheck_md5: digest_stream MD5_Init MD5_Update "\<lambda>ctx. fst (MD5_Final ctx)"
  fits32 md5_wf md5_repr md5_digest
  by unfold_locales (simp_all add: md5_repr_Init md5_repr_Update md5_Final_digest)

section \<open>What MD5\_Final leaves in the context\<close>

lemma md5_Final_ctx:
  "\<exists>x y. md_buf (snd (MD5_Final ctx)) = (0, 0, x, y) \<and>
     drop 8 (fst (MD5_Final ctx)) = le_bytes32 x @ le_bytes32 y"
  by (auto simp: MD5_Final_def Let_def quad_bytes_def split: prod.split)

lemma md5_Final_in_short:
  assumes repr: "md5_repr ctx m" and short: "length m mod 64 \<le> 55"
  shows "take (length m mod 64) (md_in (snd (MD5_Final ctx))) = leftover 64 m"
proof -
  let ?n = "length m mod 64"
  have bits: "md_bits0 ctx = of_nat (8 * length m)" "md_bits1 ctx = of_nat (8 * length m div 2 ^ 32)"
    using repr by (simp_all only: md5_repr_def)
  have inb: "length (md_in ctx) = 64" "take ?n (md_in ctx) = leftover 64 m"
    using repr by (simp_all add: md5_repr_def)
  have len: "length (leftover 64 m) = ?n" "length (drop (?n + 1) (md_in ctx)) = 63 - ?n"
    using inb by (simp_all add: length_leftover)
  have set80: "(md_in ctx)[?n := 0x80] = leftover 64 m @ 0x80 # drop (?n + 1) (md_in ctx)"
    using inb by (simp add: upd_conv_take_nth_drop)
  have "(64 - 1 - ?n < 8) = False" using short by simp
  moreover have "?n + 9 \<le> 64" using short by simp
  ultimately have "md_in (snd (MD5_Final ctx)) = leftover 64 m @ 0x80 # replicate (55 - ?n) 0 @
      le_bytes32 (of_nat (8 * length m)) @ le_bytes32 (of_nat (8 * length m div 2 ^ 32))"
    unfolding MD5_Final_def Let_def bits count_mod set80
    using final_one_block [OF len(1) _ len(2), of "le_bytes32 (of_nat (8 * length m))"
        "le_bytes32 (of_nat (8 * length m div 2 ^ 32))"]
    by (simp add: case_prod_beta del: of_nat_mult)
  with len show ?thesis by simp
qed

section \<open>Properties\<close>

text \<open>
  C7: \<open>mediacheck/md5.c\<close> computes MD5. Whatever stood in the context before, \<open>MD5_Init\<close>
  followed by any number of calls of \<open>MD5_Update\<close>, each on less than \<open>2 ^ 32\<close> bytes, and
  \<open>MD5_Final\<close> yields the RFC 1321 digest of the concatenation of all chunks, however the
  data was cut and however long it was in total (the bit counter wraps at \<open>2 ^ 64\<close> as the RFC
  demands).
\<close>

theorem MD5_stream_correct:
  assumes "length (md_in ctx) = 64" and "\<forall>b \<in> set bs. length b < 2 ^ 32"
  shows "fst (MD5_Final (foldl MD5_Update (MD5_Init ctx) bs)) = md5_digest (concat bs)"
proof (rule mediacheck_md5.stream_digest)
  show "md5_wf ctx" using assms(1) by (simp add: md5_wf_def)
  show "list_all fits32 bs" using assms(2) by (simp add: list_all_iff fits32_def)
qed

definition zero_ctx :: MD5_CTX where
  "zero_ctx = \<lparr>md_buf = (0, 0, 0, 0), md_bits0 = 0, md_bits1 = 0, md_in = replicate 64 0\<rparr>"

theorem MD5_stream_correct_witness:
  "fst (MD5_Final (foldl MD5_Update (MD5_Init zero_ctx) [[0x61], [], [0x62, 0x63]]))
    = md5_digest [0x61, 0x62, 0x63]"
  using MD5_stream_correct [of zero_ctx "[[0x61], [], [0x62, 0x63]]"] by (simp add: zero_ctx_def)

text \<open>
  C14: The unrolled, optimised \<open>MD5_Transform\<close> (64 macro calls on four registers in place) is
  the compression function of RFC 1321, for every chaining value and every block.
\<close>

theorem MD5_Transform_rfc1321: "MD5_Transform h (le_words blk) = md5_compress h blk"
  by (rule MD5_Transform_compress)

text \<open>
  \<open>byteReverse\<close> does on a big-endian machine what its comment promises: reading the
  reversed buffer high byte first gives the words the unreversed buffer holds low byte first.
\<close>

lemma byteReverse_words: "be_words (byteReverse bs) = le_words bs"
proof (induction bs rule: byteReverse.induct)
  case (1 b0 b1 b2 b3 buf)
  have "push_bit 16 (push_bit 8 (ucast b3) OR ucast b2) OR (push_bit 8 (ucast b1) OR ucast b0)
      = le32 b0 b1 b2 b3"
    by (rule bit_word_eqI) (auto simp: le32_def bit_simps)
  with 1 show ?case by simp
qed simp_all

text \<open>
  \<open>MD5_Final\<close> does not wipe the context (\<open>sizeof (ctx)\<close> is the size of the pointer): the
  second half of the digest stays in \<open>buf\<close>, and if the last block holds at most 55 message
  bytes they stay in \<open>in\<close>.
\<close>

lemma MD5_Final_not_wiped:
  assumes "md5_repr ctx m" and "length m mod 64 \<le> 55"
  shows "take (length m mod 64) (md_in (snd (MD5_Final ctx))) = leftover 64 m \<and>
    (\<exists>x y. md_buf (snd (MD5_Final ctx)) = (0, 0, x, y) \<and>
       drop 8 (md5_digest m) = le_bytes32 x @ le_bytes32 y)"
  using md5_Final_in_short [OF assms] md5_Final_ctx [of ctx] md5_Final_digest [OF assms(1)] by auto

end
