(* ===== verification/Iso_Check.thy ===== *)
theory Iso_Check
  imports Iso_Pvd Mediacheck_Md5
begin

text \<open>
  \<open>checkmd5sum\<close>, the check of the sum implanted in an image: the loop that hashes the image
  with the application data blanked out, in the version of \<open>checkisomd5.c\<close> (which prints its
  progress) and of \<open>mediacheck.c\<close> (which calls a callback), and \<open>main\<close> of \<open>checkisomd5.c\<close>.
  A \<open>memset\<close> beyond the end of the heap buffer is the fault \<open>Overrun\<close>.
\<close>

unbundle bit_operations_syntax

section \<open>Definitions\<close>

datatype fault = Overrun

text \<open>\<open>snprintf (tmpstr, 4, "%02x", md5sum[i])\<close> appended over all bytes of the sum.\<close>

definition hexdigit :: "nat \<Rightarrow> byte" where
  "hexdigit n = (if n < 10 then 0x30 + of_nat n else 0x57 + of_nat n)"

definition hex_byte :: "byte \<Rightarrow> byte list" where
  "hex_byte b = [hexdigit (unat b div 16), hexdigit (unat b mod 16)]"

definition hexsum :: "byte list \<Rightarrow> byte list" where
  "hexsum ds = concat (map hex_byte ds)"

text \<open>The C string in a character array, and \<open>strcmp (s, t) == 0\<close>.\<close>

definition cstr :: "byte list \<Rightarrow> byte list" where
  "cstr = takeWhile (\<lambda>c. c \<noteq> 0)"

text \<open>\<open>memset (buf + start, ' ', len)\<close> where \<open>len\<close> is \<open>unsigned int\<close>.\<close>

definition memset_blank :: "byte list \<Rightarrow> int \<Rightarrow> int \<Rightarrow> fault + byte list" where
  "memset_blank buf start len =
     (let s = nat start; n = nat (len mod 2 ^ 32)
      in if s + n \<le> length buf then Inr (poke buf s (replicate n 0x20)) else Inl Overrun)"

text \<open>The three cases in which a chunk of the image meets the application data.\<close>

definition blank_appdata :: "int \<Rightarrow> int \<Rightarrow> int \<Rightarrow> byte list \<Rightarrow> fault + byte list" where
  "blank_appdata apoff offset nread buf =
     (if offset < apoff \<and> offset + nread \<ge> apoff then
        let appdata_start_offset = apoff - offset;
            appdata_end_offset = min (appdata_start_offset + min nread 512) (offset + nread - apoff)
        in memset_blank buf appdata_start_offset (appdata_end_offset - appdata_start_offset)
      else if offset \<ge> apoff \<and> offset + nread < apoff + 512 then
        let appdata_start_offset = 0;
            appdata_end_offset = nread
        in memset_blank buf appdata_start_offset (appdata_end_offset - appdata_start_offset)
      else if offset < apoff + 512 \<and> offset + nread \<ge> apoff + 512 then
        let appdata_start_offset = 0;
            appdata_end_offset = apoff + 512 - offset
        in memset_blank buf appdata_start_offset (appdata_end_offset - appdata_start_offset)
      else Inr buf)"

text \<open>
  The loop of \<open>checkmd5sum\<close>. \<open>report\<close> is what the loop does after a chunk, on a state of its
  own: printing the tally in \<open>checkisomd5.c\<close>, the callback in \<open>mediacheck.c\<close>.
\<close>

function hash_loop ::
  "('s \<Rightarrow> int \<Rightarrow> 's) \<Rightarrow> int \<Rightarrow> int \<Rightarrow> iofd \<Rightarrow> byte list \<Rightarrow> int \<Rightarrow> 's \<Rightarrow> MD5_CTX \<Rightarrow>
    fault + (MD5_CTX \<times> 's \<times> iofd)" where
  "hash_loop report isosize apoff fd buf offset st ctx =
     (if offset < isosize - SKIPSECTORS * 2048 then
        let nattempt = min (isosize - SKIPSECTORS * 2048 - offset) 32768
        in case sys_read fd (nat nattempt) of (nread, bs, fd') \<Rightarrow>
             if nread \<le> 0 then Inr (ctx, st, fd')
             else (case blank_appdata apoff offset nread (poke buf 0 bs) of
                 Inl e \<Rightarrow> Inl e
               | Inr buf \<Rightarrow>
                   hash_loop report isosize apoff fd' buf (offset + nread) (report st (offset + nread))
                     (MD5_Update ctx (take (nat nread) buf)))
      else Inr (ctx, st, fd))"
  by pat_completeness auto
termination
  by (relation "measure (\<lambda>(report, isosize, apoff, fd, buf, offset, st, ctx).
        length (io_data fd) - io_pos fd)")
    (auto simp: sys_read_def Let_def split: if_splits)

declare hash_loop.simps [simp del]

text \<open>The progress report of \<open>checkisomd5.c\<close>: the tally and the megabytes printed so far.\<close>

definition tally_report :: "int \<times> int list \<Rightarrow> int \<Rightarrow> int \<times> int list" where
  "tally_report = (\<lambda>(tally, out) offset.
     if offset \<ge> tally then (tally + 50 * 1000 * 1000, out @ [tally div 1000 div 1000])
     else (tally, out))"

record check_result =
  cr_rc :: int
  cr_mediasum :: "byte list"
  cr_computedsum :: "byte list"
  cr_printed :: "int list"
  cr_fd :: iofd

text \<open>
  \<open>checkmd5sum\<close> of \<open>checkisomd5.c\<close>; \<open>sbuf\<close> and \<open>hbuf\<close> are the stack buffer of \<open>parsepvd\<close> and
  the heap buffer, \<open>ctx\<close> the uninitialised context.
\<close>

definition checkmd5sum ::
  "byte list \<Rightarrow> byte list \<Rightarrow> MD5_CTX \<Rightarrow> iofd \<Rightarrow> byte list \<Rightarrow> byte list \<Rightarrow> fault + check_result" where
  "checkmd5sum sbuf hbuf ctx fd mediasum computedsum =
     (case checkiso_parsepvd fd sbuf mediasum 0 of (pvd_offset, mediasum, isosize, fd) \<Rightarrow>
        if pvd_offset < 0 then
          Inr \<lparr>cr_rc = -1, cr_mediasum = mediasum, cr_computedsum = computedsum,
               cr_printed = [], cr_fd = fd\<rparr>
        else
          let fd = snd (sys_lseek fd 0);
              ctx = MD5_Init ctx;
              apoff = pvd_offset + int APPDATA_OFFSET
          in (case hash_loop tally_report isosize apoff fd hbuf 0 (0, []) ctx of
                Inl e \<Rightarrow> Inl e
              | Inr (ctx, (tally, out), fd) \<Rightarrow>
                  let computedsum = hexsum (fst (MD5_Final ctx)) @ [0]
                  in Inr \<lparr>cr_rc = (if cstr mediasum = cstr computedsum then 1 else 0),
                          cr_mediasum = mediasum, cr_computedsum = computedsum,
                          cr_printed = out, cr_fd = fd\<rparr>))"

text \<open>
  \<open>main\<close> of \<open>checkisomd5.c\<close>: the exit status (the value returned, modulo 256), the line printed
  about the result and the two strings printed before it, of which the arrays \<open>mediasum\<close> and
  \<open>computedsum\<close> are uninitialised at first. \<open>opn\<close> is \<open>open (name, O_RDONLY)\<close>.
\<close>

datatype check_line = Usage | Unable_To_Open | Sums_Differ | Sums_Match | No_Checksum

definition checkisomd5_main ::
  "(string \<Rightarrow> iofd option) \<Rightarrow> byte list \<Rightarrow> byte list \<Rightarrow> MD5_CTX \<Rightarrow> byte list \<Rightarrow> byte list \<Rightarrow>
    string list \<Rightarrow> fault + (int \<times> check_line \<times> byte list list)" where
  "checkisomd5_main opn sbuf hbuf ctx mediasum computedsum argv =
     (if length argv < 2 then Inr (1, Usage, [])
      else case opn (argv ! 1) of
          None \<Rightarrow> Inr (1, Unable_To_Open, [])
        | Some isofd \<Rightarrow>
            (case checkmd5sum sbuf hbuf ctx isofd mediasum computedsum of
               Inl e \<Rightarrow> Inl e
             | Inr r \<Rightarrow>
                 let sums = [cstr (cr_mediasum r), cstr (cr_computedsum r)]
                 in if cr_rc r = 0 then Inr (cr_rc r mod 256, Sums_Differ, sums)
                    else if cr_rc r > 0 then Inr (cr_rc r mod 256, Sums_Match, sums)
                    else Inr (-1 mod 256, No_Checksum, sums)))"

text \<open>
  What the check compares, as a specification: the application data blanked, and the bytes in
  front of the skipped sectors.
\<close>

definition blanked :: "nat \<Rightarrow> byte list \<Rightarrow> byte list" where
  "blanked k d = poke d (2048 * (16 + k) + APPDATA_OFFSET) (replicate 512 0x20)"

definition checked_size :: "int \<Rightarrow> nat" where
  "checked_size isosize = nat (isosize - SKIPSECTORS * 2048)"

definition appdata_at :: "nat \<Rightarrow> int" where
  "appdata_at k = 2048 * int (16 + k) + int APPDATA_OFFSET"

section \<open>The loop hashes the blanked image\<close>

lemma sys_read_upto:
  assumes "io_pos fd < io_limit fd" and "io_limit fd \<le> length (io_data fd)" and "0 < n"
    and "m = min n (io_limit fd - io_pos fd)"
  shows "sys_read fd n =
    (int m, take m (drop (io_pos fd) (io_data fd)), fd\<lparr>io_pos := io_pos fd + m\<rparr>)"
proof -
  have "take n (drop (io_pos fd) (take (io_limit fd) (io_data fd)))
      = take m (drop (io_pos fd) (io_data fd))"
    using assms by (simp add: drop_take min.commute)
  moreover have "length (take m (drop (io_pos fd) (io_data fd))) = m"
    using assms by simp
  ultimately show ?thesis
    using assms by (simp add: sys_read_def Let_def del: length_take length_drop)
qed

lemma length_blanked:
  "2048 * (16 + k) + 883 + 512 \<le> length d \<Longrightarrow> length (blanked k d) = length d"
  by (simp add: blanked_def appdata_at_def APPDATA_OFFSET_def length_poke)

text \<open>
  One chunk. The descriptor lies in one of the sectors 16 to 23, so its application data lie
  in the first half of the second chunk.
\<close>

lemma blank_chunk:
  assumes "k \<le> 7" and "2048 * (16 + k) + 883 + 512 \<le> length d" and "length buf = 32768"
    and "o' + m \<le> length d" and "m \<le> 32768" and "0 < m"
    and "o' = 0 \<or> o' = 32768 \<and> m = 32768 \<or> 65536 \<le> o'"
  shows "\<exists>buf'. length buf' = 32768 \<and> take m buf' = take m (drop o' (blanked k d)) \<and>
    blank_appdata (appdata_at k) (int o') (int m)
      (poke buf 0 (take m (drop o' d))) = Inr buf'"
proof -
  let ?c = "take m (drop o' d)" and ?ap = "2048 * (16 + k) + 883"
  have lc: "length ?c = m" using assms by simp
  have lp: "length (poke buf 0 ?c) = 32768"
    using assms lc by (simp add: length_poke)
  have tp: "take m (poke buf 0 ?c) = ?c"
    using lc by (simp add: poke_def)
  show ?thesis
  proof (cases "o' = 32768 \<and> m = 32768")
    case True
    then have whole: "poke buf 0 ?c = ?c"
      using lc assms(3) by (simp add: poke_whole)
    have "blank_appdata (appdata_at k) (int o') (int m) ?c
        = Inr (poke ?c (883 + 2048 * k) (replicate 512 0x20))"
      using True assms(1) lc
      by (simp add: blank_appdata_def memset_blank_def Let_def appdata_at_def APPDATA_OFFSET_def nat_add_distrib nat_mult_distrib)
    moreover have "take m (drop o' (blanked k d)) = poke ?c (883 + 2048 * k) (replicate 512 0x20)"
      using True assms window_poke_inside [of ?ap "replicate 512 (0x20 :: byte)" o' m d]
      by (simp add: blanked_def appdata_at_def APPDATA_OFFSET_def)
    moreover have "length (poke ?c (883 + 2048 * k) (replicate 512 0x20)) = 32768"
      using True assms(1) lc by (subst length_poke) simp_all
    ultimately show ?thesis
      using whole True by auto
  next
    case False
    then have far: "o' + m < ?ap \<or> ?ap + 512 \<le> o'"
      using assms by auto
    then have "take m (drop o' (blanked k d)) = ?c"
      using assms(2) window_poke_outside [of ?ap "replicate 512 (0x20 :: byte)" d o' m]
      by (auto simp: blanked_def appdata_at_def APPDATA_OFFSET_def)
    moreover have "blank_appdata (appdata_at k) (int o') (int m) b = Inr b" for b
      using far by (auto simp: blank_appdata_def appdata_at_def APPDATA_OFFSET_def)
    ultimately show ?thesis
      using lp tp by auto
  qed
qed

lemma hash_loop_step:
  assumes "k \<le> 7" and "io_limit fd \<le> length (io_data fd)" and "length buf = 32768"
    and "M = min (checked_size isosize) (io_limit fd)" and "65536 \<le> M"
    and "io_pos fd = o'" and "o' < M" and "32768 dvd o'" and "m = min (M - o') 32768"
    and "md5_repr ctx (take o' (blanked k (io_data fd)))"
  shows "\<exists>ctx' buf'. length buf' = 32768 \<and>
    md5_repr ctx' (take (o' + m) (blanked k (io_data fd))) \<and>
    hash_loop report isosize (appdata_at k) fd buf (int o') st ctx =
      hash_loop report isosize (appdata_at k) (fd\<lparr>io_pos := o' + m\<rparr>)
        buf' (int (o' + m)) (report st (int (o' + m))) ctx'"
proof -
  let ?d = "io_data fd" and ?N = "checked_size isosize"
  have m: "0 < m" "m \<le> 32768" "o' + m \<le> M" "M \<le> length ?d"
    using assms by auto
  have read: "sys_read fd (min (?N - o') 32768) = (int m, take m (drop o' ?d), fd\<lparr>io_pos := o' + m\<rparr>)"
  proof (subst sys_read_upto [of fd _ m])
    show "m = min (min (?N - o') 32768) (io_limit fd - io_pos fd)"
      using assms(4,6,9) by arith
  qed (use assms in auto)
  have "o' = 0 \<or> o' = 32768 \<and> m = 32768 \<or> 65536 \<le> o'"
    using assms(4-9) by (auto simp: min_def dvd_def split: if_splits)
  then obtain buf' where buf': "length buf' = 32768" "take m buf' = take m (drop o' (blanked k ?d))"
    "blank_appdata (appdata_at k) (int o') (int m)
      (poke buf 0 (take m (drop o' ?d))) = Inr buf'"
    using blank_chunk [of k ?d buf o' m] assms(1-5) m by auto
  have "o' < ?N" using assms(4,7) by simp
  then have "int o' < isosize - SKIPSECTORS * 2048"
    unfolding checked_size_def by linarith
  moreover from this have "nat (min (isosize - SKIPSECTORS * 2048 - int o') 32768) = min (?N - o') 32768"
    unfolding checked_size_def by linarith
  ultimately have "hash_loop report isosize (appdata_at k) fd buf (int o') st ctx
      = hash_loop report isosize (appdata_at k) (fd\<lparr>io_pos := o' + m\<rparr>)
          buf' (int (o' + m)) (report st (int (o' + m))) (MD5_Update ctx (take m buf'))"
    using m by (subst hash_loop.simps) (simp add: read buf' Let_def)
  moreover have "md5_repr (MD5_Update ctx (take m buf')) (take (o' + m) (blanked k ?d))"
    using md5_repr_Update [OF assms(10), of "take m buf'"] m buf'(2)
    by (simp add: fits32_def take_add)
  ultimately show ?thesis
    using buf'(1) by (intro exI conjI)
qed

lemma hash_loop_correct:
  assumes "k \<le> 7" and "io_limit fd \<le> length (io_data fd)" and "length buf = 32768"
    and "M = min (checked_size isosize) (io_limit fd)" and "65536 \<le> M"
    and "io_pos fd = o'" and "o' \<le> M" and "32768 dvd o' \<or> o' = M"
    and "md5_repr ctx (take o' (blanked k (io_data fd)))"
  shows "\<exists>ctx' st'. md5_repr ctx' (take M (blanked k (io_data fd))) \<and>
    hash_loop report isosize (appdata_at k) fd buf (int o') st ctx
      = Inr (ctx', st', fd\<lparr>io_pos := M\<rparr>)"
  using assms
proof (induction "M - o'" arbitrary: o' fd buf st ctx rule: less_induct)
  case less
  show ?case
  proof (cases "o' = M")
    case True
    then have "hash_loop report isosize (appdata_at k) fd buf (int o') st ctx
        = Inr (ctx, st, fd)"
      using less.prems
      by (subst hash_loop.simps)
        (auto simp: checked_size_def sys_read_def Let_def min_def split: if_splits)
    then show ?thesis
      using True less.prems by force
  next
    case False
    define m where "m = min (M - o') 32768"
    have dvd: "32768 dvd o'" and lt: "o' < M"
      using False less.prems(7,8) by simp_all
    obtain ctx' buf' where step: "length buf' = 32768"
      "md5_repr ctx' (take (o' + m) (blanked k (io_data fd)))"
      "hash_loop report isosize (appdata_at k) fd buf (int o') st ctx =
        hash_loop report isosize (appdata_at k) (fd\<lparr>io_pos := o' + m\<rparr>)
          buf' (int (o' + m)) (report st (int (o' + m))) ctx'"
      using hash_loop_step [OF less.prems(1-6) lt dvd m_def less.prems(9),
          where report = report and st = st] by (elim exE conjE)
    have m: "32768 dvd o' + m \<or> o' + m = M" "M - (o' + m) < M - o'" "o' + m \<le> M"
      using dvd lt by (cases "M - o' \<le> 32768"; simp add: m_def)+
    let ?fd = "fd\<lparr>io_pos := o' + m\<rparr>"
    have "\<exists>ctx'' st''. md5_repr ctx'' (take M (blanked k (io_data ?fd))) \<and>
        hash_loop report isosize (appdata_at k) ?fd buf' (int (o' + m))
          (report st (int (o' + m))) ctx' = Inr (ctx'', st'', ?fd\<lparr>io_pos := M\<rparr>)"
      by (rule less.hyps [OF m(2) less.prems(1) _ step(1) _ less.prems(5) _ m(3,1)])
        (use less.prems(2,4) step(2) in simp_all)
    then show ?thesis
      unfolding step(3) by simp
  qed
qed

section \<open>The verdict\<close>

lemma hexdigit_nonzero: "n < 16 \<Longrightarrow> hexdigit n \<noteq> 0"
proof -
  have "\<forall>n \<in> set [0..<16]. hexdigit n \<noteq> 0"
    by (simp add: hexdigit_def upt_rec)
  then show "n < 16 \<Longrightarrow> hexdigit n \<noteq> 0" by simp
qed

lemma hex_byte_nonzero: "c \<in> set (hex_byte b) \<Longrightarrow> c \<noteq> 0"
proof -
  have "unat b < 256" using unsigned_less [of b] by simp
  then show "c \<in> set (hex_byte b) \<Longrightarrow> c \<noteq> 0"
    by (auto simp: hex_byte_def hexdigit_nonzero)
qed

lemma cstr_hexsum [simp]: "cstr (hexsum ds @ [0]) = hexsum ds"
proof -
  have "c \<noteq> 0" if "c \<in> set (hexsum ds)" for c
    using that hex_byte_nonzero by (auto simp: hexsum_def)
  then show ?thesis
    by (simp add: cstr_def)
qed

lemma length_hexsum [simp]: "length (hexsum ds) = 2 * length ds"
  by (induction ds) (simp_all add: hexsum_def hex_byte_def)

text \<open>A medium on which the check can run: the conditions of the theorems below.\<close>

definition checkable :: "iofd \<Rightarrow> nat \<Rightarrow> bool" where
  "checkable fd k \<longleftrightarrow>
     io_seekable fd \<and> io_limit fd \<le> length (io_data fd) \<and> pvd_at (io_data fd) k \<and>
     65536 \<le> min (checked_size (pvd_isosize (sector (io_data fd) (16 + k)))) (io_limit fd)"

lemma checkmd5sum_verdict_aux:
  assumes "checkable fd k" and "k \<le> 7" and "length sbuf = 2048" and "length hbuf = 32768"
    and "md5_wf ctx" and "sec = sector (io_data fd) (16 + k)" and "skip_spaces (pvd_mediasum sec) \<noteq> 0"
    and "M = min (checked_size (pvd_isosize sec)) (io_limit fd)"
    and "hsum = hexsum (md5_digest (take M (blanked k (io_data fd))))"
  shows "\<exists>out. checkmd5sum sbuf hbuf ctx fd ms cs =
    Inr \<lparr>cr_rc = (if cstr (pvd_mediasum sec) = hsum then 1 else 0), cr_mediasum = pvd_mediasum sec,
         cr_computedsum = hsum @ [0], cr_printed = out, cr_fd = fd\<lparr>io_pos := M\<rparr>\<rparr>"
proof -
  let ?fd = "fd\<lparr>io_pos := 0\<rparr>"
  have c: "io_seekable fd" "io_limit fd \<le> length (io_data fd)" "pvd_at (io_data fd) k" "65536 \<le> M"
    using assms(1,6,8) by (simp_all add: checkable_def)
  then have "2048 * (17 + k) \<le> io_limit fd"
    using assms(2,8) by simp
  then have pvd: "checkiso_parsepvd fd sbuf ms 0 =
      (2048 * int (16 + k), pvd_mediasum sec, pvd_isosize sec, fd\<lparr>io_pos := 2048 * (17 + k)\<rparr>)"
    using checkiso_parsepvd_found [of fd k sbuf ms 0] c assms(2,3,6,7) by (simp add: Let_def)
  have "md5_repr (MD5_Init ctx) (take 0 (blanked k (io_data ?fd)))"
    using assms(5) by (simp add: md5_repr_Init)
  then obtain ctx' st' where loop: "md5_repr ctx' (take M (blanked k (io_data fd)))"
    "hash_loop tally_report (pvd_isosize sec) (appdata_at k) ?fd hbuf 0 (0, []) (MD5_Init ctx)
      = Inr (ctx', st', fd\<lparr>io_pos := M\<rparr>)"
    using hash_loop_correct [of k ?fd hbuf M "pvd_isosize sec" 0 "MD5_Init ctx" tally_report "(0, [])"]
      assms(2,4,8) c by auto
  have "fst (MD5_Final ctx') = md5_digest (take M (blanked k (io_data fd)))"
    using loop(1) by (rule md5_Final_digest)
  then show ?thesis
    using loop(2) c(1) assms(9)
    by (cases st') (auto simp: checkmd5sum_def pvd sys_lseek_def Let_def appdata_at_def)
qed

text \<open>Two images that agree in front of the skipped sectors have the same descriptor and blanked front.\<close>

lemma agree_front:
  assumes "pvd_at d k" and "65536 \<le> N" and "N \<le> length d" and "N \<le> length d'" and "k \<le> 7"
    and "take N d = take N d'"
  shows "pvd_at d' k" and "sector d' (16 + k) = sector d (16 + k)"
    and "take N (blanked k d) = take N (blanked k d')"
proof -
  have nth: "d ! i = d' ! i" if "i < N" for i
    using assms(6) that by (metis nth_take)
  have near: "2048 * (17 + k) \<le> N"
    using assms(2,5) by simp
  have "take 2048 (drop (2048 * (16 + k)) (take N d)) = take 2048 (drop (2048 * (16 + k)) (take N d'))"
    using assms(6) by simp
  then show "sector d' (16 + k) = sector d (16 + k)"
    using near by (simp add: sector_def drop_take)
  show "pvd_at d' k"
    using assms(1,4) near nth by (auto simp: pvd_at_def)
  show "take N (blanked k d) = take N (blanked k d')"
  proof (rule nth_equalityI)
    show "length (take N (blanked k d)) = length (take N (blanked k d'))"
      using assms near by (simp add: length_blanked)
    show "take N (blanked k d) ! i = take N (blanked k d') ! i" if "i < length (take N (blanked k d))" for i
      using that nth assms near by (simp add: blanked_def nth_poke APPDATA_OFFSET_def)
  qed
qed

lemma blank_overrun:
  assumes "8 \<le> k" and "k \<le> 15" and "length buf = 32768"
  shows "blank_appdata (appdata_at k) 32768 32768 buf = Inl Overrun"
proof -
  have "min (883 + 2048 * int k + 512) (31885 - 2048 * int k) = 31885 - 2048 * int k"
    using assms by simp
  moreover have "(31885 - 2048 * int k - (883 + 2048 * int k)) mod 2 ^ 32
      = 2 ^ 32 + 31002 - 4096 * int k"
    using assms by (subst mod_add_self2 [symmetric]) simp
  ultimately show ?thesis
    using assms
    by (simp add: blank_appdata_def memset_blank_def Let_def appdata_at_def APPDATA_OFFSET_def)
qed

lemma checkmd5sum_overrun_aux:
  assumes "checkable fd k" and "8 \<le> k" and "k \<le> 15" and "length sbuf = 2048"
    and "length hbuf = 32768" and "sec = sector (io_data fd) (16 + k)"
    and "skip_spaces (pvd_mediasum sec) \<noteq> 0"
  shows "checkmd5sum sbuf hbuf ctx fd ms cs = Inl Overrun"
proof -
  let ?d = "io_data fd" and ?iso = "pvd_isosize sec"
  have c: "io_seekable fd" "io_limit fd \<le> length ?d" "pvd_at ?d k" "65536 \<le> checked_size ?iso"
    "65536 \<le> io_limit fd"
    using assms(1,6) by (simp_all add: checkable_def)
  then have size: "307200 + 65536 \<le> ?iso"
    by (simp add: checked_size_def SKIPSECTORS_def)
  have pvd: "checkiso_parsepvd fd sbuf ms 0 =
      (2048 * int (16 + k), pvd_mediasum sec, ?iso, fd\<lparr>io_pos := 2048 * (17 + k)\<rparr>)"
    using checkiso_parsepvd_found [of fd k sbuf ms 0] c assms(3,4,6,7) by (simp add: Let_def)
  have read: "sys_read (fd\<lparr>io_pos := p\<rparr>) 32768 =
      (32768, take 32768 (drop p ?d), fd\<lparr>io_pos := p + 32768\<rparr>)" if "p + 32768 \<le> 65536" for p
    using sys_read_full [of "fd\<lparr>io_pos := p\<rparr>" 32768] c that by simp
  have len: "length (poke hbuf 0 (take 32768 (drop p ?d))) = 32768"
    "length (poke (poke hbuf 0 (take 32768 ?d)) 0 (take 32768 (drop p ?d))) = 32768" for p
    using assms(5) c by (simp_all add: length_poke)
  have first: "blank_appdata (appdata_at k) 0 32768 b = Inr b" for b
    using assms by (simp add: blank_appdata_def appdata_at_def APPDATA_OFFSET_def)
  have "hash_loop tally_report ?iso (appdata_at k) (fd\<lparr>io_pos := 0\<rparr>) hbuf 0 (0, []) (MD5_Init ctx)
      = Inl Overrun"
    using size assms(2,3) len(2)
    by (subst hash_loop.simps, subst hash_loop.simps)
      (simp add: SKIPSECTORS_def read [of 0, simplified] read [of 32768, simplified] first
        blank_overrun Let_def)
  then show ?thesis
    using c(1) by (simp add: checkmd5sum_def pvd sys_lseek_def Let_def appdata_at_def)
qed

text \<open>
  An image for the examples: 32 sectors present of 182 according to the size field, the primary
  descriptor in sector \<open>16 + k\<close>, with 32 bytes \<open>c\<close> where the sum stands and \<open>rest\<close> behind it all.
\<close>

definition sample_pvd :: "byte \<Rightarrow> byte list" where
  "sample_pvd c = 1 # replicate 86 0 @ 182 # replicate 808 0 @ replicate 32 c @ replicate 1120 0"

definition sample_image :: "nat \<Rightarrow> byte \<Rightarrow> byte list \<Rightarrow> iofd" where
  "sample_image k c rest =
     \<lparr>io_data = replicate (2048 * (16 + k)) 0 @ sample_pvd c @ replicate (2048 * (15 - k)) 0 @ rest,
      io_limit = 65536, io_seekable = True, io_writable = False, io_pos = 0\<rparr>"

lemma sample_sector: "sector (io_data (sample_image k c rest)) (16 + k) = sample_pvd c"
  by (simp add: sector_def sample_image_def sample_pvd_def)

lemma sample_isosize: "pvd_isosize (sample_pvd c) = 372736"
  by (simp add: pvd_isosize_def sample_pvd_def SIZE_OFFSET_def nth_append nth_Cons' to_int32_id)

lemma sample_mediasum: "pvd_mediasum (sample_pvd c) = replicate 32 c @ [0]"
  by (simp add: pvd_mediasum_def sample_pvd_def APPDATA_OFFSET_def drop_Cons' take_Cons')

lemma sample_sum: "skip_spaces (pvd_mediasum (sample_pvd 0x61)) \<noteq> 0"
proof -
  have "replicate 32 (0x61 :: byte) = 0x61 # replicate 31 0x61"
    by (simp add: replicate_Suc [symmetric] del: replicate_Suc)
  then show ?thesis by (simp add: sample_mediasum)
qed

lemma sample_checkable: "k \<le> 15 \<Longrightarrow> checkable (sample_image k c rest) k"
  unfolding checkable_def sample_sector sample_isosize
  by (simp add: sample_image_def pvd_at_def sample_pvd_def nth_append checked_size_def SKIPSECTORS_def)

section \<open>Properties\<close>

text \<open>
  C2: The verdict of \<open>checkmd5sum\<close>. On a medium whose primary descriptor is in one of the
  sectors 16 to 23 and carries a sum, the check terminates without a fault; the computed sum is
  the MD5 of the readable part of the image in front of the last 150 sectors, with the 512
  bytes of application data replaced by blanks, and the result is 1 exactly if the sum on the
  medium is that sum.
\<close>

theorem checkmd5sum_verdict:
  assumes "checkable fd k" and "k \<le> 7" and "length sbuf = 2048" and "length hbuf = 32768"
    and "md5_wf ctx" and "sec = sector (io_data fd) (16 + k)" and "skip_spaces (pvd_mediasum sec) \<noteq> 0"
    and "M = min (checked_size (pvd_isosize sec)) (io_limit fd)"
    and "hsum = hexsum (md5_digest (take M (blanked k (io_data fd))))"
  shows "\<exists>r. checkmd5sum sbuf hbuf ctx fd ms cs = Inr r \<and>
    cr_computedsum r = hsum @ [0] \<and> cr_mediasum r = pvd_mediasum sec \<and>
    (cr_rc r = 1 \<longleftrightarrow> cstr (pvd_mediasum sec) = hsum) \<and> (cr_rc r = 0 \<longleftrightarrow> cstr (pvd_mediasum sec) \<noteq> hsum)"
  using checkmd5sum_verdict_aux [OF assms, of ms cs] by auto

theorem checkmd5sum_verdict_witness:
  "\<exists>r. checkmd5sum (replicate 2048 0) (replicate 32768 0) zero_ctx (sample_image 0 0x61 []) [] [] = Inr r \<and>
    cr_computedsum r = hexsum (md5_digest (take 65536 (blanked 0 (io_data (sample_image 0 0x61 []))))) @ [0] \<and>
    cr_mediasum r = replicate 32 0x61 @ [0] \<and>
    (cr_rc r = 1 \<longleftrightarrow> cstr (replicate 32 0x61 @ [0]) =
       hexsum (md5_digest (take 65536 (blanked 0 (io_data (sample_image 0 0x61 [])))))) \<and>
    (cr_rc r = 0 \<longleftrightarrow> cstr (replicate 32 0x61 @ [0]) \<noteq>
       hexsum (md5_digest (take 65536 (blanked 0 (io_data (sample_image 0 0x61 []))))))"
proof -
  have sec: "sample_pvd 0x61 = sector (io_data (sample_image 0 0x61 [])) (16 + 0)"
    by (simp only: sample_sector)
  have size: "65536 = min (checked_size (pvd_isosize (sample_pvd 0x61))) (io_limit (sample_image 0 0x61 []))"
    by (simp add: sample_isosize checked_size_def SKIPSECTORS_def sample_image_def)
  have wf: "md5_wf zero_ctx" by (simp add: md5_wf_def zero_ctx_def)
  show ?thesis
    using checkmd5sum_verdict [OF sample_checkable le0 length_replicate length_replicate wf sec
        sample_sum size refl] unfolding sample_mediasum by blast
qed

text \<open>
  The last 150 sectors do not matter. Two media that agree up to the skipped sectors, both
  readable that far, get the same verdict and the same two sums, whatever the rest holds and
  whether or not it can be read at all.
\<close>

theorem checkmd5sum_ignores_tail:
  assumes "checkable fd k" and "k \<le> 7" and "length sbuf = 2048" and "length hbuf = 32768"
    and "md5_wf ctx" and "skip_spaces (pvd_mediasum (sector (io_data fd) (16 + k))) \<noteq> 0"
    and "N = checked_size (pvd_isosize (sector (io_data fd) (16 + k)))"
    and "N \<le> io_limit fd" and "N \<le> io_limit fd'" and "io_limit fd' \<le> length (io_data fd')"
    and "io_seekable fd'" and "take N (io_data fd) = take N (io_data fd')"
  shows "\<exists>r r'. checkmd5sum sbuf hbuf ctx fd ms cs = Inr r \<and>
    checkmd5sum sbuf hbuf ctx fd' ms cs = Inr r' \<and>
    cr_rc r = cr_rc r' \<and> cr_mediasum r = cr_mediasum r' \<and> cr_computedsum r = cr_computedsum r'"
proof -
  let ?d = "io_data fd" and ?d' = "io_data fd'"
  have c: "pvd_at ?d k" "65536 \<le> N" "N \<le> length ?d" "N \<le> length ?d'"
    using assms(1,7-10) by (auto simp: checkable_def)
  note front = agree_front [OF c assms(2,12)]
  have c': "checkable fd' k"
    using assms front by (auto simp: checkable_def)
  have m: "N = min N (io_limit fd)" "N = min N (io_limit fd')"
    using assms(8,9) by simp_all
  show ?thesis
    using checkmd5sum_verdict_aux [OF assms(1-5) refl assms(6) m(1) [unfolded assms(7)] refl, of ms cs]
      checkmd5sum_verdict_aux [OF c' assms(2-5) refl _ m(2) [unfolded assms(7) front(2) [symmetric]] refl, of ms cs]
      assms(6,7) front by auto
qed

theorem checkmd5sum_ignores_tail_witness:
  "\<exists>r r'. checkmd5sum (replicate 2048 0) (replicate 32768 0) zero_ctx (sample_image 0 0x61 [1]) [] [] = Inr r \<and>
    checkmd5sum (replicate 2048 0) (replicate 32768 0) zero_ctx (sample_image 0 0x61 [2, 3]) [] [] = Inr r' \<and>
    cr_rc r = cr_rc r' \<and> cr_mediasum r = cr_mediasum r' \<and> cr_computedsum r = cr_computedsum r'"
proof (rule checkmd5sum_ignores_tail)
  show "checkable (sample_image 0 0x61 [1]) 0" by (rule sample_checkable) simp
  show "skip_spaces (pvd_mediasum (sector (io_data (sample_image 0 0x61 [1])) (16 + 0))) \<noteq> 0"
    unfolding sample_sector by (rule sample_sum)
  show "65536 = checked_size (pvd_isosize (sector (io_data (sample_image 0 0x61 [1])) (16 + 0)))"
    unfolding sample_sector by (simp add: sample_isosize checked_size_def SKIPSECTORS_def)
qed (simp_all add: sample_image_def sample_pvd_def md5_wf_def zero_ctx_def)

text \<open>
  C23: Beyond sector 23 the check crashes. If the primary descriptor lies in one of the sectors 24
  to 31, the end of the application data is computed before its start, and the call to \<open>memset\<close>
  gets a length that wraps around: it runs past the end of the buffer.
\<close>

theorem checkmd5sum_overrun:
  assumes "checkable fd k" and "8 \<le> k" and "k \<le> 15" and "length sbuf = 2048"
    and "length hbuf = 32768" and "skip_spaces (pvd_mediasum (sector (io_data fd) (16 + k))) \<noteq> 0"
  shows "checkmd5sum sbuf hbuf ctx fd ms cs = Inl Overrun"
  by (rule checkmd5sum_overrun_aux [OF assms(1-5) refl assms(6)])

theorem checkmd5sum_overrun_witness:
  "checkmd5sum (replicate 2048 0) (replicate 32768 0) zero_ctx (sample_image 8 0x61 []) [] [] = Inl Overrun"
proof (rule checkmd5sum_overrun)
  show "checkable (sample_image 8 0x61 []) 8" by (rule sample_checkable) simp
  show "skip_spaces (pvd_mediasum (sector (io_data (sample_image 8 0x61 [])) (16 + 8))) \<noteq> 0"
    unfolding sample_sector by (rule sample_sum)
qed simp_all

end
