(* ===== verification/Iso_Implant.thy ===== *)
theory Iso_Implant
  imports Iso_Check
begin

text \<open>
  \<open>main\<close> of \<open>mediacheck/implantisomd5.c\<close>: find the primary volume descriptor, refuse an image
  whose application data are in use, hash the image in front of the skipped sectors and write the
  sum into the application data. The theorems: what is written and where, what is refused, and
  that \<open>checkmd5sum\<close> accepts the image afterwards, also from a burned medium whose last sectors
  cannot be read.
\<close>

section \<open>Definitions\<close>

text \<open>What the program prints, in order.\<close>

datatype implant_event =
    Implant_Usage
  | Implant_Unable_To_Open
  | No_Primary_Volume
  | Appdata_Used
  | Read_MB int
  | Md5_Line "byte list"
  | Seek_Failed
  | Write_Failed
  | Implant_Done

text \<open>The progress line, as in \<open>checkisomd5.c\<close> but on the unsigned total.\<close>

definition implant_tally :: "int \<times> implant_event list \<Rightarrow> u32 \<Rightarrow> int \<times> implant_event list" where
  "implant_tally = (\<lambda>(tally, out) total'.
     if uint total' \<ge> tally then (tally + 50 * 1000 * 1000, out @ [Read_MB (tally div 1000 div 1000)])
     else (tally, out))"

function implant_loop ::
  "int \<Rightarrow> iofd \<Rightarrow> byte list \<Rightarrow> u32 \<Rightarrow> int \<times> implant_event list \<Rightarrow> MD5_CTX \<Rightarrow>
    MD5_CTX \<times> (int \<times> implant_event list) \<times> iofd" where
  "implant_loop isosize fd buf total' st ctx =
     (if uint total' < isosize - SKIPSECTORS * 2048 then
        case sys_read fd 2048 of (nread, bs, fd') \<Rightarrow>
          if nread \<le> 0 then (ctx, st, fd')
          else
            let buf = poke buf 0 bs;
                ctx = MD5_Update ctx (take (nat nread) buf);
                total' = total' + word_of_int nread
            in implant_loop isosize fd' buf total' (implant_tally st total') ctx
      else (ctx, st, fd))"
  by pat_completeness auto
termination
  by (relation "measure (\<lambda>(isosize, fd, buf, total', st, ctx). length (io_data fd) - io_pos fd)")
    (auto simp: sys_read_def Let_def split: if_splits)

declare implant_loop.simps [simp del]

text \<open>\<open>new_appdata\<close>: 512 blanks, the label, 33 bytes of \<open>md5str\<close> and 51 of the 52 characters of the remark.\<close>

definition new_appdata :: "byte list \<Rightarrow> byte list" where
  "new_appdata md5str =
     (let a = replicate 512 0x20;
          a = poke a 0 (bytes_of ''ISO MD5SUM = '');
          a = poke a 13 (take 33 md5str)
      in poke a 47 (take 51 (bytes_of ''THIS IS NOT THE SAME AS RUNNING MD5SUM ON THIS ISO!!'')))"

text \<open>
  The body of \<open>main\<close> after the image has been opened: the exit status (\<open>None\<close> where \<open>main\<close> ends
  without returning a value), the output and the file. \<open>sbuf\<close>, \<open>buf\<close>, \<open>orig\<close>, \<open>ctx\<close> and
  \<open>isosize\<close> are the uninitialised locals.
\<close>

definition implant_file ::
  "byte list \<Rightarrow> byte list \<Rightarrow> byte list \<Rightarrow> MD5_CTX \<Rightarrow> int \<Rightarrow> bool \<Rightarrow> iofd \<Rightarrow>
    int option \<times> implant_event list \<times> iofd" where
  "implant_file sbuf buf orig ctx isosize forceit isofd =
     (case implant_parsepvd isofd sbuf [] isosize of (pvd_offset, mediasum, isosize, isofd) \<Rightarrow>
        if pvd_offset < 0 then (Some 1, [No_Primary_Volume], isofd)
        else
          let isofd = snd (sys_lseek isofd (nat pvd_offset + APPDATA_OFFSET))
          in case sys_read isofd 512 of (nread, bs, isofd) \<Rightarrow>
            let orig_appdata = poke orig 0 bs
            in if \<not> forceit \<and> (\<exists>i < 512. orig_appdata ! i \<noteq> 0x20) then (Some 1, [Appdata_Used], isofd)
               else
                 let isofd = snd (sys_lseek isofd 0)
                 in case implant_loop isosize isofd buf 0 (0, []) (MD5_Init ctx) of
                   (ctx, (tally, out), isofd) \<Rightarrow>
                     let md5str = hexsum (fst (MD5_Final ctx)) @ [0];
                         (i, isofd) = sys_lseek isofd (nat pvd_offset + APPDATA_OFFSET);
                         out = out @ [Md5_Line (cstr md5str)] @ (if i < 0 then [Seek_Failed] else []);
                         (i, isofd) = sys_write isofd (new_appdata md5str)
                     in (None, out @ (if i < 0 then [Write_Failed] else []) @ [Implant_Done], isofd))"

text \<open>
  \<open>main\<close>. \<open>opn\<close> is \<open>open (name, O_RDWR)\<close>; after \<open>-f\<close> without a name, \<open>argv[2]\<close> is the null pointer.
\<close>

definition implantisomd5_main ::
  "(string option \<Rightarrow> iofd option) \<Rightarrow> byte list \<Rightarrow> byte list \<Rightarrow> byte list \<Rightarrow> MD5_CTX \<Rightarrow> int \<Rightarrow>
    string list \<Rightarrow> int option \<times> implant_event list \<times> iofd option" where
  "implantisomd5_main opn sbuf buf orig ctx isosize argv =
     (if length argv < 2 then (Some 1, [Implant_Usage], None)
      else
        let (forceit, fname) =
              (if argv ! 1 = ''-f'' then (True, if 2 < length argv then Some (argv ! 2) else None)
               else (False, Some (argv ! 1)))
        in case opn fname of
             None \<Rightarrow> (Some 1, [Implant_Unable_To_Open], None)
           | Some isofd \<Rightarrow>
               (case implant_file sbuf buf orig ctx isosize forceit isofd of
                  (rc, out, isofd) \<Rightarrow> (rc, out, Some isofd)))"

text \<open>The images the theorems speak about: a complete, writable image file with one descriptor at sector \<open>16 + k\<close>.\<close>

definition image_file :: "iofd \<Rightarrow> nat \<Rightarrow> bool" where
  "image_file fd k \<longleftrightarrow>
     io_seekable fd \<and> io_writable fd \<and> io_limit fd = length (io_data fd) \<and> pvd_at (io_data fd) k"

definition image_size :: "byte list \<Rightarrow> nat \<Rightarrow> nat" where
  "image_size d k = checked_size (pvd_isosize (sector d (16 + k)))"

definition appdata_pos :: "nat \<Rightarrow> nat" where
  "appdata_pos k = 2048 * (16 + k) + APPDATA_OFFSET"

definition implanted :: "nat \<Rightarrow> byte list \<Rightarrow> byte list \<Rightarrow> byte list" where
  "implanted k md5str d = poke d (appdata_pos k) (new_appdata md5str)"

section \<open>The loop hashes the image as it is\<close>

lemma checked_size_dvd: "2048 dvd checked_size (pvd_isosize sec)"
proof -
  have "(2048 :: int) dvd pvd_isosize sec - SKIPSECTORS * 2048"
    by (simp add: pvd_isosize_def)
  then show ?thesis
    using nat_dvd_iff [of "pvd_isosize sec - SKIPSECTORS * 2048" 2048] dvd_nat_abs_iff
    unfolding checked_size_def by (metis dvd_0_right int_dvd_int_iff int_nat_eq of_nat_numeral)
qed

lemma u32_add_nat: "(of_nat a :: u32) + word_of_int (int b) = of_nat (a + b)"
  by simp

text \<open>
  One round of the loop. The running total is the position modulo \<open>2 ^ 32\<close>; \<open>goes_on\<close> is the
  test of the loop.
\<close>

lemma implant_loop_step:
  assumes "io_limit fd \<le> length (io_data fd)" and "length buf = 2048" and "io_pos fd = p"
    and "p < io_limit fd" and "uint (of_nat p :: u32) < isosize - SKIPSECTORS * 2048"
    and "m = min 2048 (io_limit fd - p)" and "md5_repr ctx (take p (io_data fd))"
  shows "\<exists>buf' st' ctx'. length buf' = 2048 \<and> md5_repr ctx' (take (p + m) (io_data fd)) \<and>
    implant_loop isosize fd buf (of_nat p) st ctx =
      implant_loop isosize (fd\<lparr>io_pos := p + m\<rparr>) buf' (of_nat (p + m)) st' ctx'"
proof -
  let ?bs = "take m (drop p (io_data fd))"
  have m: "0 < m" "m \<le> 2048" "p + m \<le> length (io_data fd)"
    using assms by auto
  have len: "length ?bs = m" using m by simp
  have read: "sys_read fd 2048 = (int m, ?bs, fd\<lparr>io_pos := p + m\<rparr>)"
    using assms by (subst sys_read_upto [of fd _ m]) auto
  have "take m (poke buf 0 ?bs) = ?bs"
    using take_poke [of 0 buf ?bs] len by simp
  moreover have "md5_repr (MD5_Update ctx ?bs) (take (p + m) (io_data fd))"
    using md5_repr_Update [OF assms(7), of ?bs] m by (simp add: fits32_def take_add)
  moreover have "length (poke buf 0 ?bs) = 2048"
    using assms(2) len m by (simp add: length_poke)
  moreover from calculation(1) have "implant_loop isosize fd buf (of_nat p) st ctx =
      implant_loop isosize (fd\<lparr>io_pos := p + m\<rparr>) (poke buf 0 ?bs) (of_nat (p + m))
        (implant_tally st (of_nat (p + m))) (MD5_Update ctx ?bs)"
    using assms(5) m by (subst implant_loop.simps) (simp add: read Let_def)
  ultimately show ?thesis by blast
qed

text \<open>
  From position \<open>p\<close> the loop runs to \<open>M\<close>, where either the checked size or the readable part
  ends, if the test stays true on the way.
\<close>

lemma implant_loop_run:
  assumes "io_limit fd \<le> length (io_data fd)" and "length buf = 2048" and "io_pos fd = p"
    and "M \<le> io_limit fd" and "p \<le> M" and "2048 dvd p \<or> p = M" and "2048 dvd M \<or> M = io_limit fd"
    and "\<forall>q < M. uint (of_nat q :: u32) < isosize - SKIPSECTORS * 2048"
    and "M = io_limit fd \<or> \<not> uint (of_nat M :: u32) < isosize - SKIPSECTORS * 2048"
    and "md5_repr ctx (take p (io_data fd))"
  shows "\<exists>ctx' st'. md5_repr ctx' (take M (io_data fd)) \<and>
    implant_loop isosize fd buf (of_nat p) st ctx = (ctx', st', fd\<lparr>io_pos := M\<rparr>)"
  using assms
proof (induction "M - p" arbitrary: p fd buf st ctx rule: less_induct)
  case less
  show ?case
  proof (cases "p = M")
    case True
    then have "implant_loop isosize fd buf (of_nat p) st ctx = (ctx, st, fd)"
      using less.prems(1,3,9) by (subst implant_loop.simps) (auto simp: sys_read_def Let_def)
    then show ?thesis
      using True less.prems(3,10) by force
  next
    case False
    define m where "m = min 2048 (io_limit fd - p)"
    have lt: "p < M" and dvd: "2048 dvd p" using False less.prems(5,6) by auto
    obtain buf' st' ctx' where step: "length buf' = 2048" "md5_repr ctx' (take (p + m) (io_data fd))"
      "implant_loop isosize fd buf (of_nat p) st ctx =
        implant_loop isosize (fd\<lparr>io_pos := p + m\<rparr>) buf' (of_nat (p + m)) st' ctx'"
      using implant_loop_step [OF less.prems(1-3) _ _ m_def less.prems(10), of isosize st]
        less.prems(4,8) lt by auto
    have pm: "p + m \<le> M" "M - (p + m) < M - p" "2048 dvd p + m \<or> p + m = M"
    proof -
      have "p + 2048 \<le> M" if "2048 dvd M"
        using that dvd lt by (auto elim!: dvdE)
      then show "p + m \<le> M" "2048 dvd p + m \<or> p + m = M"
        using less.prems(4,7) dvd lt by (auto simp: m_def min_def)
      show "M - (p + m) < M - p"
        using less.prems(4) lt by (simp add: m_def)
    qed
    let ?fd = "fd\<lparr>io_pos := p + m\<rparr>"
    have "\<exists>ctx'' st''. md5_repr ctx'' (take M (io_data ?fd)) \<and>
        implant_loop isosize ?fd buf' (of_nat (p + m)) st' ctx' = (ctx'', st'', ?fd\<lparr>io_pos := M\<rparr>)"
      by (rule less.hyps [OF pm(2) _ step(1) _ _ pm(1,3)]) (use less.prems step(2) in simp_all)
    then show ?thesis
      unfolding step(3) by simp
  qed
qed

text \<open>Where the loop ends: at the checked size if it fits the 32-bit total, else at the end of the file.\<close>

definition implant_end :: "byte list \<Rightarrow> nat \<Rightarrow> nat \<Rightarrow> nat" where
  "implant_end d k limit = (if image_size d k < 2 ^ 32 then min (image_size d k) limit else limit)"

lemma implant_loop_result:
  assumes "io_limit fd \<le> length (io_data fd)" and "length buf = 2048" and "md5_wf ctx"
    and "M = implant_end (io_data fd) k (io_limit fd)"
  shows "\<exists>ctx' st'. fst (MD5_Final ctx') = md5_digest (take M (io_data fd)) \<and>
    implant_loop (pvd_isosize (sector (io_data fd) (16 + k))) (fd\<lparr>io_pos := 0\<rparr>) buf 0 st (MD5_Init ctx)
      = (ctx', st', fd\<lparr>io_pos := M\<rparr>)"
proof -
  let ?N = "image_size (io_data fd) k" and ?iso = "pvd_isosize (sector (io_data fd) (16 + k))"
  have u: "uint (of_nat q :: u32) = int (q mod 2 ^ 32)" for q
    by (simp add: uint_nat unat_u32_of_nat)
  have less: "uint (of_nat q :: u32) < ?iso - SKIPSECTORS * 2048 \<longleftrightarrow> q mod 2 ^ 32 < ?N" for q
    unfolding u image_size_def checked_size_def by linarith
  have dvd: "2048 dvd ?N" by (simp add: image_size_def checked_size_dvd)
  have on: "q mod 2 ^ 32 < ?N" if "q < M" for q
  proof (cases "?N < 2 ^ 32")
    case True
    then have "q < ?N" using that assms(4) by (simp add: implant_end_def)
    then show ?thesis by (rule le_less_trans [OF mod_less_eq_dividend])
  next
    case False
    moreover have "q mod 2 ^ 32 < 2 ^ 32" by simp
    ultimately show ?thesis by linarith
  qed
  have off: "M = io_limit fd \<or> \<not> M mod 2 ^ 32 < ?N"
    using assms(4) by (auto simp: implant_end_def min_def)
  have M: "M \<le> io_limit fd" "2048 dvd M \<or> M = io_limit fd"
    using assms(4) dvd by (auto simp: implant_end_def min_def)
  have "\<exists>ctx' st'. md5_repr ctx' (take M (io_data (fd\<lparr>io_pos := 0\<rparr>))) \<and>
    implant_loop ?iso (fd\<lparr>io_pos := 0\<rparr>) buf (of_nat 0) st (MD5_Init ctx)
      = (ctx', st', fd\<lparr>io_pos := 0\<rparr>\<lparr>io_pos := M\<rparr>)"
    by (rule implant_loop_run) (use assms(1-3) M on off in \<open>simp_all add: less md5_repr_Init\<close>)
  then show ?thesis
    using md5_Final_digest by auto
qed

section \<open>What main does\<close>

lemma length_new_appdata: "length md5str = 33 \<Longrightarrow> length (new_appdata md5str) = 512"
  by (simp add: new_appdata_def Let_def bytes_of_def length_poke)

lemma blank_iff:
  assumes "length xs = 512"
  shows "(\<exists>i < 512. xs ! i \<noteq> 0x20) \<longleftrightarrow> xs \<noteq> replicate 512 (0x20 :: byte)"
  using assms by (auto simp: list_eq_iff_nth_eq)

definition used_appdata :: "byte list \<Rightarrow> nat \<Rightarrow> bool" where
  "used_appdata d k \<longleftrightarrow> take 512 (drop (appdata_pos k) d) \<noteq> replicate 512 0x20"

text \<open>The file as it is after the look at the application data.\<close>

lemma implant_file_start:
  assumes "image_file fd k" and "k < 2 ^ 19" and "length sbuf = 2048" and "length orig = 512"
  shows "implant_file sbuf buf orig ctx isz forceit fd =
    (if \<not> forceit \<and> used_appdata (io_data fd) k
     then (Some 1, [Appdata_Used], fd\<lparr>io_pos := appdata_pos k + 512\<rparr>)
     else case implant_loop (pvd_isosize (sector (io_data fd) (16 + k))) (fd\<lparr>io_pos := 0\<rparr>) buf 0 (0, [])
         (MD5_Init ctx) of (ctx, (tally, out), fd) \<Rightarrow>
       let md5str = hexsum (fst (MD5_Final ctx)) @ [0];
           (i, fd) = sys_lseek fd (appdata_pos k);
           out = out @ [Md5_Line (cstr md5str)] @ (if i < 0 then [Seek_Failed] else []);
           (i, fd) = sys_write fd (new_appdata md5str)
       in (None, out @ (if i < 0 then [Write_Failed] else []) @ [Implant_Done], fd))"
proof -
  let ?app = "take 512 (drop (appdata_pos k) (io_data fd))"
  have c: "io_seekable fd" "io_limit fd = length (io_data fd)" "pvd_at (io_data fd) k"
    "appdata_pos k + 512 \<le> length (io_data fd)"
    using assms(1) by (auto simp: image_file_def pvd_at_def appdata_pos_def APPDATA_OFFSET_def)
  have pvd: "implant_parsepvd fd sbuf [] isz =
      (2048 * int (16 + k), [], pvd_isosize (sector (io_data fd) (16 + k)), fd\<lparr>io_pos := 2048 * (17 + k)\<rparr>)"
    using c assms(2,3) by (intro implant_parsepvd_found) (auto simp: pvd_at_def)
  have pos: "nat (2048 * int (16 + k)) + APPDATA_OFFSET = appdata_pos k"
    unfolding appdata_pos_def by (simp add: nat_mult_distrib nat_add_distrib)
  have read: "sys_read (fd\<lparr>io_pos := appdata_pos k\<rparr>) 512 = (512, ?app, fd\<lparr>io_pos := appdata_pos k + 512\<rparr>)"
    using c by (subst sys_read_full) simp_all
  have "length ?app = 512" using c(4) by simp
  then have app: "poke orig 0 ?app = ?app" "(\<exists>i < 512. ?app ! i \<noteq> 0x20) = used_appdata (io_data fd) k"
    using assms(4) by (simp_all only: poke_whole blank_iff used_appdata_def)
  have seek: "snd (sys_lseek (fd\<lparr>io_pos := p\<rparr>) q) = fd\<lparr>io_pos := q\<rparr>" for p q
    using c(1) by (simp add: sys_lseek_def)
  have pos': "(2048 * int (16 + k) < 0) = False" by simp
  show ?thesis
    unfolding implant_file_def pvd
    by (simp only: prod.case if_False pos pos' seek read app Let_def)
qed

lemma implant_file_result:
  assumes "image_file fd k" and "k < 2 ^ 19" and "length sbuf = 2048" and "length buf = 2048"
    and "length orig = 512" and "md5_wf ctx" and "forceit \<or> \<not> used_appdata (io_data fd) k"
    and "M = implant_end (io_data fd) k (length (io_data fd))"
    and "hsum = hexsum (md5_digest (take M (io_data fd)))"
  shows "\<exists>out. implant_file sbuf buf orig ctx isz forceit fd =
    (None, out @ [Md5_Line hsum, Implant_Done],
     fd\<lparr>io_data := implanted k (hsum @ [0]) (io_data fd), io_pos := appdata_pos k + 512\<rparr>)"
proof -
  have c: "io_seekable fd" "io_writable fd" "io_limit fd = length (io_data fd)"
    "appdata_pos k + 512 \<le> length (io_data fd)"
    using assms(1) by (auto simp: image_file_def pvd_at_def appdata_pos_def APPDATA_OFFSET_def)
  obtain ctx' st' where loop: "fst (MD5_Final ctx') = md5_digest (take M (io_data fd))"
    "implant_loop (pvd_isosize (sector (io_data fd) (16 + k))) (fd\<lparr>io_pos := 0\<rparr>) buf 0 (0, []) (MD5_Init ctx)
      = (ctx', st', fd\<lparr>io_pos := M\<rparr>)"
    using implant_loop_result [of fd buf ctx M k "(0, [])"] assms(4,6,8) c(3) by auto
  have "length (new_appdata (hsum @ [0])) = 512"
    using assms(9) by (intro length_new_appdata) simp
  then show ?thesis
    using c assms(7,9)
    by (cases st') (auto simp: implant_file_start [OF assms(1-3,5)] loop sys_lseek_def sys_write_def
        Let_def implanted_def)
qed

section \<open>The image afterwards\<close>

lemma nth_new_appdata:
  assumes "length md5str = 33" and "j < 33"
  shows "new_appdata md5str ! (13 + j) = md5str ! j"
  using assms by (simp add: new_appdata_def Let_def bytes_of_def nth_poke length_poke)

lemma implanted_image:
  assumes "pvd_at d k" and "length hsum = 32"
  shows "length (implanted k (hsum @ [0]) d) = length d"
    and "pvd_at (implanted k (hsum @ [0]) d) k"
    and "pvd_isosize (sector (implanted k (hsum @ [0]) d) (16 + k)) = pvd_isosize (sector d (16 + k))"
    and "pvd_mediasum (sector (implanted k (hsum @ [0]) d) (16 + k)) = hsum @ [0]"
    and "blanked k (implanted k (hsum @ [0]) d) = blanked k d"
proof -
  let ?d = "implanted k (hsum @ [0]) d" and ?a = "new_appdata (hsum @ [0])"
  have la: "length ?a = 512" using assms(2) by (intro length_new_appdata) simp
  have room: "2048 * (17 + k) \<le> length d" using assms(1) by (simp add: pvd_at_def)
  have nth: "?d ! i = (if appdata_pos k \<le> i \<and> i < appdata_pos k + 512 then ?a ! (i - appdata_pos k) else d ! i)" for i
    unfolding implanted_def using room la
    by (subst nth_poke) (simp_all add: appdata_pos_def APPDATA_OFFSET_def)
  show len: "length ?d = length d"
    unfolding implanted_def using room la
    by (subst length_poke) (simp_all add: appdata_pos_def APPDATA_OFFSET_def)
  show "pvd_at ?d k"
    using assms(1) by (auto simp: pvd_at_def len nth appdata_pos_def APPDATA_OFFSET_def)
  have sec: "sector ?d (16 + k) ! j = ?d ! (2048 * (16 + k) + j)"
    "sector d (16 + k) ! j = d ! (2048 * (16 + k) + j)" if "j < 2048" for j
    using that room len by (subst sector_nth; simp)+
  show "pvd_isosize (sector ?d (16 + k)) = pvd_isosize (sector d (16 + k))"
    by (simp add: pvd_isosize_def SIZE_OFFSET_def sec nth appdata_pos_def APPDATA_OFFSET_def)
  have "take 32 (drop (APPDATA_OFFSET + 13) (sector ?d (16 + k))) = hsum"
  proof (rule nth_equalityI)
    show l: "length (take 32 (drop (APPDATA_OFFSET + 13) (sector ?d (16 + k)))) = length hsum"
      using assms(2) room len length_sector [of "16 + k" ?d] by (simp add: APPDATA_OFFSET_def)
    fix j
    assume "j < length (take 32 (drop (APPDATA_OFFSET + 13) (sector ?d (16 + k))))"
    then have j: "j < 32" "j < length hsum"
      using l assms(2) by simp_all
    have "take 32 (drop (APPDATA_OFFSET + 13) (sector ?d (16 + k))) ! j = ?d ! (appdata_pos k + (13 + j))"
      using j assms(2) room len length_sector [of "16 + k" ?d]
      by (simp add: sec appdata_pos_def APPDATA_OFFSET_def)
    also have "\<dots> = ?a ! (13 + j)"
      using j by (simp add: nth)
    also have "\<dots> = hsum ! j"
      using j assms(2) by (subst nth_new_appdata) (simp_all add: nth_append)
    finally show "take 32 (drop (APPDATA_OFFSET + 13) (sector ?d (16 + k))) ! j = hsum ! j" .
  qed
  then show "pvd_mediasum (sector ?d (16 + k)) = hsum @ [0]"
    by (simp add: pvd_mediasum_def)
  show "blanked k ?d = blanked k d"
    using room la
    by (simp add: implanted_def blanked_def poke_def appdata_pos_def APPDATA_OFFSET_def min_def)
qed

lemma blanked_unused:
  assumes "pvd_at d k" and "\<not> used_appdata d k"
  shows "blanked k d = d"
proof -
  have "d = take (appdata_pos k) d @ take 512 (drop (appdata_pos k) d) @ drop 512 (drop (appdata_pos k) d)"
    by (simp only: append_take_drop_id)
  then show ?thesis
    using assms(2) unfolding blanked_def appdata_pos_def [symmetric] used_appdata_def poke_def
    by (simp add: add.commute)
qed

lemma hexsum_not_blank: "ds \<noteq> [] \<Longrightarrow> skip_spaces (hexsum ds @ [0]) \<noteq> 0"
proof -
  have "\<forall>n \<in> set [0..<16]. hexdigit n \<noteq> 0 \<and> hexdigit n \<noteq> 0x20"
    by (simp add: hexdigit_def upt_rec)
  moreover have "unat b div 16 < 16" for b :: byte
    using unsigned_less [of b, where ?'a = nat] by simp
  ultimately show "ds \<noteq> [] \<Longrightarrow> skip_spaces (hexsum ds @ [0]) \<noteq> 0"
    by (cases ds) (auto simp: hexsum_def hex_byte_def)
qed

text \<open>The check of a medium that holds the first \<open>N\<close> bytes of an implanted image.\<close>

lemma check_implanted:
  assumes "pvd_at d k" and "k \<le> 7" and "N = image_size d k" and "65536 \<le> N" and "N \<le> length d"
    and "hsum = hexsum ds" and "length ds = 16" and "d' = implanted k (hsum @ [0]) d"
    and "io_seekable md" and "N \<le> io_limit md" and "io_limit md \<le> length (io_data md)"
    and "take N (io_data md) = take N d'"
    and "length sbuf = 2048" and "length hbuf = 32768" and "md5_wf ctx"
    and "csum = hexsum (md5_digest (take N (blanked k d)))"
  shows "\<exists>r. checkmd5sum sbuf hbuf ctx md ms cs = Inr r \<and> cr_rc r = (if hsum = csum then 1 else 0) \<and>
    cr_mediasum r = hsum @ [0] \<and> cr_computedsum r = csum @ [0]"
proof -
  have l: "length hsum = 32" using assms(6,7) by simp
  note im = implanted_image [OF assms(1) l, folded assms(8)]
  note front = agree_front [OF im(2) assms(4) _ _ assms(2) assms(12) [symmetric]]
  have N: "N \<le> length d'" "N \<le> length (io_data md)"
    using assms(5,10,11) im(1) by simp_all
  have sec: "sector (io_data md) (16 + k) = sector d' (16 + k)"
    by (rule front(2) [OF N])
  have size: "N = min (checked_size (pvd_isosize (sector d' (16 + k)))) (io_limit md)"
    using assms(3,10) im(3) by (simp add: image_size_def)
  have ck: "checkable md k"
    using front(1) [OF N] assms(4,9,11) size by (simp add: checkable_def sec)
  have ns: "skip_spaces (pvd_mediasum (sector d' (16 + k))) \<noteq> 0"
    unfolding im(4) assms(6) using assms(7) by (intro hexsum_not_blank) auto
  have "csum = hexsum (md5_digest (take N (blanked k (io_data md))))"
    using front(3) [OF N] assms(16) im(5) by simp
  then show ?thesis
    using checkmd5sum_verdict_aux [OF ck assms(2,13-15) sec [symmetric] ns size, of _ ms cs]
    by (auto simp: im(4) assms(6))
qed

text \<open>The layout of the application data that are written.\<close>

lemma new_appdata_layout:
  assumes "length hsum = 32"
  shows "new_appdata (hsum @ [0]) = bytes_of ''ISO MD5SUM = '' @ hsum @ [0, 0x20] @
    bytes_of ''THIS IS NOT THE SAME AS RUNNING MD5SUM ON THIS ISO!'' @ replicate 414 0x20"
proof -
  let ?l = "bytes_of ''ISO MD5SUM = ''"
  let ?r = "take 51 (bytes_of ''THIS IS NOT THE SAME AS RUNNING MD5SUM ON THIS ISO!!'')"
  have l: "length ?l = 13" "length ?r = 51" by (simp_all add: bytes_of_def)
  have r: "?r = bytes_of ''THIS IS NOT THE SAME AS RUNNING MD5SUM ON THIS ISO!''"
    by (simp add: bytes_of_def)
  have rep: "replicate 466 (0x20 :: byte) = 0x20 # replicate 465 0x20"
    by (simp add: replicate_Suc [symmetric] del: replicate_Suc)
  have "poke (replicate 512 0x20) 0 ?l = ?l @ replicate 499 0x20"
    using l by (simp add: poke_def)
  moreover have "poke (?l @ replicate 499 0x20) 13 (hsum @ [0]) = (?l @ hsum @ [0, 0x20]) @ replicate 465 0x20"
    using l assms by (subst poke_append) (simp_all add: rep)
  moreover have "poke ((?l @ hsum @ [0, 0x20]) @ replicate 465 0x20) 47 ?r
      = (?l @ hsum @ [0, 0x20]) @ ?r @ replicate 414 0x20"
    using l assms by (subst poke_append) simp_all
  ultimately show ?thesis
    using assms by (simp add: new_appdata_def Let_def r)
qed

definition implant_bufs :: "byte list \<Rightarrow> byte list \<Rightarrow> byte list \<Rightarrow> MD5_CTX \<Rightarrow> bool" where
  "implant_bufs sbuf buf orig ctx \<longleftrightarrow>
     length sbuf = 2048 \<and> length buf = 2048 \<and> length orig = 512 \<and> length (md_in ctx) = 64"

definition check_bufs :: "byte list \<Rightarrow> byte list \<Rightarrow> MD5_CTX \<Rightarrow> bool" where
  "check_bufs sbuf hbuf ctx \<longleftrightarrow>
     length sbuf = 2048 \<and> length hbuf = 32768 \<and> length (md_in ctx) = 64"

text \<open>A medium that holds at least the first \<open>N\<close> bytes of the image \<open>d\<close> in readable sectors.\<close>

definition burned :: "nat \<Rightarrow> byte list \<Rightarrow> iofd \<Rightarrow> bool" where
  "burned N d md \<longleftrightarrow>
     io_seekable md \<and> N \<le> io_limit md \<and> io_limit md \<le> length (io_data md) \<and>
     take N (io_data md) = take N d"

text \<open>
  Image files for the examples: one descriptor in sector 16 with the size field \<open>sz\<close> and the
  application data \<open>app\<close>, and \<open>n\<close> bytes behind it.
\<close>

definition iso_pvd :: "byte list \<Rightarrow> byte list \<Rightarrow> byte list" where
  "iso_pvd sz app = 1 # replicate 83 0 @ sz @ replicate 795 0 @ app @ replicate 653 0"

definition iso_file :: "byte list \<Rightarrow> byte list \<Rightarrow> nat \<Rightarrow> iofd" where
  "iso_file sz app n =
     \<lparr>io_data = replicate 32768 0 @ iso_pvd sz app @ replicate n 0,
      io_limit = 34816 + n, io_seekable = True, io_writable = True, io_pos = 0\<rparr>"

lemma iso_file_facts:
  assumes "length sz = 4" and "length app = 512"
  shows "image_file (iso_file sz app n) 0" and "length (io_data (iso_file sz app n)) = 34816 + n"
    and "used_appdata (io_data (iso_file sz app n)) 0 \<longleftrightarrow> app \<noteq> replicate 512 0x20"
    and "sector (io_data (iso_file sz app n)) 16 = iso_pvd sz app"
  using assms
  by (simp_all add: image_file_def pvd_at_def used_appdata_def appdata_pos_def APPDATA_OFFSET_def
      sector_def iso_file_def iso_pvd_def nth_append drop_Cons')

lemma iso_file_size:
  assumes "length app = 512"
  shows "image_size (io_data (iso_file [a, b, c, d] app n)) 0 =
    checked_size (to_int32 (uint a * 0x1000000 + uint b * 0x10000 + uint c * 0x100 + uint d) * 2048)"
  using iso_file_facts(4) [of "[a, b, c, d]" app n] assms
  by (simp add: image_size_def pvd_isosize_def iso_pvd_def SIZE_OFFSET_def nth_append)

lemma iso_sizes:
  "image_size (io_data (iso_file [0, 0, 0, 182] (replicate 512 c) n)) 0 = 65536"
  "image_size (io_data (iso_file [0, 0x20, 0, 0x96] (replicate 512 c) n)) 0 = 2 ^ 32"
  by (simp_all add: iso_file_size checked_size_def SKIPSECTORS_def to_int32_id)

lemma blank_differs: "replicate 512 (0 :: byte) \<noteq> replicate 512 0x20"
  by (simp add: replicate_eq_replicate)

lemma zero_bufs:
  "implant_bufs (replicate 2048 0) (replicate 2048 0) (replicate 512 0) zero_ctx"
  "check_bufs (replicate 2048 0) (replicate 32768 0) zero_ctx"
  by (simp_all add: implant_bufs_def check_bufs_def zero_ctx_def)

section \<open>Properties\<close>

text \<open>
  C1: The round trip. Implanting the sum into an image file of any size up to 4 GB whose
  application data are blank succeeds, and from then on \<open>checkisomd5\<close> answers ``Md5sums match''
  with exit status 1 on every medium that holds the image in front of the last 150 sectors,
  whatever those sectors hold and whether or not they can be read. (The descriptor has to be in one
  of the sectors 16 to 23, and the checked part has to be at least 64 KB long.)
\<close>

theorem implant_burn_check:
  assumes "image_file fd k" and "k \<le> 7" and "\<not> used_appdata (io_data fd) k"
    and "N = image_size (io_data fd) k" and "65536 \<le> N" and "N < 2 ^ 32" and "N \<le> length (io_data fd)"
    and "implant_bufs sbuf buf orig ctx" and "check_bufs sbuf' hbuf ctx'"
    and "opn (Some f) = Some fd" and "f \<noteq> ''-f''"
  shows "\<exists>hsum out fd'. implantisomd5_main opn sbuf buf orig ctx isz [pr, f] = (None, out, Some fd') \<and>
    (\<forall>opn' md. opn' f' = Some md \<and> burned N (io_data fd') md \<longrightarrow>
       checkisomd5_main opn' sbuf' hbuf ctx' ms cs [pr', f'] = Inr (1, Sums_Match, [hsum, hsum]))"
proof -
  let ?d = "io_data fd" and ?ds = "md5_digest (take N (io_data fd))"
  have pvd: "pvd_at ?d k" using assms(1) by (simp add: image_file_def)
  have M: "N = implant_end ?d k (length ?d)"
    using assms(4,6,7) by (simp add: implant_end_def)
  obtain out where run: "implant_file sbuf buf orig ctx isz False fd =
    (None, out @ [Md5_Line (hexsum ?ds), Implant_Done],
     fd\<lparr>io_data := implanted k (hexsum ?ds @ [0]) ?d, io_pos := appdata_pos k + 512\<rparr>)"
    using implant_file_result [OF assms(1) _ _ _ _ _ _ M refl, of sbuf buf orig ctx False isz] assms(2,3,8)
    by (auto simp: implant_bufs_def md5_wf_def)
  have check: "checkisomd5_main opn' sbuf' hbuf ctx' ms cs [pr', f'] = Inr (1, Sums_Match, [hexsum ?ds, hexsum ?ds])"
    if "opn' f' = Some md" and "burned N (implanted k (hexsum ?ds @ [0]) ?d) md" for opn' md
    using check_implanted [OF pvd assms(2,4,5,7) refl _ refl, of ?ds md sbuf' hbuf ctx' _ ms cs]
      that assms(3,9) pvd
    by (auto simp: burned_def check_bufs_def md5_wf_def checkisomd5_main_def blanked_unused)
  show ?thesis
    using run assms(10,11) check by (auto simp: implantisomd5_main_def)
qed

theorem implant_burn_check_witness:
  "\<exists>hsum out fd'. implantisomd5_main (\<lambda>_. Some (iso_file [0, 0, 0, 182] (replicate 512 0x20) 337920))
      (replicate 2048 0) (replicate 2048 0) (replicate 512 0) zero_ctx 0 [''implantisomd5'', ''a.iso'']
        = (None, out, Some fd') \<and>
    (\<forall>opn' md. opn' ''cdrom'' = Some md \<and> burned 65536 (io_data fd') md \<longrightarrow>
       checkisomd5_main opn' (replicate 2048 0) (replicate 32768 0) zero_ctx [] [] [''checkisomd5'', ''cdrom'']
         = Inr (1, Sums_Match, [hsum, hsum]))"
  by (rule implant_burn_check [where k = 0])
    (simp_all add: iso_file_facts iso_sizes zero_bufs)

text \<open>
  C21: What is written. A run that is not refused changes exactly the 512 bytes of application data:
  they become the label, the hexadecimal sum of the checked part of the file, a NUL, a blank, 51
  characters of the remark and blanks; every other byte and the length stay as they were.
\<close>

theorem implant_writes_appdata:
  assumes "image_file fd k" and "k < 2 ^ 19" and "implant_bufs sbuf buf orig ctx"
    and "forceit \<or> \<not> used_appdata (io_data fd) k" and "image_size (io_data fd) k < 2 ^ 32"
    and "d = io_data fd" and "hsum = hexsum (md5_digest (take (image_size d k) d))"
  shows "\<exists>out d'. implant_file sbuf buf orig ctx isz forceit fd =
      (None, out @ [Md5_Line hsum, Implant_Done], fd\<lparr>io_data := d', io_pos := appdata_pos k + 512\<rparr>) \<and>
    length d' = length d \<and>
    (\<forall>i. i < appdata_pos k \<or> appdata_pos k + 512 \<le> i \<longrightarrow> d' ! i = d ! i) \<and>
    take 512 (drop (appdata_pos k) d') = bytes_of ''ISO MD5SUM = '' @ hsum @ [0, 0x20] @
      bytes_of ''THIS IS NOT THE SAME AS RUNNING MD5SUM ON THIS ISO!'' @ replicate 414 0x20"
proof -
  have M: "implant_end d k (length d) = min (image_size d k) (length d)"
    using assms(5,6) by (simp add: implant_end_def)
  have "take (min (image_size d k) (length d)) d = take (image_size d k) d"
    by (cases "image_size d k \<le> length d") (simp_all add: min_def)
  then have h: "hsum = hexsum (md5_digest (take (implant_end d k (length d)) d))"
    using assms(7) M by simp
  have room: "appdata_pos k + 512 \<le> length d"
    using assms(1,6) by (auto simp: image_file_def pvd_at_def appdata_pos_def APPDATA_OFFSET_def)
  have l: "length hsum = 32" using assms(7) by simp
  have la: "length (new_appdata (hsum @ [0])) = 512"
    using l by (intro length_new_appdata) simp
  obtain out where run: "implant_file sbuf buf orig ctx isz forceit fd =
    (None, out @ [Md5_Line hsum, Implant_Done],
     fd\<lparr>io_data := implanted k (hsum @ [0]) d, io_pos := appdata_pos k + 512\<rparr>)"
    using implant_file_result [OF assms(1,2) _ _ _ _ assms(4) refl h [unfolded assms(6)], of sbuf buf orig ctx isz]
      assms(3,6) by (auto simp: implant_bufs_def md5_wf_def)
  have w: "take 512 (drop (appdata_pos k) (implanted k (hsum @ [0]) d)) = new_appdata (hsum @ [0])"
    using room la by (simp add: implanted_def poke_def)
  show ?thesis
    by (intro exI conjI, rule run)
      (use room la w new_appdata_layout [OF l] in \<open>auto simp: implanted_def length_poke nth_poke\<close>)
qed

theorem implant_writes_appdata_witness:
  "\<exists>out d'. implant_file (replicate 2048 0) (replicate 2048 0) (replicate 512 0) zero_ctx 0 False
      (iso_file [0, 0, 0, 182] (replicate 512 0x20) 337920) =
      (None, out @ [Md5_Line (hexsum (md5_digest (take 65536
          (io_data (iso_file [0, 0, 0, 182] (replicate 512 0x20) 337920))))), Implant_Done],
        (iso_file [0, 0, 0, 182] (replicate 512 0x20) 337920)\<lparr>io_data := d', io_pos := appdata_pos 0 + 512\<rparr>) \<and>
    length d' = 372736 \<and>
    (\<forall>i. i < appdata_pos 0 \<or> appdata_pos 0 + 512 \<le> i \<longrightarrow>
       d' ! i = io_data (iso_file [0, 0, 0, 182] (replicate 512 0x20) 337920) ! i) \<and>
    take 512 (drop (appdata_pos 0) d') = bytes_of ''ISO MD5SUM = '' @
      hexsum (md5_digest (take 65536 (io_data (iso_file [0, 0, 0, 182] (replicate 512 0x20) 337920)))) @ [0, 0x20] @
      bytes_of ''THIS IS NOT THE SAME AS RUNNING MD5SUM ON THIS ISO!'' @ replicate 414 0x20"
  using implant_writes_appdata [of "iso_file [0, 0, 0, 182] (replicate 512 0x20) 337920" 0
      "replicate 2048 0" "replicate 2048 0" "replicate 512 0" zero_ctx False _ _ 0, OF _ _ _ _ _ refl refl]
  by (simp add: iso_file_facts iso_sizes zero_bufs)

text \<open>
  What is refused. Without \<open>-f\<close> an image whose application data are in use is left as it is:
  the exit status is 1 and not a byte is written.
\<close>

theorem implant_refuses_used:
  assumes "image_file fd k" and "k < 2 ^ 19" and "implant_bufs sbuf buf orig ctx"
    and "used_appdata (io_data fd) k" and "opn (Some f) = Some fd" and "f \<noteq> ''-f''"
  shows "implantisomd5_main opn sbuf buf orig ctx isz [pr, f]
    = (Some 1, [Appdata_Used], Some (fd\<lparr>io_pos := appdata_pos k + 512\<rparr>))"
  using implant_file_start [OF assms(1,2), of sbuf orig] assms(3-6)
  by (simp add: implantisomd5_main_def implant_bufs_def)

theorem implant_refuses_used_witness:
  "implantisomd5_main (\<lambda>_. Some (iso_file [0, 0, 0, 182] (replicate 512 0) 337920))
      (replicate 2048 0) (replicate 2048 0) (replicate 512 0) zero_ctx 0 [''implantisomd5'', ''a.iso'']
    = (Some 1, [Appdata_Used],
       Some ((iso_file [0, 0, 0, 182] (replicate 512 0) 337920)\<lparr>io_pos := appdata_pos 0 + 512\<rparr>))"
  by (rule implant_refuses_used) (simp_all add: iso_file_facts blank_differs zero_bufs)

text \<open>
  Forcing. With \<open>-f\<close> the sum is taken over the image with the old application data, while the
  check blanks them: afterwards the check accepts the image only if the MD5 of the two agree.
\<close>

theorem implant_forced_check:
  assumes "image_file fd k" and "k \<le> 7" and "d = io_data fd"
    and "N = image_size d k" and "65536 \<le> N" and "N < 2 ^ 32" and "N \<le> length d"
    and "implant_bufs sbuf buf orig ctx" and "check_bufs sbuf' hbuf ctx'"
    and "opn (Some f) = Some fd"
  shows "\<exists>out fd'. implantisomd5_main opn sbuf buf orig ctx isz [pr, ''-f'', f] = (None, out, Some fd') \<and>
    (\<exists>r. checkmd5sum sbuf' hbuf ctx' fd' ms cs = Inr r \<and>
       (cr_rc r = 1 \<longleftrightarrow>
          hexsum (md5_digest (take N d)) = hexsum (md5_digest (take N (blanked k d)))))"
proof -
  let ?h = "hexsum (md5_digest (take N d))"
  have pvd: "pvd_at d k" using assms(1,3) by (simp add: image_file_def)
  have M: "N = implant_end d k (length d)"
    using assms(4,6,7) by (simp add: implant_end_def)
  obtain out where run: "implant_file sbuf buf orig ctx isz True fd =
    (None, out @ [Md5_Line ?h, Implant_Done],
     fd\<lparr>io_data := implanted k (?h @ [0]) d, io_pos := appdata_pos k + 512\<rparr>)"
    using implant_file_result [OF assms(1) _ _ _ _ _ _ M [unfolded assms(3)] refl, of sbuf buf orig ctx True isz]
      assms(2,3,8) by (auto simp: implant_bufs_def md5_wf_def)
  let ?fd = "fd\<lparr>io_data := implanted k (?h @ [0]) d, io_pos := appdata_pos k + 512\<rparr>"
  obtain r where r: "checkmd5sum sbuf' hbuf ctx' ?fd ms cs = Inr r"
    "cr_rc r = (if ?h = hexsum (md5_digest (take N (blanked k d))) then 1 else 0)"
    using check_implanted [OF pvd assms(2,4,5,7) refl _ refl, of "md5_digest (take N d)" ?fd sbuf' hbuf ctx' _ ms cs]
      assms(1,3,7,9) implanted_image(1) [OF pvd, of ?h]
    by (auto simp: check_bufs_def md5_wf_def image_file_def)
  have "implantisomd5_main opn sbuf buf orig ctx isz [pr, ''-f'', f] =
      (None, out @ [Md5_Line ?h, Implant_Done], Some ?fd)"
    using run assms(10) by (simp add: implantisomd5_main_def)
  moreover have "cr_rc r = 1 \<longleftrightarrow> ?h = hexsum (md5_digest (take N (blanked k d)))"
    using r(2) by simp
  ultimately show ?thesis
    using r(1) by blast
qed

theorem implant_forced_check_witness:
  "\<exists>out fd'. implantisomd5_main (\<lambda>_. Some (iso_file [0, 0, 0, 182] (replicate 512 0) 337920))
      (replicate 2048 0) (replicate 2048 0) (replicate 512 0) zero_ctx 0 [''implantisomd5'', ''-f'', ''a.iso'']
        = (None, out, Some fd') \<and>
    (\<exists>r. checkmd5sum (replicate 2048 0) (replicate 32768 0) zero_ctx fd' [] [] = Inr r \<and>
       (cr_rc r = 1 \<longleftrightarrow>
          hexsum (md5_digest (take 65536 (io_data (iso_file [0, 0, 0, 182] (replicate 512 0) 337920)))) =
          hexsum (md5_digest (take 65536 (blanked 0 (io_data (iso_file [0, 0, 0, 182] (replicate 512 0) 337920)))))))"
  by (rule implant_forced_check [OF _ _ refl]) (simp_all add: iso_file_facts iso_sizes zero_bufs)

text \<open>
  C26: Images of 4 GB and more. If the part to be checked has \<open>2 ^ 32\<close> bytes or more, the 32-bit
  running total never reaches it: the sum that is implanted is the one of the whole file, the
  skipped sectors included.
\<close>

theorem implant_total_wraps:
  assumes "image_file fd k" and "k < 2 ^ 19" and "implant_bufs sbuf buf orig ctx"
    and "forceit \<or> \<not> used_appdata (io_data fd) k" and "2 ^ 32 \<le> image_size (io_data fd) k"
    and "hsum = hexsum (md5_digest (io_data fd))"
  shows "\<exists>out. implant_file sbuf buf orig ctx isz forceit fd =
    (None, out @ [Md5_Line hsum, Implant_Done],
     fd\<lparr>io_data := implanted k (hsum @ [0]) (io_data fd), io_pos := appdata_pos k + 512\<rparr>)"
proof -
  have M: "length (io_data fd) = implant_end (io_data fd) k (length (io_data fd))"
    using assms(5) by (simp add: implant_end_def)
  show ?thesis
    using implant_file_result [OF assms(1,2) _ _ _ _ assms(4) M, of sbuf buf orig ctx hsum isz] assms(3,6)
    by (auto simp: implant_bufs_def md5_wf_def)
qed

theorem implant_total_wraps_witness:
  "\<exists>out. implant_file (replicate 2048 0) (replicate 2048 0) (replicate 512 0) zero_ctx 0 False
      (iso_file [0, 0x20, 0, 0x96] (replicate 512 0x20) 4295239680) =
    (None, out @ [Md5_Line (hexsum (md5_digest (io_data
        (iso_file [0, 0x20, 0, 0x96] (replicate 512 0x20) 4295239680)))), Implant_Done],
     (iso_file [0, 0x20, 0, 0x96] (replicate 512 0x20) 4295239680)\<lparr>io_data :=
        implanted 0 (hexsum (md5_digest (io_data
          (iso_file [0, 0x20, 0, 0x96] (replicate 512 0x20) 4295239680))) @ [0])
        (io_data (iso_file [0, 0x20, 0, 0x96] (replicate 512 0x20) 4295239680)),
        io_pos := appdata_pos 0 + 512\<rparr>)"
  by (rule implant_total_wraps [OF _ _ _ _ _ refl]) (simp_all add: iso_file_facts iso_sizes zero_bufs)

end
