(* ===== verification/Media_Check.thy ===== *)
theory Media_Check
  imports Iso_Check
begin

text \<open>
  \<open>mediacheck/mediacheck.c\<close>: \<open>checkmd5sum\<close> with a progress callback, the callback \<open>readCB\<close>, the
  dialogue \<open>doMediaCheck\<close> / \<open>mediaCheckFile\<close> and \<open>main\<close>, as the Makefile builds them (\<open>TESTING\<close>
  defined, so \<open>_(x)\<close> is \<open>x\<close>). The calls of the newt library, which is not part of the
  repository, are recorded in order; nothing the program computes depends on what they do.
  A result \<open>None\<close> is a run that does not end.
\<close>

section \<open>Definitions\<close>

datatype newt_call =
    NewtInit
  | NewtCls
  | NewtFinished
  | NewtWinMessage string string string
  | NewtCenteredWindow int int string
  | NewtTextbox int int int int
  | NewtTextboxSetText string
  | NewtLabel int int string
  | NewtForm
  | NewtFormAddComponent string
  | NewtScale int int int int
  | NewtDrawForm
  | NewtRefresh
  | NewtScaleSet int
  | NewtLabelSetText string
  | NewtButton int int string
  | NewtRunForm
  | NewtFormDestroy
  | NewtPopWindow

text \<open>\<open>snprintf (s, n, ...)\<close> of a text of any length: what the array holds as a string.\<close>

definition snprintf_text :: "nat \<Rightarrow> string \<Rightarrow> string" where
  "snprintf_text n s = take (n - 1) s"

text \<open>
  \<open>checkmd5sum\<close> with the callback \<open>cb\<close> on a state of type \<open>'s\<close>: the value returned, \<open>mediasum\<close>,
  \<open>computedsum\<close>, the state and the descriptor.
\<close>

definition media_checkmd5sum ::
  "('s \<Rightarrow> int \<Rightarrow> 's) option \<Rightarrow> byte list \<Rightarrow> byte list \<Rightarrow> MD5_CTX \<Rightarrow> iofd \<Rightarrow> byte list \<Rightarrow> byte list \<Rightarrow> 's \<Rightarrow>
    (fault + (int \<times> byte list \<times> byte list \<times> 's \<times> iofd)) option" where
  "media_checkmd5sum cb sbuf hbuf ctx fd mediasum computedsum st =
     (case media_parsepvd fd sbuf mediasum 0 of
        None \<Rightarrow> None
      | Some (pvd_offset, mediasum, isosize, fd) \<Rightarrow>
          if pvd_offset < 0 then Some (Inr (-1, mediasum, computedsum, st, fd))
          else
            let fd = snd (sys_lseek fd 0);
                ctx = MD5_Init ctx;
                apoff = pvd_offset + int APPDATA_OFFSET;
                call = (case cb of None \<Rightarrow> (\<lambda>st offset. st) | Some f \<Rightarrow> f)
            in (case hash_loop call isosize apoff fd hbuf 0 st ctx of
                  Inl e \<Rightarrow> Some (Inl e)
                | Inr (ctx, st, fd) \<Rightarrow>
                    let st = call st isosize;
                        computedsum = hexsum (fst (MD5_Final ctx)) @ [0]
                    in Some (Inr (if cstr mediasum \<noteq> cstr computedsum then 0 else 1,
                                  mediasum, computedsum, st, fd))))"

text \<open>The callback \<open>readCB\<close>; its state is the static \<open>tick\<close> and the calls made so far.\<close>

definition readCB :: "int \<times> newt_call list \<Rightarrow> int \<Rightarrow> int \<times> newt_call list" where
  "readCB = (\<lambda>(tick, calls) pos.
     let ticks = [CHR ''-'', CHR 0x5C, CHR ''|'', CHR ''/''];
         tick = tick + 1;
         tick = (if tick > 399 then 0 else tick);
         tickmark = [ticks ! nat (tick div 100)]
     in (tick, calls @ [NewtScaleSet pos, NewtLabelSetText tickmark, NewtRefresh]))"

definition doMediaCheck ::
  "byte list \<Rightarrow> byte list \<Rightarrow> byte list \<Rightarrow> MD5_CTX \<Rightarrow> iofd \<Rightarrow> string option \<Rightarrow> byte list \<Rightarrow> byte list \<Rightarrow>
    int \<times> newt_call list \<Rightarrow> (fault + (int \<times> (int \<times> newt_call list) \<times> iofd)) option" where
  "doMediaCheck sbuf sbuf2 hbuf ctx isofd descr mediasum computedsum st =
     (case media_parsepvd isofd sbuf mediasum 0 of
        None \<Rightarrow> None
      | Some (r, mediasum, isosize, isofd) \<Rightarrow>
          if r < 0 then
            Some (Inr (-1, (fst st, snd st @ [NewtWinMessage ''Error'' ''OK''
              (''Unable to read the disc checksum from the '' @
               ''primary volume descriptor.  This probably '' @
               ''means the disc was created without adding the '' @
               ''checksum.'')]), isofd))
          else
            let tmpstr = snprintf_text 1024 (case descr of
                    Some descr \<Rightarrow> ''Checking '' @ [CHR 0x22] @ descr @ [CHR 0x22] @ ''...''
                  | None \<Rightarrow> ''Checking media now...'');
                dlen = min (int (length tmpstr)) 65;
                llen = int (length tmpstr);
                st = (fst st, snd st @
                  [NewtCenteredWindow (dlen + 8) 6 ''Media Check'', NewtTextbox 1 1 (dlen + 4) 3,
                   NewtTextboxSetText tmpstr, NewtLabel (llen + 1) 1 ''-'', NewtForm,
                   NewtFormAddComponent ''t'', NewtScale 3 3 dlen isosize, NewtFormAddComponent ''scale'',
                   NewtDrawForm, NewtRefresh])
            in (case media_checkmd5sum (Some readCB) sbuf2 hbuf ctx isofd mediasum computedsum st of
                  None \<Rightarrow> None
                | Some (Inl e) \<Rightarrow> Some (Inl e)
                | Some (Inr (rc, mediasum, computedsum, st, isofd)) \<Rightarrow>
                    Some (Inr (rc, (fst st, snd st @ [NewtFormDestroy, NewtPopWindow]), isofd))))"

text \<open>The text of the last dialogue.\<close>

definition result_text :: "int \<Rightarrow> string" where
  "result_text rc =
     (if rc = 0 then ''FAIL.'' @ [CHR 0x0A, CHR 0x0A] @ ''It is not recommended to use this media.''
      else if rc > 0 then ''PASS.'' @ [CHR 0x0A, CHR 0x0A] @ ''It is OK to install from this media.''
      else ''NA.'' @ [CHR 0x0A, CHR 0x0A] @ ''No checksum information available, unable to verify media.'')"

definition complete_text :: "string option \<Rightarrow> int \<Rightarrow> string" where
  "complete_text descr rc =
     (let result = result_text rc;
          descrstr = (case descr of
              Some descr \<Rightarrow> snprintf_text 256
                (''of the image:'' @ [CHR 0x0A, CHR 0x0A] @ descr @ [CHR 0x0A, CHR 0x0A])
            | None \<Rightarrow> [])
      in snprintf_text 256
           (''The media check '' @ descrstr @ ''is complete, and '' @ ''the result is: '' @ result @ [CHR 0x0A]))"

text \<open>
  \<open>mediaCheckFile (file, descr)\<close>: the value returned and the calls made. \<open>opn\<close> is
  \<open>open (file, O_RDONLY)\<close>, \<open>tick\<close> the static variable of \<open>readCB\<close>.
\<close>

definition mediaCheckFile ::
  "(string \<Rightarrow> iofd option) \<Rightarrow> byte list \<Rightarrow> byte list \<Rightarrow> byte list \<Rightarrow> MD5_CTX \<Rightarrow> byte list \<Rightarrow> byte list \<Rightarrow>
    string \<Rightarrow> string option \<Rightarrow> int \<times> newt_call list \<Rightarrow> (fault + (int \<times> (int \<times> newt_call list))) option" where
  "mediaCheckFile opn sbuf sbuf2 hbuf ctx mediasum computedsum file descr st =
     (case opn file of
        None \<Rightarrow> Some (Inr (-1, (fst st, snd st @
          [NewtWinMessage ''Error'' ''OK'' (''Unable to find install image '' @ file)])))
      | Some isofd \<Rightarrow>
          (case doMediaCheck sbuf sbuf2 hbuf ctx isofd descr mediasum computedsum st of
             None \<Rightarrow> None
           | Some (Inl e) \<Rightarrow> Some (Inl e)
           | Some (Inr (rc, st, isofd)) \<Rightarrow>
               Some (Inr (rc, (fst st, snd st @
                 [NewtCenteredWindow 60 13 ''Media Check Result'', NewtTextbox 4 1 52 8,
                  NewtTextboxSetText (complete_text descr rc), NewtForm, NewtFormAddComponent ''t'',
                  NewtButton 26 9 ''OK'', NewtFormAddComponent ''button'', NewtRunForm, NewtFormDestroy,
                  NewtPopWindow])))))"

text \<open>\<open>main\<close>: the exit status (\<open>None\<close> where it ends without a value) and the calls made.\<close>

definition mediacheck_main ::
  "(string \<Rightarrow> iofd option) \<Rightarrow> byte list \<Rightarrow> byte list \<Rightarrow> byte list \<Rightarrow> MD5_CTX \<Rightarrow> byte list \<Rightarrow> byte list \<Rightarrow>
    string list \<Rightarrow> (fault + (int option \<times> newt_call list)) option" where
  "mediacheck_main opn sbuf sbuf2 hbuf ctx mediasum computedsum argv =
     (if length argv < 2 then Some (Inr (Some 1, []))
      else case mediaCheckFile opn sbuf sbuf2 hbuf ctx mediasum computedsum (argv ! 1) (Some (argv ! 1))
              (0, [NewtInit, NewtCls]) of
          None \<Rightarrow> None
        | Some (Inl e) \<Rightarrow> Some (Inl e)
        | Some (Inr (rc, (tick, calls))) \<Rightarrow> Some (Inr (None, calls @ [NewtFinished])))"

section \<open>The verdict\<close>

lemma media_parsepvd_found:
  assumes "io_seekable fd" and "pvd_at (io_data fd) k" and "2048 * (17 + k) \<le> io_limit fd"
    and "io_limit fd \<le> length (io_data fd)" and "length buf = 2048" and "k < 2 ^ 19"
    and "sec = sector (io_data fd) (16 + k)" and "skip_spaces (pvd_mediasum sec) \<noteq> 0"
  shows "media_parsepvd fd buf mediasum isosize =
    Some (2048 * int (16 + k), pvd_mediasum sec, pvd_isosize sec, fd\<lparr>io_pos := 2048 * (17 + k)\<rparr>)"
proof -
  have "to_int32 (2048 * int (16 + k)) = 2048 * int (16 + k)"
    using assms(6) by (intro to_int32_id) simp_all
  moreover have "media_scan (fd\<lparr>io_pos := 32768\<rparr>) buf 32768 =
      Some (Some (2048 * int (16 + k), sec), fd\<lparr>io_pos := 2048 * (17 + k)\<rparr>)"
    using pvd_scan_found [of "fd\<lparr>io_pos := 32768\<rparr>" k buf 0] assms(2-7)
    by (intro media_scan_found) simp
  ultimately show ?thesis
    using assms(1,8) by (simp add: media_parsepvd_def sys_lseek_def Let_def)
qed

text \<open>The positions reported by the loop: strictly increasing, up to the checked size.\<close>

lemma sys_read_bounds: "sys_read fd n = (nread, bs, fd') \<Longrightarrow> nread \<le> int n"
  by (auto simp: sys_read_def Let_def split: if_splits)

lemma hash_loop_report:
  "hash_loop report isosize apoff fd buf offset st ctx = Inr (ctx', st', fd') \<Longrightarrow>
    \<exists>ps. st' = foldl report st ps \<and> sorted_wrt (<) (offset # ps) \<and>
      (\<forall>p \<in> set ps. p \<le> isosize - SKIPSECTORS * 2048)"
proof (induction report isosize apoff fd buf offset st ctx rule: hash_loop.induct)
  case (1 report isosize apoff fd buf offset st ctx)
  let ?N = "isosize - SKIPSECTORS * 2048"
  obtain nread bs fd1 where read: "sys_read fd (nat (min (?N - offset) 32768)) = (nread, bs, fd1)"
    by (cases "sys_read fd (nat (min (?N - offset) 32768))")
  show ?case
  proof (cases "offset < ?N \<and> \<not> nread \<le> 0")
    case False
    then have "st' = st"
      using "1.prems" by (subst (asm) hash_loop.simps) (auto simp: read Let_def split: if_splits)
    then show ?thesis by (intro exI [of _ "[]"]) simp
  next
    case True
    then obtain buf' where buf': "blank_appdata apoff offset nread (poke buf 0 bs) = Inr buf'"
      and rest: "hash_loop report isosize apoff fd1 buf' (offset + nread) (report st (offset + nread))
        (MD5_Update ctx (take (nat nread) buf')) = Inr (ctx', st', fd')"
      using "1.prems" by (subst (asm) hash_loop.simps) (auto simp: read Let_def split: sum.splits)
    obtain ps where ps: "st' = foldl report (report st (offset + nread)) ps"
      "sorted_wrt (<) ((offset + nread) # ps)" "\<forall>p \<in> set ps. p \<le> ?N"
      using "1.IH" [OF _ refl read [symmetric] refl _ buf' rest] True by auto
    have "offset + nread \<le> ?N" "offset < offset + nread"
      using True sys_read_bounds [OF read] by auto
    with ps show ?thesis
      by (intro exI [of _ "(offset + nread) # ps"]) auto
  qed
qed

lemma media_checkmd5sum_verdict:
  assumes "checkable fd k" and "k \<le> 7" and "length sbuf = 2048" and "length hbuf = 32768"
    and "md5_wf ctx" and "sec = sector (io_data fd) (16 + k)" and "skip_spaces (pvd_mediasum sec) \<noteq> 0"
    and "M = min (checked_size (pvd_isosize sec)) (io_limit fd)"
    and "hsum = hexsum (md5_digest (take M (blanked k (io_data fd))))"
  shows "\<exists>ps. media_checkmd5sum (Some cb) sbuf hbuf ctx fd ms cs st =
    Some (Inr (if cstr (pvd_mediasum sec) = hsum then 1 else 0, pvd_mediasum sec, hsum @ [0],
      foldl cb st (ps @ [pvd_isosize sec]), fd\<lparr>io_pos := M\<rparr>)) \<and>
    sorted_wrt (<) (0 # ps @ [pvd_isosize sec])"
proof -
  let ?fd = "fd\<lparr>io_pos := 0\<rparr>"
  have c: "io_seekable fd" "io_limit fd \<le> length (io_data fd)" "pvd_at (io_data fd) k" "65536 \<le> M"
    using assms(1,6,8) by (simp_all add: checkable_def)
  then have "2048 * (17 + k) \<le> io_limit fd"
    using assms(2,8) by simp
  then have pvd: "media_parsepvd fd sbuf ms 0 =
      Some (2048 * int (16 + k), pvd_mediasum sec, pvd_isosize sec, fd\<lparr>io_pos := 2048 * (17 + k)\<rparr>)"
    using media_parsepvd_found [of fd k sbuf sec ms 0] c assms(2,3,6,7) by simp
  have "md5_repr (MD5_Init ctx) (take 0 (blanked k (io_data ?fd)))"
    using assms(5) by (simp add: md5_repr_Init)
  then obtain ctx' st' where loop: "md5_repr ctx' (take M (blanked k (io_data fd)))"
    "hash_loop cb (pvd_isosize sec) (appdata_at k) ?fd hbuf 0 st (MD5_Init ctx)
      = Inr (ctx', st', fd\<lparr>io_pos := M\<rparr>)"
    using hash_loop_correct [of k ?fd hbuf M "pvd_isosize sec" 0 "MD5_Init ctx" cb st]
      assms(2,4,8) c by auto
  have "fst (MD5_Final ctx') = md5_digest (take M (blanked k (io_data fd)))"
    using loop(1) by (rule md5_Final_digest)
  moreover obtain ps where ps: "st' = foldl cb st ps" "sorted_wrt (<) (0 # ps)"
    "\<forall>p \<in> set ps. p \<le> pvd_isosize sec - SKIPSECTORS * 2048"
    using hash_loop_report [OF loop(2)] by auto
  moreover have "307200 + 65536 \<le> pvd_isosize sec"
  proof -
    have "65536 \<le> checked_size (pvd_isosize sec)" using c(4) assms(8) by simp
    then show ?thesis unfolding checked_size_def SKIPSECTORS_def by linarith
  qed
  ultimately show ?thesis
    using loop(2) c(1) assms(9)
    by (intro exI [of _ ps])
      (auto simp: media_checkmd5sum_def pvd sys_lseek_def Let_def appdata_at_def sorted_wrt_append
        SKIPSECTORS_def)
qed

section \<open>The progress display\<close>

fun scale_positions :: "newt_call list \<Rightarrow> int list" where
  "scale_positions [] = []"
| "scale_positions (NewtScaleSet p # cs) = p # scale_positions cs"
| "scale_positions (_ # cs) = scale_positions cs"

fun label_texts :: "newt_call list \<Rightarrow> string list" where
  "label_texts [] = []"
| "label_texts (NewtLabelSetText t # cs) = t # label_texts cs"
| "label_texts (_ # cs) = label_texts cs"

lemma scale_positions_append: "scale_positions (cs @ ds) = scale_positions cs @ scale_positions ds"
  by (induction cs rule: scale_positions.induct) simp_all

lemma label_texts_append: "label_texts (cs @ ds) = label_texts cs @ label_texts ds"
  by (induction cs rule: label_texts.induct) simp_all

definition spinner :: "string list" where
  "spinner = [''-'', [CHR 0x5C], ''|'', ''/'']"

lemma readCB_step:
  assumes "0 \<le> tick" and "tick \<le> 399"
  shows "\<exists>tick' t. readCB (tick, calls) p =
      (tick', calls @ [NewtScaleSet p, NewtLabelSetText t, NewtRefresh]) \<and>
    0 \<le> tick' \<and> tick' \<le> 399 \<and> t \<in> set spinner"
proof -
  define tick' where "tick' = (if tick + 1 > 399 then 0 else tick + 1)"
  have t: "0 \<le> tick'" "tick' \<le> 399" using assms by (simp_all add: tick'_def)
  then have "nat (tick' div 100) \<in> {0, 1, 2, 3}"
    by (auto simp: nat_eq_iff)
  then have "[[CHR ''-'', CHR 0x5C, CHR ''|'', CHR ''/''] ! nat (tick' div 100)] \<in> set spinner"
    by (auto simp: spinner_def)
  then show ?thesis
    using t by (simp add: readCB_def Let_def tick'_def)
qed

lemma readCB_fold:
  assumes "0 \<le> tick" and "tick \<le> 399" and "foldl readCB (tick, calls) ps = (tick', calls')"
  shows "0 \<le> tick' \<and> tick' \<le> 399 \<and> scale_positions calls' = scale_positions calls @ ps \<and>
    (set (label_texts calls') \<subseteq> set (label_texts calls) \<union> set spinner)"
  using assms
proof (induction ps arbitrary: tick calls)
  case (Cons p ps)
  obtain t1 t where step: "readCB (tick, calls) p = (t1, calls @ [NewtScaleSet p, NewtLabelSetText t, NewtRefresh])"
    "0 \<le> t1" "t1 \<le> 399" "t \<in> set spinner"
    using readCB_step [OF Cons.prems(1,2)] by blast
  then have "foldl readCB (t1, calls @ [NewtScaleSet p, NewtLabelSetText t, NewtRefresh]) ps = (tick', calls')"
    using Cons.prems(3) by simp
  from Cons.IH [OF step(2,3) this] step(4) show ?case
    by (auto simp: scale_positions_append label_texts_append)
qed auto

section \<open>Properties\<close>

text \<open>
  C22: The verdict of \<open>mediaCheckFile\<close>. On a medium with a sum and the descriptor in one of the
  sectors 16 to 23 the dialogue ends; the value returned is 1 exactly if the sum on the medium is
  the MD5 of the readable, unskipped part of the image with the application data blanked, and 0
  otherwise; and the last text shown names the image and then says \<open>PASS.\<close>, that it is OK to install, if
  the sums agree, and \<open>FAIL.\<close>, that it is not recommended, if they do not. The text is cut to 255
  characters; the description is short enough for the verdict itself to be shown (at most 185
  characters: for a longer one, it is cut off).
\<close>

theorem mediaCheckFile_verdict:
  assumes "opn file = Some fd" and "checkable fd k" and "k \<le> 7" and "length sbuf = 2048"
    and "length sbuf2 = 2048" and "length hbuf = 32768" and "length (md_in ctx) = 64"
    and "sec = sector (io_data fd) (16 + k)" and "skip_spaces (pvd_mediasum sec) \<noteq> 0"
    and "M = min (checked_size (pvd_isosize sec)) (io_limit fd)"
    and "agree \<longleftrightarrow> cstr (pvd_mediasum sec) = hexsum (md5_digest (take M (blanked k (io_data fd))))"
    and "nl = [CHR 0x0A]"
    and "front = ''The media check '' @
      (case descr of None \<Rightarrow> [] | Some d \<Rightarrow> ''of the image:'' @ nl @ nl @ d @ nl @ nl) @ ''is complete, and the result is: ''"
    and "verdict = (if agree then ''PASS.'' @ nl @ nl @ ''It is OK to install from this media.''
      else ''FAIL.'' @ nl @ nl @ ''It is not recommended to use this media.'')"
    and "length front \<le> 250"
  shows "\<exists>tick calls. mediaCheckFile opn sbuf sbuf2 hbuf ctx ms cs file descr st
      = Some (Inr (if agree then 1 else 0, (tick, calls @ [NewtTextboxSetText (take 255 (front @ verdict @ nl)), NewtForm,
          NewtFormAddComponent ''t'', NewtButton 26 9 ''OK'', NewtFormAddComponent ''button'',
          NewtRunForm, NewtFormDestroy, NewtPopWindow])))"
proof -
  let ?rc = "if agree then 1 else 0 :: int"
  have shown: "complete_text descr ?rc = take 255 (front @ verdict @ nl)"
    using assms(12-15) by (auto simp: complete_text_def result_text_def snprintf_text_def Let_def split: option.splits)
  have pvd: "media_parsepvd fd sbuf ms 0 =
      Some (2048 * int (16 + k), pvd_mediasum sec, pvd_isosize sec, fd\<lparr>io_pos := 2048 * (17 + k)\<rparr>)"
    using assms(2-4,8,9) by (intro media_parsepvd_found) (auto simp: checkable_def)
  have ck: "checkable (fd\<lparr>io_pos := p\<rparr>) k" for p
    using assms(2) by (simp add: checkable_def)
  have "\<forall>s. \<exists>s'. media_checkmd5sum (Some readCB) sbuf2 hbuf ctx (fd\<lparr>io_pos := 2048 * (17 + k)\<rparr>)
      (pvd_mediasum sec) cs s = Some (Inr (?rc, pvd_mediasum sec,
        hexsum (md5_digest (take M (blanked k (io_data fd)))) @ [0], s', fd\<lparr>io_pos := M\<rparr>))"
  proof
    fix s
    obtain ps where "media_checkmd5sum (Some readCB) sbuf2 hbuf ctx (fd\<lparr>io_pos := 2048 * (17 + k)\<rparr>)
        (pvd_mediasum sec) cs s = Some (Inr (?rc, pvd_mediasum sec,
          hexsum (md5_digest (take M (blanked k (io_data fd)))) @ [0],
          foldl readCB s (ps @ [pvd_isosize sec]), fd\<lparr>io_pos := M\<rparr>))"
      using media_checkmd5sum_verdict [OF ck assms(3,5,6) _ _ assms(9) _ refl,
          of ctx "2048 * (17 + k)" M readCB "pvd_mediasum sec" cs s] assms(7,8,10,11)
      unfolding md5_wf_def by auto
    then show "\<exists>s'. media_checkmd5sum (Some readCB) sbuf2 hbuf ctx (fd\<lparr>io_pos := 2048 * (17 + k)\<rparr>)
        (pvd_mediasum sec) cs s = Some (Inr (?rc, pvd_mediasum sec,
          hexsum (md5_digest (take M (blanked k (io_data fd)))) @ [0], s', fd\<lparr>io_pos := M\<rparr>))"
      by (rule exI)
  qed
  then obtain F where "\<And>s. media_checkmd5sum (Some readCB) sbuf2 hbuf ctx (fd\<lparr>io_pos := 2048 * (17 + k)\<rparr>)
      (pvd_mediasum sec) cs s = Some (Inr (?rc, pvd_mediasum sec,
        hexsum (md5_digest (take M (blanked k (io_data fd)))) @ [0], F s, fd\<lparr>io_pos := M\<rparr>))"
    by metis
  then obtain calls where "doMediaCheck sbuf sbuf2 hbuf ctx fd descr ms cs st = Some (Inr (?rc, calls, fd\<lparr>io_pos := M\<rparr>))"
    by (auto simp: doMediaCheck_def pvd Let_def)
  then show ?thesis
    using assms(1) shown by (auto simp: mediaCheckFile_def)
qed

theorem mediaCheckFile_verdict_witness:
  "\<exists>tick calls. mediaCheckFile (\<lambda>_. Some (sample_image 0 0x61 [])) (replicate 2048 0) (replicate 2048 0)
        (replicate 32768 0) zero_ctx [] [] ''cdrom'' None (0, [])
      = Some (Inr (if cstr (replicate 32 0x61 @ [0]) =
            hexsum (md5_digest (take 65536 (blanked 0 (io_data (sample_image 0 0x61 []))))) then 1 else 0,
          (tick, calls @ [NewtTextboxSetText (take 255 (''The media check is complete, and the result is: '' @
            (if cstr (replicate 32 0x61 @ [0]) =
               hexsum (md5_digest (take 65536 (blanked 0 (io_data (sample_image 0 0x61 [])))))
             then ''PASS.'' @ [CHR 0x0A] @ [CHR 0x0A] @ ''It is OK to install from this media.''
             else ''FAIL.'' @ [CHR 0x0A] @ [CHR 0x0A] @ ''It is not recommended to use this media.'') @ [CHR 0x0A])),
          NewtForm, NewtFormAddComponent ''t'', NewtButton 26 9 ''OK'', NewtFormAddComponent ''button'',
          NewtRunForm, NewtFormDestroy, NewtPopWindow])))"
proof (rule mediaCheckFile_verdict [where k = 0 and nl = "[CHR 0x0A]"])
  show "checkable (sample_image 0 0x61 []) 0" by (rule sample_checkable) simp
  show "sample_pvd 0x61 = sector (io_data (sample_image 0 0x61 [])) (16 + 0)"
    by (simp only: sample_sector)
  show "skip_spaces (pvd_mediasum (sample_pvd 0x61)) \<noteq> 0" by (rule sample_sum)
  show "65536 = min (checked_size (pvd_isosize (sample_pvd 0x61))) (io_limit (sample_image 0 0x61 []))"
    by (simp add: sample_isosize checked_size_def SKIPSECTORS_def sample_image_def)
qed (simp_all add: sample_mediasum zero_ctx_def)

text \<open>
  C27: The progress display. Through one check the positions given to the scale grow strictly from
  above 0 and end with the size of the image; the label shows one of the four characters of the
  spinner, and the static counter stays between 0 and 399, so that the index into them is always
  in range.
\<close>

theorem media_progress:
  assumes "checkable fd k" and "k \<le> 7" and "length sbuf = 2048" and "length hbuf = 32768"
    and "length (md_in ctx) = 64" and "sec = sector (io_data fd) (16 + k)"
    and "skip_spaces (pvd_mediasum sec) \<noteq> 0" and "0 \<le> tick" and "tick \<le> 399"
  shows "\<exists>rc cs' tick' calls fd' ps.
    media_checkmd5sum (Some readCB) sbuf hbuf ctx fd ms cs (tick, []) =
      Some (Inr (rc, pvd_mediasum sec, cs', (tick', calls), fd')) \<and>
    scale_positions calls = ps @ [pvd_isosize sec] \<and> sorted_wrt (<) (0 # ps @ [pvd_isosize sec]) \<and>
    set (label_texts calls) \<subseteq> set spinner \<and> 0 \<le> tick' \<and> tick' \<le> 399"
proof -
  obtain ps where ps: "sorted_wrt (<) (0 # ps @ [pvd_isosize sec])"
    and run: "media_checkmd5sum (Some readCB) sbuf hbuf ctx fd ms cs (tick, []) =
      Some (Inr (if cstr (pvd_mediasum sec) = hexsum (md5_digest (take (min (checked_size (pvd_isosize sec)) (io_limit fd))
            (blanked k (io_data fd)))) then 1 else 0, pvd_mediasum sec,
        hexsum (md5_digest (take (min (checked_size (pvd_isosize sec)) (io_limit fd)) (blanked k (io_data fd)))) @ [0],
        foldl readCB (tick, []) (ps @ [pvd_isosize sec]),
        fd\<lparr>io_pos := min (checked_size (pvd_isosize sec)) (io_limit fd)\<rparr>))"
    using media_checkmd5sum_verdict [OF assms(1-4) _ assms(6,7) refl refl, of ctx readCB ms cs "(tick, [])"] assms(5)
    by (auto simp: md5_wf_def)
  obtain tick' calls where st: "foldl readCB (tick, []) (ps @ [pvd_isosize sec]) = (tick', calls)"
    by (cases "foldl readCB (tick, []) (ps @ [pvd_isosize sec])")
  have "scale_positions calls = ps @ [pvd_isosize sec]" "set (label_texts calls) \<subseteq> set spinner"
    "0 \<le> tick'" "tick' \<le> 399"
    using readCB_fold [OF assms(8,9) st] by simp_all
  with run [unfolded st] ps show ?thesis by blast
qed

theorem media_progress_witness:
  "\<exists>rc cs' tick' calls fd' ps.
    media_checkmd5sum (Some readCB) (replicate 2048 0) (replicate 32768 0) zero_ctx (sample_image 0 0x61 [])
        [] [] (0, []) =
      Some (Inr (rc, pvd_mediasum (sample_pvd 0x61), cs', (tick', calls), fd')) \<and>
    scale_positions calls = ps @ [pvd_isosize (sample_pvd 0x61)] \<and>
    sorted_wrt (<) (0 # ps @ [pvd_isosize (sample_pvd 0x61)]) \<and>
    set (label_texts calls) \<subseteq> set spinner \<and> 0 \<le> tick' \<and> tick' \<le> 399"
proof (rule media_progress [where k = 0])
  show "checkable (sample_image 0 0x61 []) 0" by (rule sample_checkable) simp
  show "sample_pvd 0x61 = sector (io_data (sample_image 0 0x61 [])) (16 + 0)"
    by (simp only: sample_sector)
  show "skip_spaces (pvd_mediasum (sample_pvd 0x61)) \<noteq> 0" by (rule sample_sum)
qed (simp_all add: zero_ctx_def)

text \<open>
  A long description hides the verdict: from 190 characters on, the text is cut off in front
  of the result, and what the last dialogue shows does not depend on it.
\<close>

theorem complete_text_hides_result:
  assumes "190 \<le> length descr"
  shows "complete_text (Some descr) rc = complete_text (Some descr) rc'"
proof -
  define front where "front = ''The media check '' @ take 255 (''of the image:'' @ [CHR 0x0A, CHR 0x0A] @
    descr @ [CHR 0x0A, CHR 0x0A]) @ ''is complete, and '' @ ''the result is: ''"
  have shown: "complete_text (Some descr) r = take 255 (front @ result_text r @ [CHR 0x0A])" for r
    by (simp add: complete_text_def snprintf_text_def Let_def front_def)
  have "255 \<le> length front"
    using assms by (simp add: front_def)
  then show ?thesis
    by (simp add: shown)
qed

theorem complete_text_hides_result_witness:
  "complete_text (Some (replicate 190 CHR ''x'')) 0 = complete_text (Some (replicate 190 CHR ''x'')) 1"
  by (rule complete_text_hides_result) simp

end
