(* ===== verification/Stdio.thy ===== *)
theory Stdio
  imports Prelude
begin

text \<open>
  The part of the C library the stream tools (\<open>cutstream.c\<close>, \<open>pastestream.c\<close>) use: \<open>atoi\<close>,
  \<open>atoll\<close> and \<open>printf "%d"\<close> on the texts of small files, \<open>fgets\<close>, and \<open>feof\<close>, \<open>fread\<close> and
  \<open>fwrite\<close> on buffered streams. A file system maps names to contents. The library of the
  language is modelled as documented; overflow in \<open>atoll\<close> saturates, as in glibc.
\<close>

section \<open>Numbers in text files\<close>

type_synonym files = "string \<Rightarrow> byte list option"

definition is_space :: "byte \<Rightarrow> bool" where
  "is_space c \<longleftrightarrow> c = 0x20 \<or> 9 \<le> c \<and> c \<le> 13"

definition is_digit :: "byte \<Rightarrow> bool" where
  "is_digit c \<longleftrightarrow> 0x30 \<le> c \<and> c \<le> 0x39"

fun digits_val :: "int \<Rightarrow> byte list \<Rightarrow> int" where
  "digits_val acc [] = acc"
| "digits_val acc (c # cs) = (if is_digit c then digits_val (10 * acc + (uint c - 48)) cs else acc)"

definition signed_val :: "byte list \<Rightarrow> int" where
  "signed_val cs = (case cs of
       [] \<Rightarrow> 0
     | c # cs' \<Rightarrow>
         if c = 0x2D then - digits_val 0 cs'
         else if c = 0x2B then digits_val 0 cs'
         else digits_val 0 cs)"

definition atoll :: "byte list \<Rightarrow> int" where
  "atoll cs = max (- (2 ^ 63)) (min (2 ^ 63 - 1) (signed_val (dropWhile is_space cs)))"

definition atoi :: "byte list \<Rightarrow> int" where
  "atoi cs = to_int32 (atoll cs)"

text \<open>\<open>printf "%d"\<close>.\<close>

fun nat_digits :: "nat \<Rightarrow> byte list" where
  "nat_digits n = (if n < 10 then [of_nat (48 + n)] else nat_digits (n div 10) @ [of_nat (48 + n mod 10)])"

declare nat_digits.simps [simp del]

definition decimal :: "int \<Rightarrow> byte list" where
  "decimal n = (if n < 0 then 0x2D # nat_digits (nat (- n)) else nat_digits (nat n))"

text \<open>A file name in a buffer.\<close>

definition string_of :: "byte list \<Rightarrow> string" where
  "string_of = map (\<lambda>b. char_of (unat b))"

text \<open>Signed 64-bit arithmetic (\<open>long long int\<close>).\<close>

definition to_int64 :: "int \<Rightarrow> int" where
  "to_int64 x = signed_take_bit 63 x"

text \<open>
  \<open>fgets (buf, n, fp)\<close> on a freshly opened file: the string in \<open>buf\<close> afterwards. At the end of
  the file nothing is stored and \<open>buf\<close> keeps what it held. The string ends at the first NUL.
\<close>

fun upto_newline :: "byte list \<Rightarrow> byte list" where
  "upto_newline [] = []"
| "upto_newline (c # cs) = (if c = 10 then [c] else c # upto_newline cs)"

definition fgets :: "nat \<Rightarrow> byte list \<Rightarrow> byte list \<Rightarrow> byte list" where
  "fgets n buf content =
     (if content = [] then buf
      else takeWhile (\<lambda>c. c \<noteq> 0) (take (n - 1) (upto_newline content)))"

section \<open>Streams\<close>

record instream =
  in_rest :: "byte list"
  in_eof :: bool

definition fopen_r :: "byte list \<Rightarrow> instream" where
  "fopen_r content = \<lparr>in_rest = content, in_eof = False\<rparr>"

text \<open>\<open>fread (data, 1, n, fp)\<close>: the end-of-file flag is set when fewer bytes than asked for are left.\<close>

definition fread :: "nat \<Rightarrow> instream \<Rightarrow> byte list \<times> instream" where
  "fread n fp =
     (take n (in_rest fp),
      fp\<lparr>in_rest := drop n (in_rest fp), in_eof := in_eof fp \<or> length (in_rest fp) < n\<rparr>)"

text \<open>
  The loop \<open>while (writeProgress < numRead) writeProgress += fwrite (...)\<close>, which both tools
  have, on an output that holds \<open>out\<close> and has room for \<open>quota\<close> bytes in all. \<open>fwrite\<close> writes what
  fits. When nothing fits the loop does not end: \<open>None\<close>.
\<close>

partial_function (option) fwrite_all :: "nat \<Rightarrow> byte list \<Rightarrow> byte list \<Rightarrow> byte list option" where
  "fwrite_all quota out bs =
     (if bs = [] then Some out
      else let n = min (length bs) (quota - length out)
           in fwrite_all quota (out @ take n bs) (drop n bs))"

section \<open>Facts\<close>

lemma fwrite_all_fits:
  assumes "length out + length bs \<le> quota"
  shows "fwrite_all quota out bs = Some (out @ bs)"
proof (cases "bs = []")
  case True
  then show ?thesis by (subst fwrite_all.simps) simp
next
  case False
  have "min (length bs) (quota - length out) = length bs"
    using assms by simp
  then have "fwrite_all quota out bs = fwrite_all quota (out @ bs) []"
    using False by (subst fwrite_all.simps) (simp add: Let_def)
  then show ?thesis by (subst (asm) (2) fwrite_all.simps) simp
qed

lemma fwrite_all_result:
  assumes "fwrite_all quota out bs = Some r" and "length out \<le> quota"
  shows "r = out @ bs \<and> length out + length bs \<le> quota"
proof -
  have "length out \<le> quota \<longrightarrow> r = out @ bs \<and> length out + length bs \<le> quota"
  proof (rule fwrite_all.raw_induct [where P = "\<lambda>quota out bs r.
      length out \<le> quota \<longrightarrow> r = out @ bs \<and> length out + length bs \<le> quota", OF _ assms(1)])
    fix wr quota' out' bs' r'
    assume IH: "\<And>quota out bs r. wr quota out bs = Some r \<Longrightarrow>
        length out \<le> quota \<longrightarrow> r = out @ bs \<and> length out + length bs \<le> quota"
      and eq: "(if bs' = [] then Some out'
        else let n = min (length bs') (quota' - length out')
             in wr quota' (out' @ take n bs') (drop n bs')) = Some r'"
    show "length out' \<le> quota' \<longrightarrow> r' = out' @ bs' \<and> length out' + length bs' \<le> quota'"
      using IH [of quota' "out' @ take (min (length bs') (quota' - length out')) bs'"
          "drop (min (length bs') (quota' - length out')) bs'" r'] eq
      by (auto simp: Let_def split: if_splits)
  qed
  with assms(2) show ?thesis by blast
qed

text \<open>A full output: the loop does not end.\<close>

lemma fwrite_all_full:
  assumes "length out \<le> quota" and "quota < length out + length bs"
  shows "fwrite_all quota out bs = None"
  using fwrite_all_result [of quota out bs] assms by (cases "fwrite_all quota out bs") auto

subsection \<open>Printing and reading a number\<close>

lemma string_of_bytes [simp]: "string_of (bytes_of s) = s"
proof -
  have "char_of (unat (of_char c :: byte)) = c" for c
  proof -
    have "unat (of_char c :: byte) = unat (of_nat (of_char c) :: byte)"
      by (simp only: of_nat_of_char)
    also have "\<dots> = of_char c"
      by (simp add: unat_of_nat)
    finally show ?thesis by simp
  qed
  then show ?thesis by (simp add: string_of_def bytes_of_def comp_def)
qed

lemma digit_byte:
  assumes "d < 10"
  shows "is_digit (of_nat (48 + d))" and "uint (of_nat (48 + d) :: byte) = 48 + int d"
proof -
  have "\<forall>d \<in> set [0..<10]. is_digit (of_nat (48 + d)) \<and> uint (of_nat (48 + d) :: byte) = 48 + int d"
    by (simp add: upt_rec is_digit_def)
  then show "is_digit (of_nat (48 + d))" "uint (of_nat (48 + d) :: byte) = 48 + int d"
    using assms by auto
qed

lemma digits_val_append:
  "list_all is_digit cs \<Longrightarrow> digits_val acc (cs @ ds) = digits_val (digits_val acc cs) ds"
  by (induction acc cs rule: digits_val.induct) auto

lemma nat_digits_facts:
  "list_all is_digit (nat_digits n) \<and> nat_digits n \<noteq> [] \<and> digits_val 0 (nat_digits n) = int n"
proof (induction n rule: nat_digits.induct)
  case (1 n)
  show ?case
  proof (cases "n < 10")
    case True
    then show ?thesis
      using digit_byte [OF True] by (subst (1 2 3) nat_digits.simps) simp
  next
    case False
    have "n mod 10 < 10" by simp
    note d = digit_byte [OF this]
    have eq: "nat_digits n = nat_digits (n div 10) @ [of_nat (48 + n mod 10)]"
      using False by (subst nat_digits.simps) simp
    have "10 * int (n div 10) + int (n mod 10) = int n"
      by (metis mult_div_mod_eq of_nat_add of_nat_mult of_nat_numeral)
    then show ?thesis
      using "1.IH" False d unfolding eq by (simp add: digits_val_append)
  qed
qed

lemma digits_val_stop: "list_all is_digit cs \<Longrightarrow> \<not> is_digit c \<Longrightarrow> digits_val acc (cs @ c # ds) = digits_val acc cs"
  by (simp add: digits_val_append)

lemma digit_no_space: "is_digit c \<Longrightarrow> \<not> is_space c \<and> c \<noteq> 0x2D \<and> c \<noteq> 0x2B"
  by (auto simp: is_digit_def is_space_def word_le_nat_alt)

text \<open>What is printed with a newline behind it is read back.\<close>

lemma atoi_decimal:
  assumes "- (2 ^ 31) \<le> n" and "n < 2 ^ 31"
  shows "atoi (decimal n @ [10]) = n"
proof -
  have nl: "\<not> is_digit 10" by (simp add: is_digit_def)
  have sv: "signed_val (dropWhile is_space (decimal n @ [10])) = n"
  proof (cases "n < 0")
    case True
    have "signed_val (0x2D # nat_digits (nat (- n)) @ [10]) = - digits_val 0 (nat_digits (nat (- n)) @ [10])"
      by (simp add: signed_val_def)
    also have "\<dots> = n"
      using True nat_digits_facts [of "nat (- n)"] nl by (simp add: digits_val_stop)
    finally show ?thesis
      using True by (simp add: decimal_def is_space_def)
  next
    case False
    obtain c cs where c: "nat_digits (nat n) = c # cs" "is_digit c"
      using nat_digits_facts [of "nat n"] by (cases "nat_digits (nat n)") auto
    have "signed_val (nat_digits (nat n) @ [10]) = digits_val 0 (nat_digits (nat n) @ [10])"
      using c digit_no_space [OF c(2)] by (simp add: signed_val_def)
    also have "\<dots> = n"
      using False nat_digits_facts [of "nat n"] nl by (simp add: digits_val_stop)
    finally show ?thesis
      using False c digit_no_space [OF c(2)] by (simp add: decimal_def)
  qed
  show ?thesis
    unfolding atoi_def atoll_def sv using assms
    by (simp add: to_int32_def signed_take_bit_int_eq_self)
qed

lemma nat_digits_length: "n < 10 ^ Suc k \<Longrightarrow> length (nat_digits n) \<le> Suc k"
proof (induction k arbitrary: n)
  case 0
  then show ?case by (subst nat_digits.simps) simp
next
  case (Suc k)
  have "n div 10 < 10 ^ Suc k"
    using Suc.prems by (simp add: div_less_iff_less_mult mult.commute)
  from Suc.IH [OF this] show ?case
    by (subst nat_digits.simps) simp
qed

lemma upto_newline_text:
  "list_all (\<lambda>c. c \<noteq> 10) cs \<Longrightarrow> upto_newline (cs @ [10]) = cs @ [10]"
  by (induction cs) auto

lemma digit_text: "list_all is_digit cs \<Longrightarrow> list_all (\<lambda>c. c \<noteq> 10 \<and> c \<noteq> 0) cs"
  by (induction cs) (auto simp: is_digit_def)

text \<open>A line with a number written by \<open>fprintf\<close> is what \<open>fgets\<close> reads, and \<open>atoi\<close> gives it back.\<close>

lemma fgets_decimal:
  assumes "- (2 ^ 31) \<le> n" and "n < 2 ^ 31" and "13 \<le> k"
  shows "fgets k buf (decimal n @ [10]) = decimal n @ [10]"
proof -
  have chars: "list_all (\<lambda>c. c \<noteq> 10 \<and> c \<noteq> 0) (decimal n)"
    using digit_text nat_digits_facts by (auto simp: decimal_def)
  have "nat (- n) < 10 ^ Suc 9" "nat n < 10 ^ Suc 9"
    using assms by simp_all
  then have "length (decimal n) \<le> 11"
    using nat_digits_length [of "nat (- n)" 9] nat_digits_length [of "nat n" 9] by (simp add: decimal_def)
  then have "take (k - 1) (decimal n @ [10]) = decimal n @ [10]"
    using assms(3) by simp
  moreover have "takeWhile (\<lambda>c. c \<noteq> 0) (decimal n @ [10]) = decimal n @ [10]"
    using chars by (simp add: list_all_iff)
  moreover have "upto_newline (decimal n @ [10]) = decimal n @ [10]"
    using chars by (intro upto_newline_text) (simp add: list_all_iff)
  ultimately show ?thesis
    by (simp add: fgets_def)
qed

end
