(* ===== verification/Cutstream.thy ===== *)
theory Cutstream
  imports Stdio
begin

text \<open>
  \<open>cutstream/cutstream.c\<close>: \<open>filepipe\<close>, which copies its input to the destination file and, each
  time the capacity of a volume is reached, writes the volume number, calls the program that
  burns the volume and starts the destination anew; and \<open>main\<close>. What surrounds the process is the
  record \<open>cut_sys\<close>: the environment, which files can be opened for writing, what
  \<open>system\<close> does to the file system (the script \<open>makeISO9660.sh\<close>, any function here), and how many
  bytes fit on the disk of the destination. A result \<open>None\<close> is a run that does not end.
\<close>

section \<open>Definitions\<close>

record cut_sys =
  cs_getenv :: "string \<Rightarrow> string option"
  cs_can_write :: "string \<Rightarrow> bool"
  cs_system :: "string \<Rightarrow> files \<Rightarrow> files"
  cs_quota :: nat

datatype cut_event =
    Error_Reading string
  | Maxcdsize_Is int
  | Error_Writing string
  | Cant_Open string
  | Error_Volno "string option"
  | Volno_Is int
  | Capacity_Kbytes int
  | Only_Read int int
  | Starting string
  | Capacity_Bytes int
  | Transferred string int

text \<open>The files, the calls of \<open>system\<close> with the files as they were at the call, and the output.\<close>

record cut_world =
  cw_files :: files
  cw_runs :: "(string \<times> files) list"
  cw_out :: "cut_event list"

text \<open>How the program stops: \<open>exit\<close>, a write past the end of \<open>data\<close>, the use of a closed stream.\<close>

datatype cut_stop = Cut_Exit int | Cut_Overrun | Cut_Dangling

text \<open>The variables of \<open>filepipe\<close>; \<open>cv_reopened\<close>: the stream passed by \<open>main\<close> has been closed.\<close>

record cut_vars =
  cv_ifp :: instream
  cv_capacity :: int
  cv_i :: int
  cv_total :: int
  cv_volno :: int
  cv_reopened :: bool

definition NAMELENGTH :: nat where "NAMELENGTH = 254"
definition MAXIOSIZE :: int where "MAXIOSIZE = 4096"

definition say :: "cut_event \<Rightarrow> cut_world \<Rightarrow> cut_world" where
  "say e w = w\<lparr>cw_out := cw_out w @ [e]\<rparr>"

definition content :: "files \<Rightarrow> string \<Rightarrow> byte list" where
  "content fs name = (case fs name of Some c \<Rightarrow> c | None \<Rightarrow> [])"

text \<open>The branch \<open>if (i == capacity)\<close>.\<close>

definition cut_volume ::
  "cut_sys \<Rightarrow> int \<Rightarrow> string \<Rightarrow> string \<Rightarrow> string \<Rightarrow> cut_vars \<Rightarrow> cut_world \<Rightarrow>
    (cut_stop \<times> cut_world) + (cut_vars \<times> cut_world)" where
  "cut_volume sys maxcdsize prg dstname volno_file v w =
     (let w = say (Starting prg) w;
          volno = to_int32 (cv_volno v + 1)
      in if \<not> cs_can_write sys volno_file then Inl (Cut_Exit 1, say (Error_Volno (Some volno_file)) w)
         else
           let w = w\<lparr>cw_files := (cw_files w)(volno_file \<mapsto> decimal volno @ [10])\<rparr>;
               w = w\<lparr>cw_runs := cw_runs w @ [(prg, cw_files w)],
                     cw_files := cs_system sys prg (cw_files w)\<rparr>
           in if \<not> cs_can_write sys dstname then Inl (Cut_Exit 10, say (Error_Writing dstname) w)
              else
                let w = w\<lparr>cw_files := (cw_files w)(dstname \<mapsto> [])\<rparr>;
                    capacity = to_int64 (maxcdsize * 1024);
                    w = say (Capacity_Bytes (to_int32 capacity)) w
                in Inr (v\<lparr>cv_volno := volno, cv_capacity := capacity, cv_total := cv_total v + cv_i v,
                          cv_i := 0, cv_reopened := True\<rparr>, w))"

text \<open>
  The loop \<open>while (!feof (ifp))\<close>. A negative size given to \<open>fread\<close> becomes a huge \<open>size_t\<close>;
  \<open>data\<close> has room for \<open>MAXIOSIZE\<close> bytes.
\<close>

partial_function (option) cut_loop ::
  "cut_sys \<Rightarrow> int \<Rightarrow> string \<Rightarrow> string \<Rightarrow> string \<Rightarrow> cut_vars \<Rightarrow> cut_world \<Rightarrow>
    ((cut_stop \<times> cut_world) + (cut_vars \<times> cut_world)) option" where
  "cut_loop sys maxcdsize prg dstname volno_file v w =
     (if in_eof (cv_ifp v) then Some (Inr (v, w))
      else
        let trialReadSize = (if MAXIOSIZE > cv_capacity v - cv_i v then cv_capacity v - cv_i v else MAXIOSIZE);
            (data, ifp) = fread (nat (trialReadSize mod 2 ^ 64)) (cv_ifp v);
            numRead = int (length data)
        in if numRead > MAXIOSIZE then Some (Inl (Cut_Overrun, w))
           else (case fwrite_all (cs_quota sys) (content (cw_files w) dstname) data of
               None \<Rightarrow> None
             | Some c \<Rightarrow>
                 let v = v\<lparr>cv_ifp := ifp, cv_i := cv_i v + numRead\<rparr>;
                     w = w\<lparr>cw_files := (cw_files w)(dstname \<mapsto> c)\<rparr>;
                     w = (if numRead < MAXIOSIZE then say (Only_Read (to_int32 numRead) (to_int32 (cv_i v))) w else w)
                 in if cv_i v = cv_capacity v then
                      (case cut_volume sys maxcdsize prg dstname volno_file v w of
                         Inl e \<Rightarrow> Some (Inl e)
                       | Inr (v, w) \<Rightarrow> cut_loop sys maxcdsize prg dstname volno_file v w)
                    else cut_loop sys maxcdsize prg dstname volno_file v w))"

text \<open>
  \<open>filepipe (ifp, ofp)\<close>, where \<open>ofp\<close> is open on the destination. \<open>total\<close> and \<open>volno_l\<close> are
  uninitialised. \<open>fopen\<close> of the null pointer fails.
\<close>

definition filepipe ::
  "cut_sys \<Rightarrow> int \<Rightarrow> int \<Rightarrow> byte list \<Rightarrow> instream \<Rightarrow> cut_world \<Rightarrow>
    ((cut_stop \<times> cut_world) + (bool \<times> cut_world)) option" where
  "filepipe sys maxcdsize total' volno_l ifp w =
     (let prg = (case cs_getenv sys ''MAKE_ISO9660'' of Some p \<Rightarrow> p | None \<Rightarrow> ''makeISO9660.sh'');
          dstname = (case cs_getenv sys ''DESTINATION'' of Some d \<Rightarrow> d | None \<Rightarrow> ''Output'')
      in case cs_getenv sys ''VOLNO_FILE'' of
           None \<Rightarrow> Some (Inl (Cut_Exit 1, say (Error_Volno None) w))
         | Some volno_file \<Rightarrow>
             (case cw_files w volno_file of
                None \<Rightarrow> Some (Inl (Cut_Exit 1, say (Error_Volno (Some volno_file)) w))
              | Some c \<Rightarrow>
                  let volno = atoi (fgets NAMELENGTH volno_l c);
                      w = say (Volno_Is volno) w;
                      capacity = (case cs_getenv sys ''CAPACITY'' of
                          None \<Rightarrow> maxcdsize
                        | Some cap \<Rightarrow> atoll (bytes_of cap));
                      w = say (Capacity_Kbytes capacity) w;
                      v = \<lparr>cv_ifp = ifp, cv_capacity = to_int64 (capacity * 1024), cv_i = 0,
                           cv_total = total', cv_volno = volno, cv_reopened = False\<rparr>
                  in (case cut_loop sys maxcdsize prg dstname volno_file v w of
                        None \<Rightarrow> None
                      | Some (Inl e) \<Rightarrow> Some (Inl e)
                      | Some (Inr (v, w)) \<Rightarrow>
                          Some (Inr (cv_reopened v,
                            say (Transferred dstname (to_int32 (cv_total v + cv_i v))) w)))))"

text \<open>
  The arguments of \<open>main\<close>, one after the other. \<open>closed\<close>: \<open>dst\<close> has been closed by an earlier
  call of \<open>filepipe\<close>; passing it on is the use of a closed stream.
\<close>

fun cut_args ::
  "cut_sys \<Rightarrow> int \<Rightarrow> int \<Rightarrow> byte list \<Rightarrow> bool \<Rightarrow> string list \<Rightarrow> cut_world \<Rightarrow>
    ((cut_stop \<times> cut_world) + (bool \<times> cut_world)) option" where
  "cut_args sys maxcdsize total' volno_l closed [] w = Some (Inr (closed, w))"
| "cut_args sys maxcdsize total' volno_l closed (a # argv) w =
     (case cw_files w a of
        None \<Rightarrow> Some (Inl (Cut_Exit 1, say (Cant_Open a) w))
      | Some c \<Rightarrow>
          if closed then Some (Inl (Cut_Dangling, w))
          else (case filepipe sys maxcdsize total' volno_l (fopen_r c) w of
              None \<Rightarrow> None
            | Some (Inl e) \<Rightarrow> Some (Inl e)
            | Some (Inr (closed, w)) \<Rightarrow> cut_args sys maxcdsize total' volno_l closed argv w))"

text \<open>\<open>main\<close>, with the arguments behind the program name; \<open>maxcdsize_l\<close> is uninitialised.\<close>

definition cutstream_main ::
  "cut_sys \<Rightarrow> int \<Rightarrow> byte list \<Rightarrow> byte list \<Rightarrow> byte list \<Rightarrow> string list \<Rightarrow> files \<Rightarrow> (cut_stop \<times> cut_world) option" where
  "cutstream_main sys total' volno_l maxcdsize_l inp argv fs =
     (let w = \<lparr>cw_files = fs, cw_runs = [], cw_out = []\<rparr>;
          cutstream_h = ''/tmp/cutstream.h''
      in case fs cutstream_h of
           None \<Rightarrow> Some (Cut_Exit 1, say (Error_Reading cutstream_h) w)
         | Some c \<Rightarrow>
             let maxcdsize = atoll (fgets NAMELENGTH maxcdsize_l c);
                 w = say (Maxcdsize_Is (to_int32 maxcdsize)) w;
                 dstname = (case cs_getenv sys ''DESTINATION'' of Some d \<Rightarrow> d | None \<Rightarrow> ''Output'')
             in if \<not> cs_can_write sys dstname then Some (Cut_Exit 1, say (Error_Writing dstname) w)
                else
                  let w = w\<lparr>cw_files := (cw_files w)(dstname \<mapsto> [])\<rparr>
                  in (case (if argv = [] then filepipe sys maxcdsize total' volno_l (fopen_r inp) w
                            else cut_args sys maxcdsize total' volno_l False argv w) of
                        None \<Rightarrow> None
                      | Some (Inl e) \<Rightarrow> Some e
                      | Some (Inr (closed, w)) \<Rightarrow>
                          if closed then Some (Cut_Dangling, w) else Some (Cut_Exit 0, w)))"

text \<open>
  What the cutting promises, as a specification: the volumes of an input when the first one has
  room for \<open>c\<close> bytes and all others for \<open>m\<close>; the last volume is the one that is not full.
\<close>

function volumes :: "nat \<Rightarrow> nat \<Rightarrow> byte list \<Rightarrow> byte list list" where
  "volumes c m xs = (if 0 < c \<and> c \<le> length xs then take c xs # volumes m m (drop c xs) else [xs])"
  by pat_completeness auto
termination
  by (relation "measure (\<lambda>(c, m, xs). length xs)") auto

declare volumes.simps [simp del]

section \<open>The specification\<close>

lemma volumes_step: "0 < c \<Longrightarrow> c \<le> length xs \<Longrightarrow> volumes c m xs = take c xs # volumes m m (drop c xs)"
  by (simp add: volumes.simps)

lemma volumes_last: "length xs < c \<Longrightarrow> volumes c m xs = [xs]"
  by (simp add: volumes.simps)

lemma volumes_not_nil [simp]: "volumes c m xs \<noteq> []"
  by (subst volumes.simps) simp

lemma concat_volumes: "concat (volumes c m xs) = xs"
proof (induction c m xs rule: volumes.induct)
  case (1 c m xs)
  show ?case
  proof (cases "0 < c \<and> c \<le> length xs")
    case True
    with 1 have "concat (volumes m m (drop c xs)) = drop c xs" by simp
    with True show ?thesis by (simp add: volumes_step)
  qed (subst volumes.simps, auto)
qed

lemma volumes_lengths:
  assumes "0 < c" and "0 < m"
  shows "length (last (volumes c m xs)) < (if length (volumes c m xs) = 1 then c else m) \<and>
    (\<forall>j < length (volumes c m xs) - 1. length (volumes c m xs ! j) = (if j = 0 then c else m))"
  using assms
proof (induction c m xs rule: volumes.induct)
  case (1 c m xs)
  show ?case
  proof (cases "c \<le> length xs")
    case True
    let ?vs = "volumes m m (drop c xs)"
    have vs: "volumes c m xs = take c xs # ?vs"
      using True 1(2) by (simp add: volumes_step)
    have IH: "length (last ?vs) < m" "\<forall>j < length ?vs - 1. length (?vs ! j) = m"
      using 1 True by (auto split: if_splits)
    have "length ?vs \<noteq> 0" by simp
    then show ?thesis
      using IH True unfolding vs by (auto simp: nth_Cons')
  next
    case False
    then show ?thesis by (simp add: volumes_last)
  qed
qed

section \<open>The loop implements the specification\<close>

lemma to_int32_add: "to_int32 (to_int32 a + b) = to_int32 (a + b)"
  unfolding to_int32_def by (metis signed_take_bit_add signed_take_bit_signed_take_bit min.idem)

lemma content_upd [simp]: "content (fs(name \<mapsto> c)) name' = (if name' = name then c else content fs name')"
  by (simp add: content_def)

text \<open>What every lemma below assumes of the surroundings: files can be opened, two names differ.\<close>

definition cut_ready :: "cut_sys \<Rightarrow> int \<Rightarrow> nat \<Rightarrow> string \<Rightarrow> string \<Rightarrow> bool" where
  "cut_ready sys maxcdsize m dst vf \<longleftrightarrow>
     (\<forall>n. cs_can_write sys n) \<and> dst \<noteq> vf \<and> 0 < m \<and> m \<le> cs_quota sys \<and>
     int m = maxcdsize * 1024 \<and> int m < 2 ^ 63"

text \<open>The state inside a volume of \<open>c\<close> bytes, of which \<open>D\<close> are written and \<open>r\<close> is still to be read.\<close>

definition in_volume :: "string \<Rightarrow> nat \<Rightarrow> byte list \<Rightarrow> byte list \<Rightarrow> cut_vars \<Rightarrow> cut_world \<Rightarrow> bool" where
  "in_volume dst c D r v w \<longleftrightarrow>
     \<not> in_eof (cv_ifp v) \<and> in_rest (cv_ifp v) = r \<and> cv_i v = int (length D) \<and> cv_capacity v = int c \<and>
     length D < c \<and> int c < 2 ^ 63 \<and> content (cw_files w) dst = D"

lemma cut_loop_step:
  assumes "in_volume dst c D r v w" and "bs = take (min 4096 (c - length D)) r"
    and "eof = (length r < min 4096 (c - length D))"
    and "v1 = v\<lparr>cv_ifp := \<lparr>in_rest = drop (length bs) r, in_eof = eof\<rparr>, cv_i := int (length (D @ bs))\<rparr>"
    and "length (D @ bs) \<le> cs_quota sys"
  shows "\<exists>w1. cw_files w1 = (cw_files w)(dst \<mapsto> D @ bs) \<and> cw_runs w1 = cw_runs w \<and>
    cut_loop sys maxcd prg dst vf v w =
      (if length (D @ bs) = c then
         (case cut_volume sys maxcd prg dst vf v1 w1 of
            Inl e \<Rightarrow> Some (Inl e) | Inr (v, w) \<Rightarrow> cut_loop sys maxcd prg dst vf v w)
       else cut_loop sys maxcd prg dst vf v1 w1)"
proof -
  have iv: "\<not> in_eof (cv_ifp v)" "in_rest (cv_ifp v) = r" "cv_i v = int (length D)" "cv_capacity v = int c"
    "length D < c" "int c < 2 ^ 63" "content (cw_files w) dst = D"
    using assms(1) by (simp_all add: in_volume_def)
  define t where "t = min 4096 (c - length D)"
  have t: "0 < t" "t \<le> 4096" "t \<le> c - length D" "(if MAXIOSIZE > int c - int (length D) then int c - int (length D) else MAXIOSIZE) = int t"
    using iv(5) by (auto simp: t_def MAXIOSIZE_def min_def)
  have nt: "nat (int t mod 2 ^ 64) = t"
    using t(2) by simp
  have lb: "length bs \<le> t" and bs: "bs = take t r" "drop (length bs) r = drop t r"
    using assms(2) by (simp_all add: t_def min_def)
  have wr: "fwrite_all (cs_quota sys) D bs = Some (D @ bs)"
    using assms(5) by (intro fwrite_all_fits) simp
  have rd: "fread t (cv_ifp v) = (bs, \<lparr>in_rest = drop (length bs) r, in_eof = eof\<rparr>)"
    using iv(1,2) assms(3) unfolding bs(2) by (simp add: fread_def bs(1) t_def)
  have small: "(int (length bs) > MAXIOSIZE) = False"
    using lb t(2) by (simp add: MAXIOSIZE_def)
  have sum: "int (length D) + int (length bs) = int (length (D @ bs))" by simp
  have upd: "cv_i (v\<lparr>cv_ifp := x, cv_i := y\<rparr>) = y" "cv_capacity (v\<lparr>cv_ifp := x, cv_i := y\<rparr>) = int c" for x y
    using iv(4) by simp_all
  let ?w = "w\<lparr>cw_files := (cw_files w)(dst \<mapsto> D @ bs)\<rparr>"
  let ?w1 = "if int (length bs) < MAXIOSIZE
    then say (Only_Read (to_int32 (int (length bs))) (to_int32 (int (length (D @ bs))))) ?w else ?w"
  have "cut_loop sys maxcd prg dst vf v w =
      (if length (D @ bs) = c then
         (case cut_volume sys maxcd prg dst vf v1 ?w1 of
            Inl e \<Rightarrow> Some (Inl e) | Inr (v, w) \<Rightarrow> cut_loop sys maxcd prg dst vf v w)
       else cut_loop sys maxcd prg dst vf v1 ?w1)"
    by (subst cut_loop.simps)
      (simp only: iv(1,3,4,7) t(4) nt rd wr small sum Let_def assms(4) prod.case option.case if_False
        upd of_nat_eq_iff)
  then show ?thesis
    by (intro exI [of _ ?w1]) (simp add: say_def)
qed

text \<open>The cut itself.\<close>

lemma cut_volume_ready:
  assumes "cut_ready sys maxcd m dst vf"
  shows "\<exists>v' w' fs. cut_volume sys maxcd prg dst vf v w = Inr (v', w') \<and>
    v' = v\<lparr>cv_volno := to_int32 (cv_volno v + 1), cv_capacity := int m,
      cv_total := cv_total v + cv_i v, cv_i := 0, cv_reopened := True\<rparr> \<and>
    cw_runs w' = cw_runs w @ [(prg, fs)] \<and> content (cw_files w') dst = [] \<and>
    fs = (cw_files w)(vf \<mapsto> decimal (to_int32 (cv_volno v + 1)) @ [10])"
proof -
  have "to_int64 (maxcd * 1024) = int m"
    using assms by (simp add: cut_ready_def to_int64_def signed_take_bit_int_eq_self)
  then show ?thesis
    using assms by (simp add: cut_volume_def cut_ready_def Let_def say_def content_def)
qed

text \<open>What a run of the loop has done in the end.\<close>

definition cut_done ::
  "string \<Rightarrow> string \<Rightarrow> string \<Rightarrow> byte list list \<Rightarrow> int \<Rightarrow> cut_vars \<Rightarrow> cut_world \<Rightarrow> cut_vars \<Rightarrow> cut_world \<Rightarrow> bool" where
  "cut_done prg dst vf vs n v w v' w' \<longleftrightarrow>
     (\<exists>runs. cw_runs w' = cw_runs w @ runs \<and> length runs = length vs - 1 \<and>
        map fst runs = replicate (length vs - 1) prg \<and>
        map (\<lambda>(p, fs). content fs dst) runs = butlast vs \<and>
        map (\<lambda>(p, fs). content fs vf) runs
          = map (\<lambda>j. decimal (to_int32 (cv_volno v + 1 + int j)) @ [10]) [0..<length vs - 1] \<and>
        cv_reopened v' = (cv_reopened v \<or> runs \<noteq> [])) \<and>
     content (cw_files w') dst = last vs \<and>
     cv_total v' + cv_i v' = cv_total v + n"

lemma cut_done_cut:
  assumes "cut_done prg dst vf vs n v1 w1 v' w'" and "cw_runs w1 = cw_runs w @ [(prg, fs)]"
    and "content fs dst = b" and "content fs vf = decimal (to_int32 (cv_volno v + 1)) @ [10]"
    and "cv_volno v1 = to_int32 (cv_volno v + 1)" and "cv_total v1 + n = cv_total v + n'"
    and "cv_reopened v1" and "vs \<noteq> []"
  shows "cut_done prg dst vf (b # vs) n' v w v' w'"
proof -
  obtain runs where r: "cw_runs w' = cw_runs w1 @ runs" "length runs = length vs - 1"
    "map fst runs = replicate (length vs - 1) prg"
    "map (\<lambda>(p, fs). content fs dst) runs = butlast vs"
    "map (\<lambda>(p, fs). content fs vf) runs
      = map (\<lambda>j. decimal (to_int32 (cv_volno v1 + 1 + int j)) @ [10]) [0..<length vs - 1]"
    "cv_reopened v'" "content (cw_files w') dst = last vs" "cv_total v' + cv_i v' = cv_total v1 + n"
    using assms(1,7) by (auto simp: cut_done_def)
  have len: "length (b # vs) - 1 = Suc (length vs - 1)"
    using assms(8) by (cases vs) simp_all
  have vol: "to_int32 (cv_volno v1 + 1 + int j) = to_int32 (cv_volno v + 1 + int (Suc j))" for j
    unfolding assms(5) add.assoc to_int32_add by (simp add: algebra_simps)
  have "map (\<lambda>(p, fs). content fs vf) ((prg, fs) # runs)
      = map (\<lambda>j. decimal (to_int32 (cv_volno v + 1 + int j)) @ [10]) [0..<length (b # vs) - 1]"
    unfolding len using r(5) assms(4) by (simp add: vol upt_conv_Cons map_Suc_upt [symmetric] del: upt_Suc)
  then show ?thesis
    unfolding cut_done_def len
    by (intro conjI exI [of _ "(prg, fs) # runs"]) (use r assms len in \<open>simp_all add: replicate_Suc [symmetric] del: replicate_Suc\<close>)
qed

lemma cut_loop_volumes:
  assumes "cut_ready sys maxcd m dst vf" and "in_volume dst c D r v w" and "c \<le> cs_quota sys"
  shows "\<exists>v' w'. cut_loop sys maxcd prg dst vf v w = Some (Inr (v', w')) \<and>
    cut_done prg dst vf (volumes c m (D @ r)) (int (length (D @ r))) v w v' w'"
  using assms(2,3)
proof (induction "length r" arbitrary: c D r v w rule: less_induct)
  case less
  define t where "t = min 4096 (c - length D)"
  define bs where "bs = take t r"
  define eof where "eof = (length r < t)"
  define v1 where "v1 = v\<lparr>cv_ifp := \<lparr>in_rest = drop (length bs) r, in_eof = eof\<rparr>, cv_i := int (length (D @ bs))\<rparr>"
  have iv: "cv_i v = int (length D)" "cv_capacity v = int c" "length D < c" "c \<le> cs_quota sys" "int c < 2 ^ 63"
    using less.prems by (simp_all add: in_volume_def)
  have t: "0 < t" "t \<le> c - length D" "length bs \<le> t" using iv(3) by (auto simp: t_def bs_def)
  have room: "length (D @ bs) \<le> cs_quota sys" using t(2,3) iv(3,4) by simp
  obtain w1 where w1: "cw_files w1 = (cw_files w)(dst \<mapsto> D @ bs)" "cw_runs w1 = cw_runs w"
    and step: "cut_loop sys maxcd prg dst vf v w =
      (if length (D @ bs) = c then
         (case cut_volume sys maxcd prg dst vf v1 w1 of
            Inl e \<Rightarrow> Some (Inl e) | Inr (v, w) \<Rightarrow> cut_loop sys maxcd prg dst vf v w)
       else cut_loop sys maxcd prg dst vf v1 w1)"
    using cut_loop_step [OF less.prems(1) bs_def [unfolded t_def] eof_def [unfolded t_def] v1_def room] by blast
  consider (cut) "length (D @ bs) = c" | (more) "length (D @ bs) \<noteq> c" "\<not> eof" | (last) "length (D @ bs) \<noteq> c" "eof"
    by blast
  then show ?case
  proof cases
    case last
    then have r: "bs = r" "length (D @ r) < c"
      using t by (auto simp: bs_def eof_def)
    have "cut_loop sys maxcd prg dst vf v1 w1 = Some (Inr (v1, w1))"
      using last(2) by (subst cut_loop.simps) (simp add: v1_def)
    moreover have "cut_done prg dst vf [D @ r] (int (length (D @ r))) v w v1 w1"
      using w1 r iv(1) by (simp add: cut_done_def v1_def)
    ultimately show ?thesis
      using step last(1) by (simp add: volumes_last [OF r(2)])
  next
    case more
    then have lb: "length bs = t" by (simp add: bs_def eof_def)
    then have sh: "length (drop (length bs) r) < length r"
      using t(1) more(2) by (simp add: eof_def)
    have "in_volume dst c (D @ bs) (drop (length bs) r) v1 w1"
      using less.prems w1(1) more t iv by (simp add: in_volume_def v1_def)
    from less.hyps [OF sh this iv(4)] obtain v' w' where
      "cut_loop sys maxcd prg dst vf v1 w1 = Some (Inr (v', w'))"
      "cut_done prg dst vf (volumes c m (D @ r)) (int (length (D @ r))) v1 w1 v' w'"
      using lb by (auto simp: bs_def)
    then show ?thesis
      using step more(1) w1(2) by (simp add: cut_done_def v1_def)
  next
    case cut
    then have lb: "length bs = t" "t = c - length D" using t iv(3) by auto
    then have ne: "\<not> eof" by (auto simp: eof_def bs_def)
    then have sh: "length (drop (length bs) r) < length r"
      using t(1) lb by (simp add: eof_def)
    obtain v2 w2 fs where cv: "cut_volume sys maxcd prg dst vf v1 w1 = Inr (v2, w2)"
      "v2 = v1\<lparr>cv_volno := to_int32 (cv_volno v1 + 1), cv_capacity := int m,
        cv_total := cv_total v1 + cv_i v1, cv_i := 0, cv_reopened := True\<rparr>"
      "cw_runs w2 = cw_runs w1 @ [(prg, fs)]" "content (cw_files w2) dst = []"
      "fs = (cw_files w1)(vf \<mapsto> decimal (to_int32 (cv_volno v1 + 1)) @ [10])"
      using cut_volume_ready [OF assms(1)] by blast
    have "in_volume dst m [] (drop (length bs) r) v2 w2"
      using assms(1) cv(2,4) ne by (simp add: in_volume_def cut_ready_def v1_def)
    moreover have "m \<le> cs_quota sys" using assms(1) by (simp add: cut_ready_def)
    ultimately obtain v' w' where rest:
      "cut_loop sys maxcd prg dst vf v2 w2 = Some (Inr (v', w'))"
      "cut_done prg dst vf (volumes m m (drop t r)) (int (length (drop t r))) v2 w2 v' w'"
      using less.hyps [OF sh, of m "[]" v2 w2] lb(1) by auto
    have "volumes c m ((D @ bs) @ drop t r) = (D @ bs) # volumes m m (drop t r)"
      using cut iv(3) by (subst volumes_step) auto
    then have vols: "volumes c m (D @ r) = (D @ bs) # volumes m m (drop t r)"
      by (simp add: bs_def)
    have "dst \<noteq> vf" using assms(1) by (simp add: cut_ready_def)
    moreover have "length r = t + length (drop t r)"
      using ne by (simp add: eof_def)
    ultimately have "cut_done prg dst vf ((D @ bs) # volumes m m (drop t r)) (int (length (D @ r))) v w v' w'"
      using cv w1 lb iv(1)
      by (intro cut_done_cut [OF rest(2), where fs = fs]) (simp_all add: v1_def content_def)
    then show ?thesis
      using step cut cv(1) rest(1) vols by simp
  qed
qed

section \<open>Runs that do not end or go wrong\<close>

text \<open>With a volume size of 0 the loop burns empty volumes for ever.\<close>

lemma cut_loop_zero:
  assumes "\<forall>n. cs_can_write sys n" and "\<not> in_eof (cv_ifp v)" and "cv_capacity v = 0" and "cv_i v = 0"
  shows "cut_loop sys 0 prg dst vf v w = None"
proof (rule ccontr)
  assume "cut_loop sys 0 prg dst vf v w \<noteq> None"
  then obtain r where ret: "cut_loop sys 0 prg dst vf v w = Some r" by auto
  let ?P = "\<lambda>sys maxcd v. \<not> ((\<forall>n. cs_can_write sys n) \<and> maxcd = (0 :: int) \<and> \<not> in_eof (cv_ifp v) \<and>
    cv_capacity v = 0 \<and> cv_i v = 0)"
  have "?P sys 0 v"
  proof (rule cut_loop.raw_induct [where P = "\<lambda>sys maxcd prg dst vf v w r. ?P sys maxcd v", OF _ ret], goal_cases)
    case (1 loop sys maxcd prg dst vf v w r)
    show ?case
    proof
      assume st: "(\<forall>n. cs_can_write sys n) \<and> maxcd = 0 \<and> \<not> in_eof (cv_ifp v) \<and> cv_capacity v = 0 \<and> cv_i v = 0"
      have wr: "fwrite_all q c [] = Some c" for q c by (subst fwrite_all.simps) simp
      have "\<exists>v' w'. loop sys maxcd prg dst vf v' w' = Some r \<and>
          \<not> in_eof (cv_ifp v') \<and> cv_capacity v' = 0 \<and> cv_i v' = 0"
        using 1(2) st
        by (auto simp: fread_def MAXIOSIZE_def wr cut_volume_def Let_def to_int64_def)
      with 1(1) st show False by blast
    qed
  qed
  with assms show False by blast
qed

text \<open>With a disk smaller than the volume and than the input, the loop does not end either.\<close>

lemma cut_loop_disk_full:
  assumes "in_volume dst c D r v w" and "cs_quota sys < c" and "length D \<le> cs_quota sys"
    and "cs_quota sys < length D + length r"
  shows "cut_loop sys maxcd prg dst vf v w = None"
  using assms
proof (induction "length r" arbitrary: D r v w rule: less_induct)
  case less
  define t where "t = min 4096 (c - length D)"
  define bs where "bs = take t r"
  define eof where "eof = (length r < t)"
  define v1 where "v1 = v\<lparr>cv_ifp := \<lparr>in_rest = drop (length bs) r, in_eof = eof\<rparr>, cv_i := int (length (D @ bs))\<rparr>"
  have iv: "\<not> in_eof (cv_ifp v)" "in_rest (cv_ifp v) = r" "cv_i v = int (length D)" "cv_capacity v = int c"
    "length D < c" "int c < 2 ^ 63" "content (cw_files w) dst = D"
    using less.prems(1) by (simp_all add: in_volume_def)
  have t: "0 < t" "t \<le> 4096" "t \<le> c - length D" using iv(5) by (auto simp: t_def)
  show ?case
  proof (cases "length (D @ bs) \<le> cs_quota sys")
    case True
    then have ne: "\<not> eof" "length bs = t"
      using less.prems(4) by (auto simp: bs_def eof_def)
    then have sh: "length (drop (length bs) r) < length r"
      using t(1) by (simp add: eof_def)
    obtain w1 where w1: "cw_files w1 = (cw_files w)(dst \<mapsto> D @ bs)"
      and step: "cut_loop sys maxcd prg dst vf v w =
        (if length (D @ bs) = c then
           (case cut_volume sys maxcd prg dst vf v1 w1 of
              Inl e \<Rightarrow> Some (Inl e) | Inr (v, w) \<Rightarrow> cut_loop sys maxcd prg dst vf v w)
         else cut_loop sys maxcd prg dst vf v1 w1)"
      using cut_loop_step [OF less.prems(1) bs_def [unfolded t_def] eof_def [unfolded t_def] v1_def True] by blast
    have "in_volume dst c (D @ bs) (drop (length bs) r) v1 w1"
      using less.prems(1,2) w1 True ne iv by (simp add: in_volume_def v1_def)
    moreover have "cs_quota sys < length (D @ bs) + length (drop (length bs) r)"
      using less.prems(4) ne by (simp add: eof_def)
    ultimately have "cut_loop sys maxcd prg dst vf v1 w1 = None"
      using less.hyps [OF sh] True less.prems(2) by blast
    then show ?thesis
      using step True less.prems(2) by simp
  next
    case False
    have ts: "(if MAXIOSIZE > int c - int (length D) then int c - int (length D) else MAXIOSIZE) = int t"
      using iv(5) by (auto simp: t_def MAXIOSIZE_def min_def)
    have nt: "nat (int t mod 2 ^ 64) = t" using t(2) by simp
    have rd: "fread t (cv_ifp v) = (bs, \<lparr>in_rest = drop t r, in_eof = eof\<rparr>)"
      using iv(1,2) by (simp add: fread_def bs_def eof_def)
    have small: "(int (length bs) > MAXIOSIZE) = False"
      using t(2) by (simp add: MAXIOSIZE_def bs_def)
    have "fwrite_all (cs_quota sys) D bs = None"
      using less.prems(3) False by (intro fwrite_all_full) simp_all
    then show ?thesis
      by (subst cut_loop.simps)
        (simp only: iv(1,3,4,7) ts nt rd small Let_def prod.case option.case if_False)
  qed
qed

section \<open>Properties\<close>

text \<open>The settings of a call of \<open>filepipe\<close>, as the theorems name them.\<close>

definition dst_of :: "cut_sys \<Rightarrow> string" where
  "dst_of sys = (case cs_getenv sys ''DESTINATION'' of Some d \<Rightarrow> d | None \<Rightarrow> ''Output'')"

definition prg_of :: "cut_sys \<Rightarrow> string" where
  "prg_of sys = (case cs_getenv sys ''MAKE_ISO9660'' of Some p \<Rightarrow> p | None \<Rightarrow> ''makeISO9660.sh'')"

definition capacity_kb :: "cut_sys \<Rightarrow> int \<Rightarrow> int" where
  "capacity_kb sys maxcdsize =
     (case cs_getenv sys ''CAPACITY'' of None \<Rightarrow> maxcdsize | Some cap \<Rightarrow> atoll (bytes_of cap))"

lemma filepipe_unfold:
  assumes "cs_getenv sys ''VOLNO_FILE'' = Some vf" and "cw_files w vf = Some vc"
    and "volno = atoi (fgets NAMELENGTH volno_l vc)" and "cap = capacity_kb sys maxcd"
  shows "filepipe sys maxcd tot volno_l ifp w =
    (case cut_loop sys maxcd (prg_of sys) (dst_of sys) vf
        \<lparr>cv_ifp = ifp, cv_capacity = to_int64 (cap * 1024), cv_i = 0, cv_total = tot,
         cv_volno = volno, cv_reopened = False\<rparr> (say (Capacity_Kbytes cap) (say (Volno_Is volno) w)) of
       None \<Rightarrow> None
     | Some (Inl e) \<Rightarrow> Some (Inl e)
     | Some (Inr (v, w)) \<Rightarrow>
         Some (Inr (cv_reopened v, say (Transferred (dst_of sys) (to_int32 (cv_total v + cv_i v))) w)))"
  unfolding assms(3,4) filepipe_def prg_of_def dst_of_def capacity_kb_def Let_def
  by (simp add: assms(1,2))

lemma filepipe_volumes:
  assumes "cs_getenv sys ''VOLNO_FILE'' = Some vf" and "cw_files w vf = Some vc"
    and "cut_ready sys maxcd m (dst_of sys) vf" and "content (cw_files w) (dst_of sys) = []"
    and "int c = capacity_kb sys maxcd * 1024" and "0 < c" and "c \<le> cs_quota sys" and "int c < 2 ^ 63"
    and "vs = volumes c m inp" and "volno = atoi (fgets NAMELENGTH volno_l vc)"
  shows "\<exists>closed w' runs. filepipe sys maxcd tot volno_l (fopen_r inp) w = Some (Inr (closed, w')) \<and>
    cw_runs w' = cw_runs w @ runs \<and> map fst runs = replicate (length vs - 1) (prg_of sys) \<and>
    map (\<lambda>(p, fs). content fs (dst_of sys)) runs = butlast vs \<and>
    content (cw_files w') (dst_of sys) = last vs \<and>
    map (\<lambda>(p, fs). content fs vf) runs
      = map (\<lambda>j. decimal (to_int32 (volno + 1 + int j)) @ [10]) [0..<length vs - 1] \<and>
    closed = (length vs \<noteq> 1)"
proof -
  define w1 where "w1 = say (Capacity_Kbytes (capacity_kb sys maxcd)) (say (Volno_Is volno) w)"
  define v where "v = \<lparr>cv_ifp = fopen_r inp, cv_capacity = int c, cv_i = 0, cv_total = tot,
    cv_volno = volno, cv_reopened = False\<rparr>"
  have cap: "to_int64 (capacity_kb sys maxcd * 1024) = int c"
    unfolding assms(5) [symmetric] using assms(8) by (simp add: to_int64_def signed_take_bit_int_eq_self)
  have "in_volume (dst_of sys) c [] inp v w1"
    using assms(4,6,8) by (simp add: in_volume_def v_def w1_def say_def fopen_r_def)
  from cut_loop_volumes [OF assms(3) this assms(7), of "prg_of sys"] obtain v' w' where run:
    "cut_loop sys maxcd (prg_of sys) (dst_of sys) vf v w1 = Some (Inr (v', w'))"
    "cut_done (prg_of sys) (dst_of sys) vf vs (int (length inp)) v w1 v' w'"
    using assms(9) by auto
  obtain runs where r: "cw_runs w' = cw_runs w @ runs" "length runs = length vs - 1"
    "map fst runs = replicate (length vs - 1) (prg_of sys)"
    "map (\<lambda>(p, fs). content fs (dst_of sys)) runs = butlast vs"
    "map (\<lambda>(p, fs). content fs vf) runs
      = map (\<lambda>j. decimal (to_int32 (volno + 1 + int j)) @ [10]) [0..<length vs - 1]"
    "cv_reopened v' = (runs \<noteq> [])" "content (cw_files w') (dst_of sys) = last vs"
    using run(2) by (auto simp: cut_done_def v_def w1_def say_def)
  have "vs \<noteq> []" using assms(9) by simp
  then have "(runs \<noteq> []) = (length vs \<noteq> 1)"
    using r(2) by (cases vs) auto
  moreover define w2 where "w2 = say (Transferred (dst_of sys) (to_int32 (cv_total v' + cv_i v'))) w'"
  moreover have "filepipe sys maxcd tot volno_l (fopen_r inp) w = Some (Inr (cv_reopened v', w2))"
    unfolding filepipe_unfold [OF assms(1,2,10) refl] cap w2_def
    using run(1) by (simp add: v_def w1_def)
  ultimately show ?thesis
    using r by (intro exI [of _ "cv_reopened v'"] exI [of _ w2] exI [of _ runs]) (simp add: say_def)
qed

text \<open>
  C8: \<open>filepipe\<close> refines the specification \<open>volumes\<close>, whatever the burning program does to the
  file system. It ends; at every call of the program the destination holds the next full volume
  and the volume number file the next number; at the end the destination holds the last volume.
  Together the volumes are the input, each but the last is exactly full, and the last is not.
\<close>

theorem filepipe_cuts_volumes:
  assumes "cs_getenv sys ''VOLNO_FILE'' = Some vf" and "cw_files w vf = Some vc"
    and "cut_ready sys maxcd m (dst_of sys) vf" and "content (cw_files w) (dst_of sys) = []"
    and "int c = capacity_kb sys maxcd * 1024" and "0 < c" and "c \<le> cs_quota sys" and "int c < 2 ^ 63"
    and "volno = atoi (fgets NAMELENGTH volno_l vc)"
  shows "\<exists>closed w' runs vs l. filepipe sys maxcd tot volno_l (fopen_r inp) w = Some (Inr (closed, w')) \<and>
    cw_runs w' = cw_runs w @ runs \<and> map fst runs = replicate (length vs) (prg_of sys) \<and>
    map (\<lambda>(p, fs). content fs (dst_of sys)) runs = vs \<and> content (cw_files w') (dst_of sys) = l \<and>
    map (\<lambda>(p, fs). content fs vf) runs
      = map (\<lambda>j. decimal (to_int32 (volno + 1 + int j)) @ [10]) [0..<length vs] \<and>
    concat vs @ l = inp \<and>
    (\<forall>j < length vs. length (vs ! j) = (if j = 0 then c else m)) \<and>
    length l < (if vs = [] then c else m)"
proof -
  let ?vs = "volumes c m inp"
  have m: "0 < m" using assms(3) by (simp add: cut_ready_def)
  obtain closed w' runs where run: "filepipe sys maxcd tot volno_l (fopen_r inp) w = Some (Inr (closed, w'))"
    "cw_runs w' = cw_runs w @ runs" "map fst runs = replicate (length ?vs - 1) (prg_of sys)"
    "map (\<lambda>(p, fs). content fs (dst_of sys)) runs = butlast ?vs"
    "content (cw_files w') (dst_of sys) = last ?vs"
    "map (\<lambda>(p, fs). content fs vf) runs
      = map (\<lambda>j. decimal (to_int32 (volno + 1 + int j)) @ [10]) [0..<length ?vs - 1]"
    using filepipe_volumes [OF assms(1-8) refl assms(9), of tot inp] by blast
  have vs: "?vs = butlast ?vs @ [last ?vs]" by simp
  have "concat (butlast ?vs) @ last ?vs = inp"
    using concat_volumes [of c m inp] vs by (metis concat.simps concat_append append_Nil2)
  moreover have "\<forall>j < length (butlast ?vs). length (butlast ?vs ! j) = (if j = 0 then c else m)"
    "length (last ?vs) < (if butlast ?vs = [] then c else m)"
  proof -
    have "(length ?vs = 1) = (butlast ?vs = [])"
      by (subst vs) (cases "butlast ?vs", simp_all)
    then show "\<forall>j < length (butlast ?vs). length (butlast ?vs ! j) = (if j = 0 then c else m)"
      "length (last ?vs) < (if butlast ?vs = [] then c else m)"
      using volumes_lengths [OF assms(6) m, of inp] by (auto simp: nth_butlast)
  qed
  ultimately show ?thesis
    using run by (intro exI [of _ closed] exI [of _ w'] exI [of _ runs] exI [of _ "butlast ?vs"]
        exI [of _ "last ?vs"]) simp
qed

text \<open>Surroundings for the examples.\<close>

definition plain_sys :: "(string \<Rightarrow> string option) \<Rightarrow> nat \<Rightarrow> cut_sys" where
  "plain_sys env q = \<lparr>cs_getenv = env(''VOLNO_FILE'' \<mapsto> ''v''), cs_can_write = (\<lambda>_. True),
     cs_system = (\<lambda>_ fs. fs), cs_quota = q\<rparr>"

definition plain_files :: files where
  "plain_files = [''v'' \<mapsto> [0x31, 10], ''/tmp/cutstream.h'' \<mapsto> [0x31, 10], ''Output'' \<mapsto> []]"

definition plain_world :: cut_world where
  "plain_world = \<lparr>cw_files = plain_files, cw_runs = [], cw_out = []\<rparr>"

theorem filepipe_cuts_volumes_witness:
  "\<exists>closed w' runs vs l. filepipe (plain_sys Map.empty 1024) 1 0 [] (fopen_r (replicate 1500 7)) plain_world
      = Some (Inr (closed, w')) \<and>
    cw_runs w' = cw_runs plain_world @ runs \<and>
    map fst runs = replicate (length vs) (prg_of (plain_sys Map.empty 1024)) \<and>
    map (\<lambda>(p, fs). content fs (dst_of (plain_sys Map.empty 1024))) runs = vs \<and>
    content (cw_files w') (dst_of (plain_sys Map.empty 1024)) = l \<and>
    map (\<lambda>(p, fs). content fs ''v'') runs
      = map (\<lambda>j. decimal (to_int32 (atoi (fgets NAMELENGTH [] [0x31, 10]) + 1 + int j)) @ [10]) [0..<length vs] \<and>
    concat vs @ l = replicate 1500 7 \<and>
    (\<forall>j < length vs. length (vs ! j) = (if j = 0 then 1024 else 1024)) \<and>
    length l < (if vs = [] then 1024 else 1024)"
  by (rule filepipe_cuts_volumes)
    (simp_all add: plain_sys_def plain_world_def plain_files_def cut_ready_def dst_of_def content_def capacity_kb_def)

text \<open>
  The volume numbers survive. If the number in the file is \<open>n\<close>, below the largest \<open>int\<close>, then a
  cut writes \<open>n + 1\<close> to the file in a form that the next process (\<open>fgets\<close> and \<open>atoi\<close>) reads as \<open>n + 1\<close>.
\<close>

theorem cut_volume_number:
  assumes "\<forall>f. cs_can_write sys f" and "- (2 ^ 31) \<le> cv_volno v" and "cv_volno v < 2 ^ 31 - 1"
  shows "\<exists>v' w' fs. cut_volume sys maxcd prg dst vf v w = Inr (v', w') \<and>
    cw_runs w' = cw_runs w @ [(prg, fs)] \<and> cv_volno v' = cv_volno v + 1 \<and>
    atoi (fgets NAMELENGTH volno_l (content fs vf)) = cv_volno v + 1"
proof -
  have n: "to_int32 (cv_volno v + 1) = cv_volno v + 1"
    using assms(2,3) by (simp add: to_int32_def signed_take_bit_int_eq_self)
  have rd: "atoi (fgets NAMELENGTH volno_l (decimal (cv_volno v + 1) @ [10])) = cv_volno v + 1"
    using assms(2,3) fgets_decimal [of "cv_volno v + 1" NAMELENGTH volno_l]
    by (simp add: NAMELENGTH_def atoi_decimal)
  show ?thesis
    using assms(1) rd by (simp add: cut_volume_def Let_def say_def n)
qed

theorem cut_volume_number_witness:
  "\<exists>v' w' fs. cut_volume (plain_sys Map.empty 0) 1 ''p'' ''Output'' ''v''
      \<lparr>cv_ifp = fopen_r [], cv_capacity = 0, cv_i = 0, cv_total = 0, cv_volno = 41, cv_reopened = False\<rparr>
      plain_world = Inr (v', w') \<and>
    cw_runs w' = cw_runs plain_world @ [(''p'', fs)] \<and> cv_volno v' = cv_volno
      \<lparr>cv_ifp = fopen_r [], cv_capacity = 0, cv_i = 0, cv_total = 0, cv_volno = 41, cv_reopened = False\<rparr> + 1 \<and>
    atoi (fgets NAMELENGTH [] (content fs ''v'')) = cv_volno
      \<lparr>cv_ifp = fopen_r [], cv_capacity = 0, cv_i = 0, cv_total = 0, cv_volno = 41, cv_reopened = False\<rparr> + 1"
  by (rule cut_volume_number) (simp_all add: plain_sys_def)

text \<open>
  C39: Without a usable size the program never ends. If \<open>/tmp/cutstream.h\<close> does not start with a
  number other than 0 and \<open>CAPACITY\<close> is not set, \<open>cutstream\<close> burns empty volumes for ever, whatever
  the input.
\<close>

theorem cutstream_zero_size_diverges:
  assumes "fs ''/tmp/cutstream.h'' = Some conf" and "atoll (fgets NAMELENGTH maxcdsize_l conf) = 0"
    and "cs_getenv sys ''CAPACITY'' = None" and "cs_getenv sys ''VOLNO_FILE'' = Some vf"
    and "fs vf = Some vc" and "\<forall>f. cs_can_write sys f"
  shows "cutstream_main sys tot volno_l maxcdsize_l inp [] fs = None"
proof -
  let ?w = "\<lparr>cw_files = fs(dst_of sys \<mapsto> []), cw_runs = [], cw_out = [Maxcdsize_Is 0]\<rparr>"
  obtain vc' where vf: "cw_files ?w vf = Some vc'"
    using assms(5) by (cases "vf = dst_of sys") auto
  have "capacity_kb sys 0 = 0" using assms(3) by (simp add: capacity_kb_def)
  then have "filepipe sys 0 tot volno_l (fopen_r inp) ?w = None"
    unfolding filepipe_unfold [OF assms(4) vf refl refl]
    using assms(6) by (subst cut_loop_zero) (simp_all add: fopen_r_def to_int64_def)
  then show ?thesis
    using assms(1,2,6) by (simp add: cutstream_main_def Let_def say_def dst_of_def to_int32_def)
qed

theorem cutstream_zero_size_diverges_witness:
  "cutstream_main (plain_sys Map.empty 1024) 0 [] [] [1, 2, 3] []
    (plain_files(''/tmp/cutstream.h'' \<mapsto> [10])) = None"
  by (rule cutstream_zero_size_diverges [where conf = "[10]" and vf = "''v''"])
    (simp_all add: plain_sys_def plain_files_def fgets_def NAMELENGTH_def atoll_def is_space_def signed_val_def)

text \<open>
  A full disk is not reported. If the destination has room for fewer bytes than a volume and than
  the input, the loop that repeats \<open>fwrite\<close> never ends: the error message of \<open>main\<close> is not reached.
\<close>

theorem filepipe_disk_full_diverges:
  assumes "cs_getenv sys ''VOLNO_FILE'' = Some vf" and "cw_files w vf = Some vc"
    and "content (cw_files w) (dst_of sys) = []" and "int c = capacity_kb sys maxcd * 1024"
    and "int c < 2 ^ 63" and "cs_quota sys < c" and "cs_quota sys < length inp"
  shows "filepipe sys maxcd tot volno_l (fopen_r inp) w = None"
proof -
  have cap: "to_int64 (capacity_kb sys maxcd * 1024) = int c"
    unfolding assms(4) [symmetric] using assms(5) by (simp add: to_int64_def signed_take_bit_int_eq_self)
  show ?thesis
    unfolding filepipe_unfold [OF assms(1,2) refl refl] cap
    using assms(3,5-7)
    by (subst cut_loop_disk_full [where c = c and D = "[]" and r = inp])
      (simp_all add: in_volume_def fopen_r_def say_def)
qed

theorem filepipe_disk_full_diverges_witness:
  "filepipe (plain_sys Map.empty 1000) 1 0 [] (fopen_r (replicate 1500 7)) plain_world = None"
  by (rule filepipe_disk_full_diverges [where vf = "''v''" and c = 1024])
    (simp_all add: plain_sys_def plain_world_def plain_files_def dst_of_def content_def capacity_kb_def)

text \<open>
  C40: A negative \<open>CAPACITY\<close> is not rejected: with more than 4096 bytes of input the first call of
  \<open>fread\<close> writes past the end of the buffer.
\<close>

theorem filepipe_negative_capacity_overrun:
  assumes "cs_getenv sys ''VOLNO_FILE'' = Some vf" and "cw_files w vf = Some vc"
    and "cap = capacity_kb sys maxcd" and "- (2 ^ 52) \<le> cap" and "cap < 0" and "4096 < length inp"
  shows "\<exists>w'. filepipe sys maxcd tot volno_l (fopen_r inp) w = Some (Inl (Cut_Overrun, w'))"
proof -
  have c: "to_int64 (cap * 1024) = cap * 1024"
    using assms(4,5) by (simp add: to_int64_def signed_take_bit_int_eq_self)
  have "(cap * 1024) mod 2 ^ 64 = cap * 1024 + 2 ^ 64"
    using assms(4,5) by (subst mod_add_self2 [symmetric], intro mod_pos_pos_trivial) simp_all
  then have "4096 < nat ((cap * 1024) mod 2 ^ 64)"
    using assms(4) by (simp only: zless_nat_eq_int_zless) simp
  then have big: "4096 < length (take (nat ((cap * 1024) mod 2 ^ 64)) inp)"
    using assms(6) by simp
  have neg: "cap * 1024 < MAXIOSIZE" using assms(5) by (simp add: MAXIOSIZE_def)
  show ?thesis
    unfolding filepipe_unfold [OF assms(1,2) refl assms(3)] c using neg big
    by (subst cut_loop.simps) (simp add: fopen_r_def fread_def MAXIOSIZE_def Let_def del: length_take)
qed

theorem filepipe_negative_capacity_overrun_witness:
  "\<exists>w'. filepipe (plain_sys [''CAPACITY'' \<mapsto> ''-1''] 1024) 1 0 [] (fopen_r (replicate 5000 7)) plain_world
    = Some (Inl (Cut_Overrun, w'))"
  by (rule filepipe_negative_capacity_overrun [where vf = "''v''" and cap = "-1"])
    (simp_all add: plain_sys_def plain_world_def plain_files_def capacity_kb_def bytes_of_def atoll_def
      is_space_def signed_val_def is_digit_def)

text \<open>
  What \<open>main\<close> does after a cut: \<open>filepipe\<close> has closed the stream \<open>dst\<close> of \<open>main\<close>, which goes on to
  use it. The program ends with status 0 and the input in the destination exactly if the input is
  smaller than the first volume; otherwise it uses a closed stream.
\<close>

theorem cutstream_main_result:
  assumes "fs ''/tmp/cutstream.h'' = Some conf" and "maxcd = atoll (fgets NAMELENGTH maxcdsize_l conf)"
    and "cs_getenv sys ''VOLNO_FILE'' = Some vf" and "fs vf = Some vc"
    and "cut_ready sys maxcd m (dst_of sys) vf" and "int c = capacity_kb sys maxcd * 1024"
    and "0 < c" and "c \<le> cs_quota sys" and "int c < 2 ^ 63"
  shows "\<exists>w'. cutstream_main sys tot volno_l maxcdsize_l inp [] fs
      = Some (if length inp < c then Cut_Exit 0 else Cut_Dangling, w') \<and>
    content (cw_files w') (dst_of sys) = last (volumes c m inp)"
proof -
  let ?w = "\<lparr>cw_files = fs(dst_of sys \<mapsto> []), cw_runs = [], cw_out = [Maxcdsize_Is (to_int32 maxcd)]\<rparr>"
  have ok: "\<forall>f. cs_can_write sys f" "dst_of sys \<noteq> vf"
    using assms(5) by (simp_all add: cut_ready_def)
  have vf: "cw_files ?w vf = Some vc" using assms(4) ok(2) by simp
  have d: "content (cw_files ?w) (dst_of sys) = []" by simp
  obtain closed w' where run: "filepipe sys maxcd tot volno_l (fopen_r inp) ?w = Some (Inr (closed, w'))"
    "content (cw_files w') (dst_of sys) = last (volumes c m inp)" "closed = (length (volumes c m inp) \<noteq> 1)"
    using filepipe_volumes [OF assms(3) vf assms(5) d assms(6-9) refl refl, of tot volno_l inp] by blast
  have "closed = (\<not> length inp < c)"
    using run(3) assms(7) by (cases "length inp < c") (simp_all add: volumes_last volumes_step)
  then have "cutstream_main sys tot volno_l maxcdsize_l inp [] fs
      = Some (if length inp < c then Cut_Exit 0 else Cut_Dangling, w')"
    using run(1) assms(1,2) ok(1)
    by (simp add: cutstream_main_def Let_def say_def dst_of_def [symmetric])
  with run(2) show ?thesis by blast
qed

theorem cutstream_main_result_witness:
  "\<exists>w'. cutstream_main (plain_sys Map.empty 1024) 0 [] [] (replicate 1500 7) [] plain_files
      = Some (if length (replicate 1500 (7 :: byte)) < 1024 then Cut_Exit 0 else Cut_Dangling, w') \<and>
    content (cw_files w') (dst_of (plain_sys Map.empty 1024)) = last (volumes 1024 1024 (replicate 1500 7))"
proof (rule cutstream_main_result [where vf = "''v''" and maxcd = 1])
  show "1 = atoll (fgets NAMELENGTH [] [0x31, 10])"
    by (simp add: fgets_def NAMELENGTH_def atoll_def is_space_def signed_val_def is_digit_def)
qed (simp_all add: plain_sys_def plain_files_def dst_of_def cut_ready_def capacity_kb_def)

end
