(* ===== verification/Pastestream.thy ===== *)
theory Pastestream
  imports Stdio
begin

text \<open>
  \<open>pastestream-0.3/pastestream.c\<close>: the loop of \<open>main\<close> that copies the restore file of one disc after
  the other to the standard output, and calls the script that asks for the next disc
  (\<open>ASK_FOR_CD\<close>, any function on the file system here) as long as \<open>/tmp/more_to_come\<close> holds a number
  other than 0. A result \<open>None\<close> is a run that does not end. Where \<open>filepipe\<close> returns, everything
  has been written, so \<open>ferror (stdout)\<close> does not hold.
\<close>

section \<open>Definitions\<close>

datatype paste_stop = Paste_Exit int | Paste_Underrun

text \<open>\<open>filepipe (ifp, stdout)\<close>, where \<open>out\<close> is what has been written to the standard output so far.\<close>

function paste_filepipe :: "nat \<Rightarrow> instream \<Rightarrow> byte list \<Rightarrow> byte list option" where
  "paste_filepipe quota ifp out =
     (if in_eof ifp then Some out
      else case fread 4096 ifp of (data, ifp) \<Rightarrow>
        (case fwrite_all quota out data of
           None \<Rightarrow> None
         | Some out \<Rightarrow> paste_filepipe quota ifp out))"
  by pat_completeness auto
termination
  by (relation "measure (\<lambda>(quota, ifp, out). (if in_eof ifp then 0 else Suc (length (in_rest ifp))))")
    (auto simp: fread_def)

declare paste_filepipe.simps [simp del]

text \<open>
  \<open>main\<close>. \<open>i_str\<close> and \<open>restore_str\<close> are the (at first uninitialised) arrays as strings. The last
  character of \<open>restore_str\<close> is replaced by a NUL; on the empty string this is a write in front of the
  array.
\<close>

partial_function (option) paste_loop ::
  "nat \<Rightarrow> (files \<Rightarrow> files) \<Rightarrow> byte list \<Rightarrow> byte list \<Rightarrow> files \<Rightarrow> byte list \<Rightarrow> (paste_stop \<times> byte list) option" where
  "paste_loop quota ask i_str restore_str fs out =
     (case fs ''/tmp/more_to_come'' of
        None \<Rightarrow> Some (Paste_Exit 1, out)
      | Some c \<Rightarrow>
          let i_str = fgets 254 i_str c;
              i = atoi i_str
          in (case fs ''/tmp/restore'' of
                None \<Rightarrow> Some (Paste_Exit 1, out)
              | Some c \<Rightarrow>
                  let restore_str = fgets 254 restore_str c
                  in if restore_str = [] then Some (Paste_Underrun, out)
                     else
                       let restore_str = butlast restore_str
                       in (case fs (string_of restore_str) of
                             None \<Rightarrow> Some (Paste_Exit 1, out)
                           | Some c \<Rightarrow>
                               (case paste_filepipe quota (fopen_r c) out of
                                  None \<Rightarrow> None
                                | Some out \<Rightarrow>
                                    if i \<noteq> 0 then paste_loop quota ask i_str restore_str (ask fs) out
                                    else Some (Paste_Exit 0, out)))))"

text \<open>
  A disc: the number in \<open>/tmp/more_to_come\<close>, the name in \<open>/tmp/restore\<close> (a line), and the file of that
  name; and the discs the script gives one after the other, of which the last has the number 0.
\<close>

definition disc :: "files \<Rightarrow> int \<times> string \<times> byte list \<Rightarrow> bool" where
  "disc fs d \<longleftrightarrow> (case d of (n, name, v) \<Rightarrow>
     - (2 ^ 31) \<le> n \<and> n < 2 ^ 31 \<and> fs ''/tmp/more_to_come'' = Some (decimal n @ [10]) \<and>
     list_all (\<lambda>c. c \<noteq> 10 \<and> c \<noteq> 0) (bytes_of name) \<and> length name \<le> 252 \<and>
     fs ''/tmp/restore'' = Some (bytes_of name @ [10]) \<and> fs name = Some v)"

fun disc_chain :: "(files \<Rightarrow> files) \<Rightarrow> files \<Rightarrow> (int \<times> string \<times> byte list) list \<Rightarrow> bool" where
  "disc_chain ask fs [] = False"
| "disc_chain ask fs [d] = (disc fs d \<and> fst d = 0)"
| "disc_chain ask fs (d # ds) = (disc fs d \<and> fst d \<noteq> 0 \<and> disc_chain ask (ask fs) ds)"

section \<open>Copying\<close>

lemma paste_filepipe_copies:
  assumes "\<not> in_eof ifp" and "length out + length (in_rest ifp) \<le> quota"
  shows "paste_filepipe quota ifp out = Some (out @ in_rest ifp)"
  using assms
proof (induction quota ifp out rule: paste_filepipe.induct)
  case (1 quota ifp out)
  let ?r = "in_rest ifp" and ?ifp = "snd (fread 4096 ifp)"
  have wr: "fwrite_all quota out (take 4096 ?r) = Some (out @ take 4096 ?r)"
    using 1(3) by (intro fwrite_all_fits) simp
  have step: "paste_filepipe quota ifp out = paste_filepipe quota ?ifp (out @ take 4096 ?r)"
    using 1(2) by (subst paste_filepipe.simps) (simp add: fread_def wr)
  show ?case
  proof (cases "length ?r < 4096")
    case True
    then show ?thesis
      unfolding step by (subst paste_filepipe.simps) (simp add: fread_def)
  next
    case False
    have "paste_filepipe quota ?ifp (out @ take 4096 ?r) = Some ((out @ take 4096 ?r) @ in_rest ?ifp)"
      by (rule "1.IH" [OF 1(2) _ wr]) (use 1(2,3) False in \<open>auto simp: fread_def\<close>)
    then show ?thesis
      unfolding step by (simp add: fread_def)
  qed
qed

lemma fgets_line:
  assumes "list_all (\<lambda>c. c \<noteq> 10 \<and> c \<noteq> 0) cs" and "length cs \<le> 252"
  shows "fgets 254 buf (cs @ [10]) = cs @ [10]"
proof -
  have "upto_newline (cs @ [10]) = cs @ [10]"
    using assms(1) by (intro upto_newline_text) (simp add: list_all_iff)
  moreover have "takeWhile (\<lambda>c. c \<noteq> 0) (cs @ [10]) = cs @ [10]"
    using assms(1) by (simp add: list_all_iff)
  ultimately show ?thesis
    using assms(2) by (simp add: fgets_def)
qed

text \<open>One disc.\<close>

lemma paste_loop_disc:
  assumes "disc fs (n, name, v)" and "length out + length v \<le> quota"
  shows "paste_loop quota ask i_str restore_str fs out =
    (if n \<noteq> 0 then paste_loop quota ask (decimal n @ [10]) (bytes_of name) (ask fs) (out @ v)
     else Some (Paste_Exit 0, out @ v))"
proof -
  have d: "- (2 ^ 31) \<le> n" "n < 2 ^ 31" "fs ''/tmp/more_to_come'' = Some (decimal n @ [10])"
    "list_all (\<lambda>c. c \<noteq> 10 \<and> c \<noteq> 0) (bytes_of name)" "length (bytes_of name) \<le> 252"
    "fs ''/tmp/restore'' = Some (bytes_of name @ [10])" "fs name = Some v"
    using assms(1) by (simp_all add: disc_def bytes_of_def)
  have "paste_filepipe quota (fopen_r v) out = Some (out @ v)"
    using assms(2) paste_filepipe_copies [of "fopen_r v" out quota] by (simp add: fopen_r_def)
  moreover have "fgets 254 i_str (decimal n @ [10]) = decimal n @ [10]"
    by (rule fgets_decimal [OF d(1,2)]) simp
  ultimately show ?thesis
    by (subst paste_loop.simps)
      (simp add: d(3,6,7) fgets_line [OF d(4,5)] atoi_decimal [OF d(1,2)] Let_def)
qed

lemma paste_loop_chain:
  "disc_chain ask fs ds \<Longrightarrow> length out + length (concat (map (snd \<circ> snd) ds)) \<le> quota \<Longrightarrow>
    paste_loop quota ask i_str restore_str fs out = Some (Paste_Exit 0, out @ concat (map (snd \<circ> snd) ds))"
proof (induction ask fs ds arbitrary: i_str restore_str out rule: disc_chain.induct)
  case (2 ask fs d)
  then show ?case
    by (cases d) (simp add: paste_loop_disc)
next
  case (3 ask fs d d' ds)
  obtain n name v where d: "d = (n, name, v)" by (cases d)
  have "paste_loop quota ask i_str restore_str fs out =
      paste_loop quota ask (decimal n @ [10]) (bytes_of name) (ask fs) (out @ v)"
    using 3(2,3) d by (subst paste_loop_disc [of _ n name v]) auto
  also have "\<dots> = Some (Paste_Exit 0, (out @ v) @ concat (map (snd \<circ> snd) (d' # ds)))"
    by (rule "3.IH") (use 3(2,3) d in \<open>auto simp: add.assoc\<close>)
  finally show ?case by (simp add: d comp_def)
qed simp

section \<open>Properties\<close>

text \<open>
  C13: \<open>pastestream\<close> puts the pieces together. If the script provides a chain of discs, the program
  ends with status 0 after the last one and its output is the concatenation of the restore files of
  all discs in their order.
\<close>

theorem pastestream_concatenates:
  assumes "disc_chain ask fs ds" and "length (concat (map (snd \<circ> snd) ds)) \<le> quota"
  shows "paste_loop quota ask i_str restore_str fs [] = Some (Paste_Exit 0, concat (map (snd \<circ> snd) ds))"
  using paste_loop_chain [of ask fs ds "[]"] assms by simp

definition two_discs :: "bool \<Rightarrow> files" where
  "two_discs last' = [''/tmp/more_to_come'' \<mapsto> decimal (if last' then 0 else 1) @ [10],
     ''/tmp/restore'' \<mapsto> bytes_of ''/r'' @ [10], ''/r'' \<mapsto> (if last' then [3] else [1, 2])]"

theorem pastestream_concatenates_witness:
  "paste_loop 10 (\<lambda>_. two_discs True) [] [] (two_discs False) [] = Some (Paste_Exit 0, [1, 2, 3])"
  using pastestream_concatenates [of "\<lambda>_. two_discs True" "two_discs False" "[(1, ''/r'', [1, 2]), (0, ''/r'', [3])]" 10]
  by (simp add: two_discs_def disc_def bytes_of_def)

end
