(* ===== verification/Sha_Ref.thy ===== *)
theory Sha_Ref
  imports Digest_Stream
begin

text \<open>
  SHA-1, SHA-256 and SHA-512 as FIPS 180 defines them: the functions, constants and message
  schedules, the compression of a block and the digest of a message. Nothing here is taken
  from the sources: it is the specification \<open>busybox/libbb/hash_md5_sha.c\<close> is proved against.
\<close>

unbundle bit_operations_syntax

section \<open>SHA-1\<close>

type_synonym quint = "u32 \<times> u32 \<times> u32 \<times> u32 \<times> u32"

definition Ch :: "'a::len word \<Rightarrow> 'a word \<Rightarrow> 'a word \<Rightarrow> 'a word" where
  "Ch x y z = (x AND y) XOR (NOT x AND z)"

definition Parity :: "'a::len word \<Rightarrow> 'a word \<Rightarrow> 'a word \<Rightarrow> 'a word" where
  "Parity x y z = x XOR y XOR z"

definition Maj :: "'a::len word \<Rightarrow> 'a word \<Rightarrow> 'a word \<Rightarrow> 'a word" where
  "Maj x y z = (x AND y) XOR (x AND z) XOR (y AND z)"

definition sha1_f :: "nat \<Rightarrow> u32 \<Rightarrow> u32 \<Rightarrow> u32 \<Rightarrow> u32" where
  "sha1_f t = (if t < 20 then Ch else if t < 40 then Parity else if t < 60 then Maj else Parity)"

definition sha1_K :: "nat \<Rightarrow> u32" where
  "sha1_K t = (if t < 20 then 0x5A827999 else if t < 40 then 0x6ED9EBA1
     else if t < 60 then 0x8F1BBCDC else 0xCA62C1D6)"

text \<open>A message schedule: the words of the block, extended one by one.\<close>

definition sched_extend :: "('w list \<Rightarrow> nat \<Rightarrow> 'w) \<Rightarrow> 'w list \<Rightarrow> nat list \<Rightarrow> 'w list" where
  "sched_extend f M ts = foldl (\<lambda>W t. W @ [f W t]) M ts"

definition sha1_next :: "u32 list \<Rightarrow> nat \<Rightarrow> u32" where
  "sha1_next W t = word_rotl 1 (W ! (t - 3) XOR W ! (t - 8) XOR W ! (t - 14) XOR W ! (t - 16))"

definition sha1_schedule :: "u32 list \<Rightarrow> u32 list" where
  "sha1_schedule M = sched_extend sha1_next M [16..<80]"

definition sha1_step :: "u32 list \<Rightarrow> quint \<Rightarrow> nat \<Rightarrow> quint" where
  "sha1_step W = (\<lambda>(a, b, c, d, e) t.
     (word_rotl 5 a + sha1_f t b c d + e + sha1_K t + W ! t, a, word_rotl 30 b, c, d))"

definition sha1_compress :: "quint \<Rightarrow> byte list \<Rightarrow> quint" where
  "sha1_compress = (\<lambda>(h0, h1, h2, h3, h4) blk.
     case foldl (sha1_step (sha1_schedule (be_words blk))) (h0, h1, h2, h3, h4) [0..<80] of
       (a, b, c, d, e) \<Rightarrow> (h0 + a, h1 + b, h2 + c, h3 + d, h4 + e))"

definition sha1_h0 :: quint where
  "sha1_h0 = (0x67452301, 0xefcdab89, 0x98badcfe, 0x10325476, 0xc3d2e1f0)"

definition sha_lenfield :: "byte list \<Rightarrow> byte list" where
  "sha_lenfield m = be_bytes64 (of_nat (8 * length m))"

definition sha1_digest :: "byte list \<Rightarrow> byte list" where
  "sha1_digest m =
     (case absorb 64 sha1_compress sha1_h0 (md_pad 64 (sha_lenfield m) m) of
        (a, b, c, d, e) \<Rightarrow> concat (map be_bytes32 [a, b, c, d, e]))"

section \<open>SHA-2\<close>

type_synonym 'w oct = "'w \<times> 'w \<times> 'w \<times> 'w \<times> 'w \<times> 'w \<times> 'w \<times> 'w"

definition sha2_next :: "('a word \<Rightarrow> 'a word) \<Rightarrow> ('a word \<Rightarrow> 'a word) \<Rightarrow> 'a::len word list \<Rightarrow> nat \<Rightarrow> 'a word" where
  "sha2_next s0 s1 W t = s1 (W ! (t - 2)) + W ! (t - 7) + s0 (W ! (t - 15)) + W ! (t - 16)"

definition sha2_step ::
  "('a word \<Rightarrow> 'a word) \<Rightarrow> ('a word \<Rightarrow> 'a word) \<Rightarrow> 'a word list \<Rightarrow> 'a word list \<Rightarrow> 'a::len word oct \<Rightarrow> nat \<Rightarrow> 'a word oct" where
  "sha2_step S0 S1 K W = (\<lambda>(a, b, c, d, e, f, g, h) t.
     let T1 = h + S1 e + Ch e f g + K ! t + W ! t;
         T2 = S0 a + Maj a b c
     in (T1 + T2, a, b, c, d + T1, e, f, g))"

definition oct_add :: "'a::len word oct \<Rightarrow> 'a word oct \<Rightarrow> 'a word oct" where
  "oct_add = (\<lambda>(a, b, c, d, e, f, g, h) (a', b', c', d', e', f', g', h').
     (a + a', b + b', c + c', d + d', e + e', f + f', g + g', h + h'))"

definition S0_256 :: "u32 \<Rightarrow> u32" where
  "S0_256 x = word_rotr 2 x XOR word_rotr 13 x XOR word_rotr 22 x"

definition S1_256 :: "u32 \<Rightarrow> u32" where
  "S1_256 x = word_rotr 6 x XOR word_rotr 11 x XOR word_rotr 25 x"

definition R0_256 :: "u32 \<Rightarrow> u32" where
  "R0_256 x = word_rotr 7 x XOR word_rotr 18 x XOR drop_bit 3 x"

definition R1_256 :: "u32 \<Rightarrow> u32" where
  "R1_256 x = word_rotr 17 x XOR word_rotr 19 x XOR drop_bit 10 x"

definition K256 :: "u32 list" where
  "K256 =
    [0x428a2f98, 0x71374491, 0xb5c0fbcf, 0xe9b5dba5, 0x3956c25b, 0x59f111f1, 0x923f82a4, 0xab1c5ed5,
     0xd807aa98, 0x12835b01, 0x243185be, 0x550c7dc3, 0x72be5d74, 0x80deb1fe, 0x9bdc06a7, 0xc19bf174,
     0xe49b69c1, 0xefbe4786, 0x0fc19dc6, 0x240ca1cc, 0x2de92c6f, 0x4a7484aa, 0x5cb0a9dc, 0x76f988da,
     0x983e5152, 0xa831c66d, 0xb00327c8, 0xbf597fc7, 0xc6e00bf3, 0xd5a79147, 0x06ca6351, 0x14292967,
     0x27b70a85, 0x2e1b2138, 0x4d2c6dfc, 0x53380d13, 0x650a7354, 0x766a0abb, 0x81c2c92e, 0x92722c85,
     0xa2bfe8a1, 0xa81a664b, 0xc24b8b70, 0xc76c51a3, 0xd192e819, 0xd6990624, 0xf40e3585, 0x106aa070,
     0x19a4c116, 0x1e376c08, 0x2748774c, 0x34b0bcb5, 0x391c0cb3, 0x4ed8aa4a, 0x5b9cca4f, 0x682e6ff3,
     0x748f82ee, 0x78a5636f, 0x84c87814, 0x8cc70208, 0x90befffa, 0xa4506ceb, 0xbef9a3f7, 0xc67178f2]"

definition sha256_compress :: "u32 oct \<Rightarrow> byte list \<Rightarrow> u32 oct" where
  "sha256_compress h blk =
     oct_add h (foldl (sha2_step S0_256 S1_256 K256
       (sched_extend (sha2_next R0_256 R1_256) (be_words blk) [16..<64])) h [0..<64])"

definition sha256_h0 :: "u32 oct" where
  "sha256_h0 = (0x6a09e667, 0xbb67ae85, 0x3c6ef372, 0xa54ff53a, 0x510e527f, 0x9b05688c, 0x1f83d9ab, 0x5be0cd19)"

definition sha256_digest :: "byte list \<Rightarrow> byte list" where
  "sha256_digest m =
     (case absorb 64 sha256_compress sha256_h0 (md_pad 64 (sha_lenfield m) m) of
        (a, b, c, d, e, f, g, h) \<Rightarrow> concat (map be_bytes32 [a, b, c, d, e, f, g, h]))"

definition S0_512 :: "u64 \<Rightarrow> u64" where
  "S0_512 x = word_rotr 28 x XOR word_rotr 34 x XOR word_rotr 39 x"

definition S1_512 :: "u64 \<Rightarrow> u64" where
  "S1_512 x = word_rotr 14 x XOR word_rotr 18 x XOR word_rotr 41 x"

definition R0_512 :: "u64 \<Rightarrow> u64" where
  "R0_512 x = word_rotr 1 x XOR word_rotr 8 x XOR drop_bit 7 x"

definition R1_512 :: "u64 \<Rightarrow> u64" where
  "R1_512 x = word_rotr 19 x XOR word_rotr 61 x XOR drop_bit 6 x"

definition K512 :: "u64 list" where
  "K512 =
    [0x428a2f98d728ae22, 0x7137449123ef65cd, 0xb5c0fbcfec4d3b2f, 0xe9b5dba58189dbbc,
     0x3956c25bf348b538, 0x59f111f1b605d019, 0x923f82a4af194f9b, 0xab1c5ed5da6d8118,
     0xd807aa98a3030242, 0x12835b0145706fbe, 0x243185be4ee4b28c, 0x550c7dc3d5ffb4e2,
     0x72be5d74f27b896f, 0x80deb1fe3b1696b1, 0x9bdc06a725c71235, 0xc19bf174cf692694,
     0xe49b69c19ef14ad2, 0xefbe4786384f25e3, 0x0fc19dc68b8cd5b5, 0x240ca1cc77ac9c65,
     0x2de92c6f592b0275, 0x4a7484aa6ea6e483, 0x5cb0a9dcbd41fbd4, 0x76f988da831153b5,
     0x983e5152ee66dfab, 0xa831c66d2db43210, 0xb00327c898fb213f, 0xbf597fc7beef0ee4,
     0xc6e00bf33da88fc2, 0xd5a79147930aa725, 0x06ca6351e003826f, 0x142929670a0e6e70,
     0x27b70a8546d22ffc, 0x2e1b21385c26c926, 0x4d2c6dfc5ac42aed, 0x53380d139d95b3df,
     0x650a73548baf63de, 0x766a0abb3c77b2a8, 0x81c2c92e47edaee6, 0x92722c851482353b,
     0xa2bfe8a14cf10364, 0xa81a664bbc423001, 0xc24b8b70d0f89791, 0xc76c51a30654be30,
     0xd192e819d6ef5218, 0xd69906245565a910, 0xf40e35855771202a, 0x106aa07032bbd1b8,
     0x19a4c116b8d2d0c8, 0x1e376c085141ab53, 0x2748774cdf8eeb99, 0x34b0bcb5e19b48a8,
     0x391c0cb3c5c95a63, 0x4ed8aa4ae3418acb, 0x5b9cca4f7763e373, 0x682e6ff3d6b2b8a3,
     0x748f82ee5defb2fc, 0x78a5636f43172f60, 0x84c87814a1f0ab72, 0x8cc702081a6439ec,
     0x90befffa23631e28, 0xa4506cebde82bde9, 0xbef9a3f7b2c67915, 0xc67178f2e372532b,
     0xca273eceea26619c, 0xd186b8c721c0c207, 0xeada7dd6cde0eb1e, 0xf57d4f7fee6ed178,
     0x06f067aa72176fba, 0x0a637dc5a2c898a6, 0x113f9804bef90dae, 0x1b710b35131c471b,
     0x28db77f523047d84, 0x32caab7b40c72493, 0x3c9ebe0a15c9bebc, 0x431d67c49c100d4c,
     0x4cc5d4becb3e42b6, 0x597f299cfc657e2a, 0x5fcb6fab3ad6faec, 0x6c44198c4a475817]"

text \<open>64-bit words, high byte first: two 32-bit words each.\<close>

fun be_words64 :: "byte list \<Rightarrow> u64 list" where
  "be_words64 (b0 # b1 # b2 # b3 # b4 # b5 # b6 # b7 # bs) =
     (push_bit 32 (ucast (le32 b3 b2 b1 b0)) OR ucast (le32 b7 b6 b5 b4)) # be_words64 bs"
| "be_words64 _ = []"

definition sha512_compress :: "u64 oct \<Rightarrow> byte list \<Rightarrow> u64 oct" where
  "sha512_compress h blk =
     oct_add h (foldl (sha2_step S0_512 S1_512 K512
       (sched_extend (sha2_next R0_512 R1_512) (be_words64 blk) [16..<80])) h [0..<80])"

definition sha512_h0 :: "u64 oct" where
  "sha512_h0 = (0x6a09e667f3bcc908, 0xbb67ae8584caa73b, 0x3c6ef372fe94f82b, 0xa54ff53a5f1d36f1,
     0x510e527fade682d1, 0x9b05688c2b3e6c1f, 0x1f83d9abfb41bd6b, 0x5be0cd19137e2179)"

text \<open>The length field of SHA-512 has 128 bits.\<close>

definition sha512_lenfield :: "byte list \<Rightarrow> byte list" where
  "sha512_lenfield m =
     be_bytes64 (of_nat (8 * length m div 2 ^ 64)) @ be_bytes64 (of_nat (8 * length m))"

definition sha512_digest :: "byte list \<Rightarrow> byte list" where
  "sha512_digest m =
     (case absorb 128 sha512_compress sha512_h0 (md_pad 128 (sha512_lenfield m) m) of
        (a, b, c, d, e, f, g, h) \<Rightarrow> concat (map be_bytes64 [a, b, c, d, e, f, g, h]))"

section \<open>Facts\<close>

lemma length_extend [simp]: "length (sched_extend f M ts) = length M + length ts"
  unfolding sched_extend_def by (induction ts arbitrary: M) simp_all

lemma take_extend: "n \<le> length M \<Longrightarrow> take n (sched_extend f M ts) = take n M"
  unfolding sched_extend_def by (induction ts arbitrary: M) simp_all

lemma extend_append: "sched_extend f M (ts @ ts') = sched_extend f (sched_extend f M ts) ts'"
  by (simp add: sched_extend_def)

text \<open>The word at \<open>t\<close> is computed from the words in front of it.\<close>

lemma nth_extend_upt:
  assumes "length M = n" and "n \<le> t" and "t < k" and "\<And>W W'. take t W = take t W' \<Longrightarrow> f W t = f W' t"
  shows "sched_extend f M [n..<k] ! t = f (sched_extend f M [n..<k]) t"
proof -
  have split: "[n..<k] = [n..<t] @ [t] @ [Suc t..<k]"
    using assms(2,3) by (metis append_Cons append_Nil less_imp_le_nat upt_add_eq_append upt_conv_Cons le_Suc_ex)
  let ?W = "sched_extend f M [n..<t]"
  have len: "length ?W = t" using assms(1,2) by simp
  have full: "sched_extend f M [n..<k] = sched_extend f (?W @ [f ?W t]) [Suc t..<k]"
    unfolding split extend_append by (simp add: sched_extend_def)
  have "take (Suc t) (sched_extend f M [n..<k]) = ?W @ [f ?W t]"
    unfolding full using len by (simp add: take_extend)
  then have "sched_extend f M [n..<k] ! t = f ?W t" "take t (sched_extend f M [n..<k]) = take t ?W"
    using len by (metis lessI nth_append_length nth_take)
      (metis \<open>take (Suc t) (sched_extend f M [n..<k]) = ?W @ [f ?W t]\<close> append_eq_conv_conj len take_all_iff le_refl
        min.absorb1 take_take le_SucI)
  then show ?thesis
    using assms(4) by metis
qed

end
