(* ===== verification/Bb_Md5.thy ===== *)
theory Bb_Md5
  imports Mediacheck_Md5
begin

text \<open>
  The MD5 block function of \<open>busybox/libbb/hash_md5_sha.c\<close>, \<open>md5_process_block64\<close>, in all four
  variants that \<open>CONFIG_MD5_SIZE_VS_SPEED\<close> selects (0: everything unrolled, 1: loops over groups of
  four, 2: one loop per round, 3: a single loop), on a little-endian machine. The theorem: all
  four compute the compression function of RFC 1321, and so the same as \<open>mediacheck/md5.c\<close>.
\<close>

unbundle bit_operations_syntax

section \<open>Definitions\<close>

definition rotl32 :: "u32 \<Rightarrow> nat \<Rightarrow> u32" where
  "rotl32 x n = push_bit n x OR drop_bit (32 - n) x"

definition FF :: "u32 \<Rightarrow> u32 \<Rightarrow> u32 \<Rightarrow> u32" where
  "FF b c d = d XOR (b AND (c XOR d))"

definition FG :: "u32 \<Rightarrow> u32 \<Rightarrow> u32 \<Rightarrow> u32" where
  "FG b c d = FF d b c"

definition FH :: "u32 \<Rightarrow> u32 \<Rightarrow> u32 \<Rightarrow> u32" where
  "FH b c d = b XOR c XOR d"

definition FI :: "u32 \<Rightarrow> u32 \<Rightarrow> u32 \<Rightarrow> u32" where
  "FI b c d = c XOR (b OR NOT d)"

definition C_array :: "u32 list" where
  "C_array =
    [0xd76aa478, 0xe8c7b756, 0x242070db, 0xc1bdceee,
     0xf57c0faf, 0x4787c62a, 0xa8304613, 0xfd469501,
     0x698098d8, 0x8b44f7af, 0xffff5bb1, 0x895cd7be,
     0x6b901122, 0xfd987193, 0xa679438e, 0x49b40821,
     0xf61e2562, 0xc040b340, 0x265e5a51, 0xe9b6c7aa,
     0xd62f105d, 0x02441453, 0xd8a1e681, 0xe7d3fbc8,
     0x21e1cde6, 0xc33707d6, 0xf4d50d87, 0x455a14ed,
     0xa9e3e905, 0xfcefa3f8, 0x676f02d9, 0x8d2a4c8a,
     0xfffa3942, 0x8771f681, 0x6d9d6122, 0xfde5380c,
     0xa4beea44, 0x4bdecfa9, 0xf6bb4b60, 0xbebfbc70,
     0x289b7ec6, 0xeaa127fa, 0xd4ef3085, 0x4881d05,
     0xd9d4d039, 0xe6db99e5, 0x1fa27cf8, 0xc4ac5665,
     0xf4292244, 0x432aff97, 0xab9423a7, 0xfc93a039,
     0x655b59c3, 0x8f0ccc92, 0xffeff47d, 0x85845dd1,
     0x6fa87e4f, 0xfe2ce6e0, 0xa3014314, 0x4e0811a1,
     0xf7537e82, 0xbd3af235, 0x2ad7d2bb, 0xeb86d391]"

text \<open>The order of the words in rounds 2 to 4, and with the first row in front (variants 2 and 3).\<close>

definition P_array_tail :: "nat list" where
  "P_array_tail =
    [1, 6, 11, 0, 5, 10, 15, 4, 9, 14, 3, 8, 13, 2, 7, 12,
     5, 8, 11, 14, 1, 4, 7, 10, 13, 0, 3, 6, 9, 12, 15, 2,
     0, 7, 14, 5, 12, 3, 10, 1, 8, 15, 6, 13, 4, 11, 2, 9]"

definition P_array :: "nat list" where
  "P_array = [0, 1, 2, 3, 4, 5, 6, 7, 8, 9, 10, 11, 12, 13, 14, 15] @ P_array_tail"

definition S_array :: "nat list" where
  "S_array = [7, 12, 17, 22, 5, 9, 14, 20, 4, 11, 16, 23, 6, 10, 15, 21]"

text \<open>Variant 3: one loop; \<open>pp\<close> and \<open>pc\<close> advance with \<open>i\<close>, \<open>ps\<close> by four every 16 steps.\<close>

definition md5_small_step :: "u32 list \<Rightarrow> quad \<Rightarrow> nat \<Rightarrow> quad" where
  "md5_small_step words = (\<lambda>(A, B, C, D) i.
     let temp = A;
         temp = temp + (if i div 16 = 0 then FF B C D
                        else if i div 16 = 1 then FG B C D
                        else if i div 16 = 2 then FH B C D
                        else FI B C D);
         temp = temp + (words ! (P_array ! i) + C_array ! i);
         temp = rotl32 temp (S_array ! (4 * (i div 16) + i mod 4));
         temp = temp + B
     in (D, temp, B, C))"

definition md5_rounds_3 :: "u32 list \<Rightarrow> quad \<Rightarrow> quad" where
  "md5_rounds_3 words q = foldl (md5_small_step words) q [0..<64]"

text \<open>Variant 2: one loop of 16 steps for each round \<open>r\<close>.\<close>

definition md5_round_step ::
  "(u32 \<Rightarrow> u32 \<Rightarrow> u32 \<Rightarrow> u32) \<Rightarrow> nat \<Rightarrow> u32 list \<Rightarrow> quad \<Rightarrow> nat \<Rightarrow> quad" where
  "md5_round_step f r words = (\<lambda>(A, B, C, D) i.
     let temp = A + f B C D + words ! (P_array ! (16 * r + i)) + C_array ! (16 * r + i);
         temp = rotl32 temp (S_array ! (4 * r + i mod 4));
         temp = temp + B
     in (D, temp, B, C))"

definition md5_rounds_2 :: "u32 list \<Rightarrow> quad \<Rightarrow> quad" where
  "md5_rounds_2 words q =
     (let q = foldl (md5_round_step FF 0 words) q [0..<16];
          q = foldl (md5_round_step FG 1 words) q [0..<16];
          q = foldl (md5_round_step FH 2 words) q [0..<16]
      in foldl (md5_round_step FI 3 words) q [0..<16])"

text \<open>The macro \<open>OP\<close> of variants 0 and 1: the new value of its first register, and its four uses.\<close>

definition OP :: "(u32 \<Rightarrow> u32 \<Rightarrow> u32 \<Rightarrow> u32) \<Rightarrow> u32 list \<Rightarrow> u32 \<Rightarrow> u32 \<Rightarrow> u32 \<Rightarrow> u32 \<Rightarrow> nat \<Rightarrow> nat \<Rightarrow> u32 \<Rightarrow> u32" where
  "OP f words a b c d k s T =
     (let a = a + (f b c d + words ! k + T);
          a = rotl32 a s
      in a + b)"

definition OP_A :: "(u32 \<Rightarrow> u32 \<Rightarrow> u32 \<Rightarrow> u32) \<Rightarrow> u32 list \<Rightarrow> nat \<Rightarrow> nat \<Rightarrow> u32 \<Rightarrow> quad \<Rightarrow> quad" where
  "OP_A f words k s T = (\<lambda>(A, B, C, D). (OP f words A B C D k s T, B, C, D))"

definition OP_D :: "(u32 \<Rightarrow> u32 \<Rightarrow> u32 \<Rightarrow> u32) \<Rightarrow> u32 list \<Rightarrow> nat \<Rightarrow> nat \<Rightarrow> u32 \<Rightarrow> quad \<Rightarrow> quad" where
  "OP_D f words k s T = (\<lambda>(A, B, C, D). (A, B, C, OP f words D A B C k s T))"

definition OP_C :: "(u32 \<Rightarrow> u32 \<Rightarrow> u32 \<Rightarrow> u32) \<Rightarrow> u32 list \<Rightarrow> nat \<Rightarrow> nat \<Rightarrow> u32 \<Rightarrow> quad \<Rightarrow> quad" where
  "OP_C f words k s T = (\<lambda>(A, B, C, D). (A, B, OP f words C D A B k s T, D))"

definition OP_B :: "(u32 \<Rightarrow> u32 \<Rightarrow> u32 \<Rightarrow> u32) \<Rightarrow> u32 list \<Rightarrow> nat \<Rightarrow> nat \<Rightarrow> u32 \<Rightarrow> quad \<Rightarrow> quad" where
  "OP_B f words k s T = (\<lambda>(A, B, C, D). (A, OP f words B C D A k s T, C, D))"

text \<open>
  Variant 1: four loops of four groups. \<open>pp\<close> gives the word of a step (in round 1 the words in
  order), \<open>pc\<close> runs through all constants.
\<close>

definition md5_op_group ::
  "(u32 \<Rightarrow> u32 \<Rightarrow> u32 \<Rightarrow> u32) \<Rightarrow> u32 list \<Rightarrow> nat list \<Rightarrow> nat list \<Rightarrow> nat \<Rightarrow> quad \<Rightarrow> nat \<Rightarrow> quad" where
  "md5_op_group f words pp s r q i =
     (let q = OP_A f words (pp ! (4 * i)) (s ! 0) (C_array ! (16 * r + 4 * i)) q;
          q = OP_D f words (pp ! (4 * i + 1)) (s ! 1) (C_array ! (16 * r + 4 * i + 1)) q;
          q = OP_C f words (pp ! (4 * i + 2)) (s ! 2) (C_array ! (16 * r + 4 * i + 2)) q
      in OP_B f words (pp ! (4 * i + 3)) (s ! 3) (C_array ! (16 * r + 4 * i + 3)) q)"

definition md5_rounds_1 :: "u32 list \<Rightarrow> quad \<Rightarrow> quad" where
  "md5_rounds_1 words q =
     (let q = foldl (md5_op_group FF words [0..<16] [7, 12, 17, 22] 0) q [0..<4];
          q = foldl (md5_op_group FG words P_array_tail [5, 9, 14, 20] 1) q [0..<4];
          q = foldl (md5_op_group FH words (drop 16 P_array_tail) [4, 11, 16, 23] 2) q [0..<4]
      in foldl (md5_op_group FI words (drop 32 P_array_tail) [6, 10, 15, 21] 3) q [0..<4])"

text \<open>Variant 0: the 64 macro calls.\<close>

definition md5_rounds_0 :: "u32 list \<Rightarrow> quad \<Rightarrow> quad" where
  "md5_rounds_0 words s = (let
    s = OP_A FF words 0 7 0xd76aa478 s;
    s = OP_D FF words 1 12 0xe8c7b756 s;
    s = OP_C FF words 2 17 0x242070db s;
    s = OP_B FF words 3 22 0xc1bdceee s;
    s = OP_A FF words 4 7 0xf57c0faf s;
    s = OP_D FF words 5 12 0x4787c62a s;
    s = OP_C FF words 6 17 0xa8304613 s;
    s = OP_B FF words 7 22 0xfd469501 s;
    s = OP_A FF words 8 7 0x698098d8 s;
    s = OP_D FF words 9 12 0x8b44f7af s;
    s = OP_C FF words 10 17 0xffff5bb1 s;
    s = OP_B FF words 11 22 0x895cd7be s;
    s = OP_A FF words 12 7 0x6b901122 s;
    s = OP_D FF words 13 12 0xfd987193 s;
    s = OP_C FF words 14 17 0xa679438e s;
    s = OP_B FF words 15 22 0x49b40821 s;
    s = OP_A FG words 1 5 0xf61e2562 s;
    s = OP_D FG words 6 9 0xc040b340 s;
    s = OP_C FG words 11 14 0x265e5a51 s;
    s = OP_B FG words 0 20 0xe9b6c7aa s;
    s = OP_A FG words 5 5 0xd62f105d s;
    s = OP_D FG words 10 9 0x02441453 s;
    s = OP_C FG words 15 14 0xd8a1e681 s;
    s = OP_B FG words 4 20 0xe7d3fbc8 s;
    s = OP_A FG words 9 5 0x21e1cde6 s;
    s = OP_D FG words 14 9 0xc33707d6 s;
    s = OP_C FG words 3 14 0xf4d50d87 s;
    s = OP_B FG words 8 20 0x455a14ed s;
    s = OP_A FG words 13 5 0xa9e3e905 s;
    s = OP_D FG words 2 9 0xfcefa3f8 s;
    s = OP_C FG words 7 14 0x676f02d9 s;
    s = OP_B FG words 12 20 0x8d2a4c8a s;
    s = OP_A FH words 5 4 0xfffa3942 s;
    s = OP_D FH words 8 11 0x8771f681 s;
    s = OP_C FH words 11 16 0x6d9d6122 s;
    s = OP_B FH words 14 23 0xfde5380c s;
    s = OP_A FH words 1 4 0xa4beea44 s;
    s = OP_D FH words 4 11 0x4bdecfa9 s;
    s = OP_C FH words 7 16 0xf6bb4b60 s;
    s = OP_B FH words 10 23 0xbebfbc70 s;
    s = OP_A FH words 13 4 0x289b7ec6 s;
    s = OP_D FH words 0 11 0xeaa127fa s;
    s = OP_C FH words 3 16 0xd4ef3085 s;
    s = OP_B FH words 6 23 0x04881d05 s;
    s = OP_A FH words 9 4 0xd9d4d039 s;
    s = OP_D FH words 12 11 0xe6db99e5 s;
    s = OP_C FH words 15 16 0x1fa27cf8 s;
    s = OP_B FH words 2 23 0xc4ac5665 s;
    s = OP_A FI words 0 6 0xf4292244 s;
    s = OP_D FI words 7 10 0x432aff97 s;
    s = OP_C FI words 14 15 0xab9423a7 s;
    s = OP_B FI words 5 21 0xfc93a039 s;
    s = OP_A FI words 12 6 0x655b59c3 s;
    s = OP_D FI words 3 10 0x8f0ccc92 s;
    s = OP_C FI words 10 15 0xffeff47d s;
    s = OP_B FI words 1 21 0x85845dd1 s;
    s = OP_A FI words 8 6 0x6fa87e4f s;
    s = OP_D FI words 15 10 0xfe2ce6e0 s;
    s = OP_C FI words 6 15 0xa3014314 s;
    s = OP_B FI words 13 21 0x4e0811a1 s;
    s = OP_A FI words 4 6 0xf7537e82 s;
    s = OP_D FI words 11 10 0xbd3af235 s;
    s = OP_C FI words 2 15 0x2ad7d2bb s;
    s = OP_B FI words 9 21 0xeb86d391 s
   in s)"

text \<open>
  The block function on the hash words and the buffer. \<open>speed\<close> is \<open>CONFIG_MD5_SIZE_VS_SPEED\<close>,
  which the first lines clamp to the range 0 to 3.
\<close>

definition MD5_SIZE_VS_SPEED :: "int \<Rightarrow> int" where
  "MD5_SIZE_VS_SPEED speed = (if speed < 0 then 0 else if speed > 3 then 3 else speed)"

definition md5_rounds :: "int \<Rightarrow> u32 list \<Rightarrow> quad \<Rightarrow> quad" where
  "md5_rounds speed =
     (if MD5_SIZE_VS_SPEED speed = 3 then md5_rounds_3
      else if MD5_SIZE_VS_SPEED speed = 2 then md5_rounds_2
      else if MD5_SIZE_VS_SPEED speed = 1 then md5_rounds_1
      else md5_rounds_0)"

definition md5_block :: "int \<Rightarrow> byte list \<Rightarrow> quad \<Rightarrow> quad" where
  "md5_block speed wbuffer h =
     (let (A, B, C, D) = md5_rounds speed (le_words wbuffer) h;
          (h0, h1, h2, h3) = h
      in (h0 + A, h1 + B, h2 + C, h3 + D))"

section \<open>All variants are the loop of RFC 1321\<close>

lemma rotl32_rotl: "n < 32 \<Longrightarrow> rotl32 x n = word_rotl n x"
  by (simp add: rotl32_def word_rotl_or)

lemma FF_rounds: "FF = F1" "FG = F2" "FH = F3" "FI = F4"
  by (simp_all add: fun_eq_iff FF_def FG_def FH_def FI_def F1_def F2_def F3_def F4_def)

lemma C_array_T: "C_array = md5_T"
  by (simp add: C_array_def md5_T_def)

lemma P_array_g: "P_array = map md5_g [0..<64]"
  by code_simp

lemma S_array_s: "i < 64 \<Longrightarrow> S_array ! (4 * (i div 16) + i mod 4) = md5_s i"
proof -
  have "map (\<lambda>i. S_array ! (4 * (i div 16) + i mod 4)) [0..<64] = map md5_s [0..<64]"
    by code_simp
  then have "\<forall>i \<in> set [0..<64]. S_array ! (4 * (i div 16) + i mod 4) = md5_s i"
    by (simp only: map_eq_conv)
  then show "i < 64 \<Longrightarrow> S_array ! (4 * (i div 16) + i mod 4) = md5_s i" by simp
qed

lemma P_nth: "i < 64 \<Longrightarrow> P_array ! i = md5_g i"
  by (simp add: P_array_g)

lemma foldl_cong_list:
  "(\<And>s x. x \<in> set xs \<Longrightarrow> f s x = g s x) \<Longrightarrow> foldl f s xs = foldl g s xs"
  by (induction xs arbitrary: s) auto

lemma small_step:
  assumes "i < 64"
  shows "md5_small_step X q i = md5_step X q i"
proof -
  obtain a b c d where q: "q = (a, b, c, d)" by (cases q)
  have F: "(if i div 16 = 0 then FF b c d else if i div 16 = 1 then FG b c d
      else if i div 16 = 2 then FH b c d else FI b c d) = md5_F i b c d"
  proof -
    consider "i < 16" "i div 16 = 0" | "16 \<le> i" "i < 32" "i div 16 = 1" | "32 \<le> i" "i < 48" "i div 16 = 2"
      | "48 \<le> i" "i div 16 = 3"
      using assms by (cases "i < 16"; cases "i < 32"; cases "i < 48") (auto simp: div_nat_eqI)
    then show ?thesis by cases (simp_all add: FF_rounds F_rounds)
  qed
  show ?thesis
    unfolding q md5_small_step_def md5_step_def prod.case Let_def F S_array_s [OF assms]
    using assms by (simp add: P_nth C_array_T rotl32_rotl md5_s_less ac_simps)
qed

lemma md5_rounds_3_loop: "md5_rounds_3 X q = foldl (md5_step X) q [0..<64]"
  unfolding md5_rounds_3_def by (rule foldl_cong_list) (simp add: small_step)

lemma round_step:
  assumes "i < 16" and "r < 4" and "md5_F (16 * r + i) = f"
  shows "md5_round_step f r X q i = md5_step X q (16 * r + i)"
proof -
  have i: "16 * r + i < 64" using assms by simp
  have "(16 * r + i) div 16 = r" using assms(1) by simp
  moreover have "(i + 4 * (4 * r)) mod 4 = i mod 4" by (rule mod_mult_self2)
  ultimately have "S_array ! (4 * r + i mod 4) = md5_s (16 * r + i)"
    using S_array_s [OF i] by (simp add: add.commute)
  then show ?thesis
    unfolding md5_round_step_def md5_step_def Let_def
    using i assms(3) by (simp add: P_nth C_array_T rotl32_rotl md5_s_less ac_simps case_prod_beta)
qed

lemma round_loop:
  assumes "r < 4" and "\<And>i. i < 16 \<Longrightarrow> md5_F (16 * r + i) = f"
  shows "foldl (md5_round_step f r X) q [0..<16] = foldl (md5_step X) q [16 * r..<16 * r + 16]"
proof -
  have "[16 * r..<16 * r + 16] = map (\<lambda>i. 16 * r + i) [0..<16]"
    by (simp add: map_add_upt add.commute)
  then show ?thesis
    using assms by (simp only: foldl_map) (intro foldl_cong_list, simp add: round_step)
qed

lemma md5_rounds_2_loop: "md5_rounds_2 X q = foldl (md5_step X) q [0..<64]"
proof -
  have "[0..<64] = [16 * 0..<16 * 0 + 16] @ [16 * 1..<16 * 1 + 16] @ [16 * 2..<16 * 2 + 16] @ [16 * 3..<16 * 3 + 16 :: nat]"
    by code_simp
  then show ?thesis
    by (simp only: md5_rounds_2_def Let_def foldl_append
        round_loop [of 0 FF] round_loop [of 1 FG] round_loop [of 2 FH] round_loop [of 3 FI])
      (simp add: round_loop F_rounds FF_rounds)
qed

lemma OP_MD5STEP:
  "OP_A f X k s T = MD5STEP_a f (X ! k + T) s" "OP_B f X k s T = MD5STEP_b f (X ! k + T) s"
  "OP_C f X k s T = MD5STEP_c f (X ! k + T) s" "OP_D f X k s T = MD5STEP_d f (X ! k + T) s"
  by (simp_all add: fun_eq_iff OP_A_def OP_B_def OP_C_def OP_D_def OP_def MD5STEP_a_def MD5STEP_b_def
      MD5STEP_c_def MD5STEP_d_def MD5STEP_def rotl32_def Let_def ac_simps)

lemma md5_rounds_0_loop: "md5_rounds_0 X q = foldl (md5_step X) q [0..<64]"
  unfolding MD5_steps_loop [symmetric]
  by (simp only: md5_rounds_0_def MD5_steps_def OP_MD5STEP FF_rounds)

lemma op_group:
  assumes "r < 4" and "i < 4"
    and "map (\<lambda>j. pp ! (4 * i + j)) [0, 1, 2, 3] = map (\<lambda>j. md5_g (16 * r + 4 * i + j)) [0, 1, 2, 3]"
    and "map (\<lambda>j. s ! j) [0, 1, 2, 3] = map (\<lambda>j. md5_s (16 * r + 4 * i + j)) [0, 1, 2, 3]"
  shows "md5_op_group f X pp s r q i = md5_group f X (16 * r + 4 * i) q"
  using assms(3,4) by (simp add: md5_op_group_def md5_group_def OP_MD5STEP C_array_T Let_def)

lemma op_round:
  assumes "r < 4"
    and "map (\<lambda>i. map (\<lambda>j. pp ! (4 * i + j)) [0, 1, 2, 3]) [0..<4]
      = map (\<lambda>i. map (\<lambda>j. md5_g (16 * r + 4 * i + j)) [0, 1, 2, 3]) [0..<4]"
    and "map (\<lambda>i. map (\<lambda>j. s ! j) [0, 1, 2, 3]) [0..<4]
      = map (\<lambda>i. map (\<lambda>j. md5_s (16 * r + 4 * i + j)) [0, 1, 2, 3]) [0..<4]"
    and "\<And>i. i < 16 \<Longrightarrow> md5_F (16 * r + i) = f"
  shows "foldl (md5_op_group f X pp s r) q [0..<4] = foldl (\<lambda>q i. four_steps X (4 * i) q) q [4 * r..<4 * r + 4]"
proof -
  have up: "[4 * r..<4 * r + 4] = map (\<lambda>i. 4 * r + i) [0..<4]"
    by (simp add: map_add_upt add.commute)
  have "md5_op_group f X pp s r q i = four_steps X (4 * (4 * r + i)) q" if "i < 4" for q i
  proof -
    have "md5_op_group f X pp s r q i = md5_group f X (16 * r + 4 * i) q"
      using assms(2,3) that
      by (intro op_group assms(1)) (auto simp only: map_eq_conv set_upt atLeastLessThan_iff)
    also have "\<dots> = four_steps X (16 * r + 4 * i) q"
      using assms(4) [of "4 * i"] assms(4) [of "4 * i + 1"] assms(4) [of "4 * i + 2"] assms(4) [of "4 * i + 3"] that
      by (intro four_steps_group [symmetric]) (simp_all add: add.assoc)
    finally show ?thesis by (simp add: algebra_simps)
  qed
  then show ?thesis
    unfolding up foldl_map by (intro foldl_cong_list) simp
qed

lemma md5_rounds_1_loop: "md5_rounds_1 X q = foldl (md5_step X) q [0..<64]"
proof -
  have up: "[0..<16] = [4 * 0..<4 * 0 + 4] @ [4 * 1..<4 * 1 + 4] @ [4 * 2..<4 * 2 + 4] @ [4 * 3..<4 * 3 + 4 :: nat]"
    by code_simp
  have r0: "foldl (md5_op_group FF X [0..<16] [7, 12, 17, 22] 0) q [0..<4]
      = foldl (\<lambda>q i. four_steps X (4 * i) q) q [4 * 0..<4 * 0 + 4]" for q
    by (rule op_round, simp, code_simp, code_simp, simp add: F_rounds FF_rounds)
  have r1: "foldl (md5_op_group FG X P_array_tail [5, 9, 14, 20] 1) q [0..<4]
      = foldl (\<lambda>q i. four_steps X (4 * i) q) q [4 * 1..<4 * 1 + 4]" for q
    by (rule op_round, simp, code_simp, code_simp, simp add: F_rounds FF_rounds)
  have r2: "foldl (md5_op_group FH X (drop 16 P_array_tail) [4, 11, 16, 23] 2) q [0..<4]
      = foldl (\<lambda>q i. four_steps X (4 * i) q) q [4 * 2..<4 * 2 + 4]" for q
    by (rule op_round, simp, code_simp, code_simp, simp add: F_rounds FF_rounds)
  have r3: "foldl (md5_op_group FI X (drop 32 P_array_tail) [6, 10, 15, 21] 3) q [0..<4]
      = foldl (\<lambda>q i. four_steps X (4 * i) q) q [4 * 3..<4 * 3 + 4]" for q
    by (rule op_round, simp, code_simp, code_simp, simp add: F_rounds FF_rounds)
  show ?thesis
    unfolding md5_rounds_1_def Let_def r0 r1 r2 r3 unfolding md5_loop_groups up foldl_append ..
qed

lemma md5_block_compress: "md5_block speed blk h = md5_compress h blk"
  by (simp add: md5_block_def md5_rounds_def md5_rounds_0_loop md5_rounds_1_loop md5_rounds_2_loop
      md5_rounds_3_loop md5_compress_def md5_add_def case_prod_beta)

end
