(* ===== verification/Bb_Sha.thy ===== *)
theory Bb_Sha
  imports Sha_Ref Bb_Md5
begin

text \<open>
  The SHA block functions of \<open>busybox/libbb/hash_md5_sha.c\<close>: \<open>sha1_process_block64\<close> with its circular
  message schedule of 16 words kept twice, \<open>sha256_process_block64\<close>, which takes the upper halves of the
  SHA-512 constants, and \<open>sha512_process_block128\<close>. The theorems: each is the compression function of
  FIPS 180.
\<close>

unbundle bit_operations_syntax

section \<open>Definitions\<close>

definition rotr32 :: "u32 \<Rightarrow> nat \<Rightarrow> u32" where
  "rotr32 x n = drop_bit n x OR push_bit (32 - n) x"

definition rotr64 :: "u64 \<Rightarrow> nat \<Rightarrow> u64" where
  "rotr64 x n = drop_bit n x OR push_bit (64 - n) x"

subsection \<open>SHA-1\<close>

definition rconsts :: "u32 list" where
  "rconsts = [0x5A827999, 0x6ED9EBA1, 0x8F1BBCDC, 0xCA62C1D6]"

text \<open>The array \<open>W\<close> of 32 words, the index \<open>cnt\<close> and the five registers.\<close>

type_synonym sha1_state = "u32 list \<times> nat \<times> quint"

text \<open>The code behind the label \<open>ge16\<close>.\<close>

definition sha1_ge16 :: "u32 list \<Rightarrow> nat \<Rightarrow> u32 \<Rightarrow> u32 list \<times> u32" where
  "sha1_ge16 W cnt work =
     (let x = rotl32 (W ! (cnt + 13) XOR W ! (cnt + 8) XOR W ! (cnt + 2) XOR W ! cnt) 1;
          W = W[cnt + 16 := x, cnt := x]
      in (W, work + W ! cnt))"

text \<open>The body of the inner loop, for the round \<open>i\<close> and the counter \<open>j\<close>, which runs down from 19.\<close>

definition sha1_inner :: "nat \<Rightarrow> sha1_state \<Rightarrow> nat \<Rightarrow> sha1_state" where
  "sha1_inner i = (\<lambda>(W, cnt, (a, b, c, d, e)) j.
     let work = c XOR d;
         (W, work) =
           (if i = 0 then
              let work = (work AND b) XOR d
              in if j \<le> 3 then sha1_ge16 W cnt work else (W, work + W ! cnt)
            else
              let work = (if i = 2 then ((b OR c) AND d) OR (b AND c) else work XOR b)
              in sha1_ge16 W cnt work);
         work = work + (e + rotl32 a 5 + rconsts ! i)
     in (W, (cnt + 1) mod 16, (work, a, rotl32 b 30, c, d)))"

definition sha1_block :: "byte list \<Rightarrow> quint \<Rightarrow> quint" where
  "sha1_block wbuffer h =
     (let W = be_words wbuffer @ be_words wbuffer;
          (W, cnt, (a, b, c, d, e)) = foldl (\<lambda>s i. foldl (sha1_inner i) s (rev [0..<20])) (W, 0, h) [0..<4];
          (h0, h1, h2, h3, h4) = h
      in (h0 + a, h1 + b, h2 + c, h3 + d, h4 + e))"

subsection \<open>SHA-256 and SHA-512\<close>

definition sha_K :: "u64 list" where
  "sha_K =
    [0x428a2f98d728ae22, 0x7137449123ef65cd,
     0xb5c0fbcfec4d3b2f, 0xe9b5dba58189dbbc,
     0x3956c25bf348b538, 0x59f111f1b605d019,
     0x923f82a4af194f9b, 0xab1c5ed5da6d8118,
     0xd807aa98a3030242, 0x12835b0145706fbe,
     0x243185be4ee4b28c, 0x550c7dc3d5ffb4e2,
     0x72be5d74f27b896f, 0x80deb1fe3b1696b1,
     0x9bdc06a725c71235, 0xc19bf174cf692694,
     0xe49b69c19ef14ad2, 0xefbe4786384f25e3,
     0x0fc19dc68b8cd5b5, 0x240ca1cc77ac9c65,
     0x2de92c6f592b0275, 0x4a7484aa6ea6e483,
     0x5cb0a9dcbd41fbd4, 0x76f988da831153b5,
     0x983e5152ee66dfab, 0xa831c66d2db43210,
     0xb00327c898fb213f, 0xbf597fc7beef0ee4,
     0xc6e00bf33da88fc2, 0xd5a79147930aa725,
     0x06ca6351e003826f, 0x142929670a0e6e70,
     0x27b70a8546d22ffc, 0x2e1b21385c26c926,
     0x4d2c6dfc5ac42aed, 0x53380d139d95b3df,
     0x650a73548baf63de, 0x766a0abb3c77b2a8,
     0x81c2c92e47edaee6, 0x92722c851482353b,
     0xa2bfe8a14cf10364, 0xa81a664bbc423001,
     0xc24b8b70d0f89791, 0xc76c51a30654be30,
     0xd192e819d6ef5218, 0xd69906245565a910,
     0xf40e35855771202a, 0x106aa07032bbd1b8,
     0x19a4c116b8d2d0c8, 0x1e376c085141ab53,
     0x2748774cdf8eeb99, 0x34b0bcb5e19b48a8,
     0x391c0cb3c5c95a63, 0x4ed8aa4ae3418acb,
     0x5b9cca4f7763e373, 0x682e6ff3d6b2b8a3,
     0x748f82ee5defb2fc, 0x78a5636f43172f60,
     0x84c87814a1f0ab72, 0x8cc702081a6439ec,
     0x90befffa23631e28, 0xa4506cebde82bde9,
     0xbef9a3f7b2c67915, 0xc67178f2e372532b,
     0xca273eceea26619c, 0xd186b8c721c0c207,
     0xeada7dd6cde0eb1e, 0xf57d4f7fee6ed178,
     0x06f067aa72176fba, 0x0a637dc5a2c898a6,
     0x113f9804bef90dae, 0x1b710b35131c471b,
     0x28db77f523047d84, 0x32caab7b40c72493,
     0x3c9ebe0a15c9bebc, 0x431d67c49c100d4c,
     0x4cc5d4becb3e42b6, 0x597f299cfc657e2a,
     0x5fcb6fab3ad6faec, 0x6c44198c4a475817]"

definition sha256_S0 :: "u32 \<Rightarrow> u32" where
  "sha256_S0 x = rotr32 x 2 XOR rotr32 x 13 XOR rotr32 x 22"

definition sha256_S1 :: "u32 \<Rightarrow> u32" where
  "sha256_S1 x = rotr32 x 6 XOR rotr32 x 11 XOR rotr32 x 25"

definition sha256_R0 :: "u32 \<Rightarrow> u32" where
  "sha256_R0 x = rotr32 x 7 XOR rotr32 x 18 XOR drop_bit 3 x"

definition sha256_R1 :: "u32 \<Rightarrow> u32" where
  "sha256_R1 x = rotr32 x 17 XOR rotr32 x 19 XOR drop_bit 10 x"

text \<open>The array \<open>W\<close>, filled from the front.\<close>

definition sha256_W :: "byte list \<Rightarrow> u32 list" where
  "sha256_W wbuffer =
     foldl (\<lambda>W t. W @ [sha256_R1 (W ! (t - 2)) + W ! (t - 7) + sha256_R0 (W ! (t - 15)) + W ! (t - 16)])
       (be_words wbuffer) [16..<64]"

definition sha256_round :: "u32 list \<Rightarrow> u32 oct \<Rightarrow> nat \<Rightarrow> u32 oct" where
  "sha256_round W = (\<lambda>(a, b, c, d, e, f, g, h) t.
     let K_t = ucast (drop_bit 32 (sha_K ! t));
         T1 = h + sha256_S1 e + ((e AND f) XOR (NOT e AND g)) + K_t + W ! t;
         T2 = sha256_S0 a + ((a AND b) XOR (a AND c) XOR (b AND c));
         h = g;
         g = f;
         f = e;
         e = d + T1;
         d = c;
         c = b;
         b = a;
         a = T1 + T2
     in (a, b, c, d, e, f, g, h))"

definition sha256_block :: "byte list \<Rightarrow> u32 oct \<Rightarrow> u32 oct" where
  "sha256_block wbuffer hash =
     (let (a, b, c, d, e, f, g, h) = foldl (sha256_round (sha256_W wbuffer)) hash [0..<64];
          (h0, h1, h2, h3, h4, h5, h6, h7) = hash
      in (h0 + a, h1 + b, h2 + c, h3 + d, h4 + e, h5 + f, h6 + g, h7 + h))"

definition sha512_S0 :: "u64 \<Rightarrow> u64" where
  "sha512_S0 x = rotr64 x 28 XOR rotr64 x 34 XOR rotr64 x 39"

definition sha512_S1 :: "u64 \<Rightarrow> u64" where
  "sha512_S1 x = rotr64 x 14 XOR rotr64 x 18 XOR rotr64 x 41"

definition sha512_R0 :: "u64 \<Rightarrow> u64" where
  "sha512_R0 x = rotr64 x 1 XOR rotr64 x 8 XOR drop_bit 7 x"

definition sha512_R1 :: "u64 \<Rightarrow> u64" where
  "sha512_R1 x = rotr64 x 19 XOR rotr64 x 61 XOR drop_bit 6 x"

definition sha512_W :: "byte list \<Rightarrow> u64 list" where
  "sha512_W wbuffer =
     foldl (\<lambda>W t. W @ [sha512_R1 (W ! (t - 2)) + W ! (t - 7) + sha512_R0 (W ! (t - 15)) + W ! (t - 16)])
       (be_words64 wbuffer) [16..<80]"

definition sha512_round :: "u64 list \<Rightarrow> u64 oct \<Rightarrow> nat \<Rightarrow> u64 oct" where
  "sha512_round W = (\<lambda>(a, b, c, d, e, f, g, h) t.
     let T1 = h + sha512_S1 e + ((e AND f) XOR (NOT e AND g)) + sha_K ! t + W ! t;
         T2 = sha512_S0 a + ((a AND b) XOR (a AND c) XOR (b AND c));
         h = g;
         g = f;
         f = e;
         e = d + T1;
         d = c;
         c = b;
         b = a;
         a = T1 + T2
     in (a, b, c, d, e, f, g, h))"

definition sha512_block :: "byte list \<Rightarrow> u64 oct \<Rightarrow> u64 oct" where
  "sha512_block wbuffer hash =
     (let (a, b, c, d, e, f, g, h) = foldl (sha512_round (sha512_W wbuffer)) hash [0..<80];
          (h0, h1, h2, h3, h4, h5, h6, h7) = hash
      in (h0 + a, h1 + b, h2 + c, h3 + d, h4 + e, h5 + f, h6 + g, h7 + h))"

section \<open>SHA-2\<close>

lemma word_rotr_or:
  fixes x :: "'a::len word"
  assumes "0 < n" and "n < LENGTH('a)"
  shows "drop_bit n x OR push_bit (LENGTH('a) - n) x = word_rotr n x"
proof (rule bit_word_eqI)
  fix i
  assume i: "i < LENGTH('a)"
  have "(i + n) mod LENGTH('a) = (if i + n < LENGTH('a) then i + n else i + n - LENGTH('a))"
    using i assms by (auto simp: mod_if)
  then have "bit (word_rotr n x) i = bit x (if i + n < LENGTH('a) then i + n else i + n - LENGTH('a))"
    using i by (simp only: bit_word_rotr_iff) simp
  moreover have "\<not> bit x (n + i)" if "\<not> i + n < LENGTH('a)"
    using that by (auto dest: bit_imp_le_length)
  ultimately show "bit (drop_bit n x OR push_bit (LENGTH('a) - n) x) i = bit (word_rotr n x) i"
    using i assms by (auto simp: bit_simps add.commute)
qed

lemma rotr32_rotr: "0 < n \<Longrightarrow> n < 32 \<Longrightarrow> rotr32 x n = word_rotr n x"
  using word_rotr_or [of n x] by (simp add: rotr32_def)

lemma rotr64_rotr: "0 < n \<Longrightarrow> n < 64 \<Longrightarrow> rotr64 x n = word_rotr n x"
  using word_rotr_or [of n x] by (simp add: rotr64_def)

lemma sha256_funs:
  "sha256_S0 = S0_256" "sha256_S1 = S1_256" "sha256_R0 = R0_256" "sha256_R1 = R1_256"
  by (simp_all add: fun_eq_iff rotr32_rotr sha256_S0_def sha256_S1_def sha256_R0_def sha256_R1_def
      S0_256_def S1_256_def R0_256_def R1_256_def)

lemma sha512_funs:
  "sha512_S0 = S0_512" "sha512_S1 = S1_512" "sha512_R0 = R0_512" "sha512_R1 = R1_512"
  by (simp_all add: fun_eq_iff rotr64_rotr sha512_S0_def sha512_S1_def sha512_R0_def sha512_R1_def
      S0_512_def S1_512_def R0_512_def R1_512_def)

lemma sha_K_512: "sha_K = K512"
  by (simp add: sha_K_def K512_def)

text \<open>The constants of SHA-256 are the upper halves of those of SHA-512.\<close>

lemma sha_K_256: "t < 64 \<Longrightarrow> ucast (drop_bit 32 (sha_K ! t)) = K256 ! t"
proof -
  have "map (\<lambda>k. ucast (drop_bit 32 k)) (take 64 sha_K) = K256"
    by (simp add: sha_K_def K256_def)
  then have "map (\<lambda>k. ucast (drop_bit 32 k)) (take 64 sha_K) ! t = K256 ! t" by simp
  moreover have "length sha_K = 80" by (simp add: sha_K_def)
  ultimately show "t < 64 \<Longrightarrow> ucast (drop_bit 32 (sha_K ! t)) = K256 ! t" by simp
qed

lemma sha256_block_compress: "sha256_block blk h = sha256_compress h blk"
proof -
  have W: "sha256_W blk = sched_extend (sha2_next R0_256 R1_256) (be_words blk) [16..<64]"
    unfolding sha256_W_def sched_extend_def sha2_next_def sha256_funs ..
  have "sha256_round W q t = sha2_step S0_256 S1_256 K256 W q t" if "t < 64" for W q t
    using that
    by (simp add: sha256_round_def sha2_step_def Let_def sha256_funs sha_K_256 Ch_def Maj_def case_prod_beta)
  then have "foldl (sha256_round W) h [0..<64] = foldl (sha2_step S0_256 S1_256 K256 W) h [0..<64]" for W
    by (intro foldl_cong_list) simp
  then show ?thesis
    by (simp add: sha256_block_def sha256_compress_def W oct_add_def case_prod_beta)
qed

lemma sha512_block_compress: "sha512_block blk h = sha512_compress h blk"
proof -
  have W: "sha512_W blk = sched_extend (sha2_next R0_512 R1_512) (be_words64 blk) [16..<80]"
    unfolding sha512_W_def sched_extend_def sha2_next_def sha512_funs ..
  have "sha512_round W = sha2_step S0_512 S1_512 K512 W" for W
    by (simp add: fun_eq_iff sha512_round_def sha2_step_def Let_def sha512_funs sha_K_512 Ch_def Maj_def)
  then show ?thesis
    by (simp add: sha512_block_def sha512_compress_def W oct_add_def case_prod_beta)
qed

section \<open>SHA-1: the circular schedule\<close>

lemma sha1_fs:
  "((c XOR d) AND b) XOR d = Ch b c d" "(c XOR d) XOR b = Parity b c d"
  "((b OR c) AND d) OR (b AND c) = Maj b c d" for b :: u32
  by (rule bit_word_eqI; auto simp: Ch_def Parity_def Maj_def bit_simps)+

lemma sha1_schedule_word:
  assumes "length X = 16" and "16 \<le> t" and "t < 80"
  shows "sha1_schedule X ! t = sha1_next (sha1_schedule X) t"
  unfolding sha1_schedule_def
proof (rule nth_extend_upt)
  fix W W' :: "u32 list"
  assume eq: "take t W = take t W'"
  have "W ! i = W' ! i" if "i < t" for i
    using arg_cong [OF eq, of "\<lambda>l. l ! i"] that by simp
  then show "sha1_next W t = sha1_next W' t"
    using assms(2) by (simp add: sha1_next_def)
qed (use assms in simp_all)

text \<open>
  After \<open>t\<close> steps the array holds, twice, the 16 words of the schedule in front of \<open>t\<close> (at the
  beginning the first 16), each at its index modulo 16.
\<close>

definition sha1_window :: "u32 list \<Rightarrow> nat \<Rightarrow> u32 list \<Rightarrow> bool" where
  "sha1_window S t W \<longleftrightarrow> length W = 32 \<and>
     (\<forall>s. max t 16 - 16 \<le> s \<and> s < max t 16 \<longrightarrow> W ! (s mod 16) = S ! s \<and> W ! (s mod 16 + 16) = S ! s)"

lemma sha1_window_nth:
  assumes "sha1_window S t W" and "16 \<le> t" and "0 < k" and "k \<le> 16" and "x < 32" and "x mod 16 = (t - k) mod 16"
  shows "W ! x = S ! (t - k)"
proof -
  have "W ! ((t - k) mod 16) = S ! (t - k) \<and> W ! ((t - k) mod 16 + 16) = S ! (t - k)"
    using assms(1-4) by (simp add: sha1_window_def)
  moreover have "x = (t - k) mod 16 \<or> x = (t - k) mod 16 + 16"
    using assms(5,6) by (cases "x < 16") (auto simp: le_mod_geq)
  ultimately show ?thesis by auto
qed

lemma sha1_window_ge16:
  assumes "sha1_window S t W" and "16 \<le> t" and "cnt = t mod 16"
  shows "rotl32 (W ! (cnt + 13) XOR W ! (cnt + 8) XOR W ! (cnt + 2) XOR W ! cnt) 1 = sha1_next S t"
proof -
  obtain u where u: "t = u + 16" using assms(2) by (metis le_add_diff_inverse2)
  have "cnt = u mod 16" "u mod 16 < 16" using assms(3) u by simp_all
  then have "W ! (cnt + 13) = S ! (t - 3)" "W ! (cnt + 8) = S ! (t - 8)" "W ! (cnt + 2) = S ! (t - 14)"
    "W ! cnt = S ! (t - 16)"
    using u sha1_window_nth [OF assms(1,2), of 3 "cnt + 13"] sha1_window_nth [OF assms(1,2), of 8 "cnt + 8"]
      sha1_window_nth [OF assms(1,2), of 14 "cnt + 2"] sha1_window_nth [OF assms(1,2), of 16 cnt]
    by (simp_all add: mod_simps add.commute)
  then show ?thesis
    by (simp add: rotl32_rotl sha1_next_def)
qed

lemma sha1_window_update:
  assumes "sha1_window S t W" and "16 \<le> t" and "cnt = t mod 16" and "x = S ! t"
  shows "sha1_window S (Suc t) (W[cnt + 16 := x, cnt := x])"
proof -
  have len: "length W = 32" using assms(1) by (simp add: sha1_window_def)
  have "W[cnt + 16 := x, cnt := x] ! (s mod 16) = S ! s \<and> W[cnt + 16 := x, cnt := x] ! (s mod 16 + 16) = S ! s"
    if s: "Suc t - 16 \<le> s" "s < Suc t" for s
  proof (cases "s = t")
    case True
    then show ?thesis
      using len assms(3,4) by simp
  next
    case False
    then have "W ! (s mod 16) = S ! s" "W ! (s mod 16 + 16) = S ! s"
      using assms(1,2) s by (auto simp: sha1_window_def)
    moreover have "s mod 16 \<noteq> cnt"
    proof
      assume "s mod 16 = cnt"
      then have "16 dvd t - s"
        using s assms(3) mod_eq_dvd_iff_nat [of s t 16] by simp
      moreover have "0 < t - s" "t - s < 16" using False s assms(2) by auto
      ultimately show False by (auto dest: dvd_imp_le)
    qed
    moreover have "s mod 16 < 16" "cnt < 16" using assms(3) by simp_all
    ultimately show ?thesis
      using len by simp
  qed
  then show ?thesis
    using len assms(2) by (simp add: sha1_window_def)
qed

text \<open>One step of the code is one step of the reference loop.\<close>

definition sha1_inv :: "u32 list \<Rightarrow> quint \<Rightarrow> nat \<Rightarrow> sha1_state \<Rightarrow> bool" where
  "sha1_inv X h t = (\<lambda>(W, cnt, q).
     sha1_window (sha1_schedule X) t W \<and> cnt = t mod 16 \<and>
     q = foldl (sha1_step (sha1_schedule X)) h [0..<t])"

lemma sha1_round_consts:
  assumes "t < 80" and "i = t div 20"
  shows "rconsts ! i = sha1_K t"
    and "(if i = 0 then Ch b c d else if i = 2 then Maj b c d else Parity b c d) = sha1_f t b c d"
proof -
  consider "t < 20" "i = 0" | "20 \<le> t" "t < 40" "i = 1" | "40 \<le> t" "t < 60" "i = 2" | "60 \<le> t" "i = 3"
    using assms by (cases "t < 20"; cases "t < 40"; cases "t < 60") (auto simp: div_nat_eqI)
  then show "rconsts ! i = sha1_K t"
    "(if i = 0 then Ch b c d else if i = 2 then Maj b c d else Parity b c d) = sha1_f t b c d"
    by (cases; simp add: rconsts_def sha1_K_def sha1_f_def)+
qed

lemma sha1_inner_step:
  assumes "length X = 16" and "t < 80" and "sha1_inv X h t s" and "i = t div 20" and "j = 19 - t mod 20"
  shows "sha1_inv X h (Suc t) (sha1_inner i s j)"
proof -
  let ?S = "sha1_schedule X"
  obtain W cnt a b c d e where s: "s = (W, cnt, (a, b, c, d, e))" by (cases s) auto
  have win: "sha1_window ?S t W" and cnt: "cnt = t mod 16"
    and regs: "foldl (sha1_step ?S) h [0..<t] = (a, b, c, d, e)"
    using assms(3) by (simp_all add: sha1_inv_def s)
  have len: "length W = 32" using win by (simp add: sha1_window_def)
  define ge where "ge = (16 \<le> t)"
  have cond: "(i = 0 \<and> \<not> j \<le> 3) = (\<not> ge)"
    using assms(4,5) by (cases "t < 20") (auto simp: ge_def div_eq_0_iff)
  define W' where "W' = (if ge then W[cnt + 16 := ?S ! t, cnt := ?S ! t] else W)"
  have win': "sha1_window ?S (Suc t) W'"
  proof (cases ge)
    case True
    then show ?thesis
      using sha1_window_update [OF win _ cnt refl] by (simp add: ge_def W'_def)
  next
    case False
    then show ?thesis
      using win by (simp add: ge_def W'_def sha1_window_def max_def split: if_splits)
  qed
  have ge16: "sha1_ge16 W cnt w = (W', w + ?S ! t)" if ge for w
    using that sha1_window_ge16 [OF win _ cnt] sha1_schedule_word [OF assms(1) _ assms(2)] len cnt
    by (simp add: sha1_ge16_def Let_def ge_def W'_def)
  have low: "W ! cnt = ?S ! t" if "\<not> ge"
    using that win cnt by (auto simp: ge_def sha1_window_def max_def)
  have "sha1_inner i s j = (W', (cnt + 1) mod 16,
      ((if i = 0 then Ch b c d else if i = 2 then Maj b c d else Parity b c d) + ?S ! t
        + (e + rotl32 a 5 + rconsts ! i), a, rotl32 b 30, c, d))"
    using cond by (cases ge) (auto simp: s sha1_inner_def Let_def sha1_fs ge16 low W'_def)
  then have "sha1_inner i s j = (W', (cnt + 1) mod 16, sha1_step ?S (a, b, c, d, e) t)"
    by (simp add: sha1_round_consts [OF assms(2,4)] sha1_step_def rotl32_rotl ac_simps)
  then show ?thesis
    using win' cnt regs by (simp add: sha1_inv_def mod_Suc_eq)
qed

lemma sha1_loop:
  assumes "length X = 16" and "sha1_inv X h (20 * i) s" and "i < 4" and "n \<le> 20"
  shows "sha1_inv X h (20 * i + n) (foldl (sha1_inner i) s (map (\<lambda>k. 19 - k) [0..<n]))"
  using assms(4)
proof (induction n)
  case 0
  then show ?case using assms(2) by simp
next
  case (Suc n)
  have "(20 * i + n) div 20 = i" "(20 * i + n) mod 20 = n"
    using Suc.prems by simp_all
  then show ?case
    using sha1_inner_step [OF assms(1), of "20 * i + n" h _ i "19 - n"] Suc assms(3) by simp
qed

lemma sha1_block_compress:
  assumes "length blk = 64"
  shows "sha1_block blk h = sha1_compress h blk"
proof -
  let ?X = "be_words blk" and ?S = "sha1_schedule (be_words blk)"
  let ?f = "\<lambda>s i. foldl (sha1_inner i) s (map (\<lambda>k. 19 - k) [0..<20])"
  have X: "length ?X = 16" using assms by (simp add: length_be_words)
  have rev: "rev [0..<20] = map (\<lambda>k. 19 - k) [0..<20 :: nat]" by code_simp
  have "take 16 ?S = take 16 ?X"
    unfolding sha1_schedule_def using X by (intro take_extend) simp
  then have S: "?S ! i = ?X ! i" if "i < 16" for i
    using that by (metis nth_take)
  have "sha1_window ?S 0 (?X @ ?X)"
    using X by (auto simp: sha1_window_def nth_append S)
  then have "sha1_inv ?X h (20 * 0) (?X @ ?X, 0, h)"
    by (simp add: sha1_inv_def)
  then have "sha1_inv ?X h (20 * n) (foldl ?f (?X @ ?X, 0, h) [0..<n])" if "n \<le> 4" for n
    using that
  proof (induction n)
    case (Suc n)
    have "sha1_inv ?X h (20 * n + 20) (?f (foldl ?f (?X @ ?X, 0, h) [0..<n]) n)"
      by (rule sha1_loop [OF X]) (use Suc in auto)
    then show ?case by (simp add: add.commute)
  qed simp
  from this [of 4] have "sha1_inv ?X h 80 (foldl ?f (?X @ ?X, 0, h) [0..<4])" by simp
  then obtain W where "foldl ?f (?X @ ?X, 0, h) [0..<4] = (W, 0, foldl (sha1_step ?S) h [0..<80])"
    unfolding sha1_inv_def by auto
  then show ?thesis
    by (simp only: sha1_block_def rev sha1_compress_def Let_def case_prod_beta fst_conv snd_conv prod.collapse)
qed

end
