(* ===== verification/Bb_Hash.thy ===== *)
theory Bb_Hash
  imports Bb_Sha
begin

text \<open>
  The contexts and the streaming calls of \<open>busybox/libbb/hash_md5_sha.c\<close> on a little-endian machine:
  \<open>common64_hash\<close> and \<open>common64_end\<close>, which MD5, SHA-1 and SHA-256 share through the function pointer
  \<open>process_block\<close>, and the calls of SHA-512 with its 128-byte buffer. The locale \<open>block64\<close> states what
  the shared code relies on (what the block function does to a context) and proves the shared code
  once; it is interpreted for the three digests, and all four implement \<open>digest_stream\<close>.
\<close>

unbundle bit_operations_syntax

section \<open>Definitions\<close>

text \<open>The values the pointer \<open>process_block\<close> takes.\<close>

datatype block_fn = Md5_process | Sha1_process | Sha256_process

record md5_ctx_t =
  wbuffer :: "byte list"
  process_block :: block_fn
  total64 :: u64
  hash :: "u32 list"

record sha512_ctx_t =
  total64_lo :: u64
  total64_hi :: u64
  hash512 :: "u64 list"
  wbuffer512 :: "byte list"

definition bswap_32 :: "u32 \<Rightarrow> u32" where
  "bswap_32 w = le32 (ucast (drop_bit 24 w)) (ucast (drop_bit 16 w)) (ucast (drop_bit 8 w)) (ucast w)"

definition bb_bswap_64 :: "u64 \<Rightarrow> u64" where
  "bb_bswap_64 w =
     push_bit 32 (ucast (bswap_32 (ucast w))) OR ucast (bswap_32 (ucast (drop_bit 32 w)))"

definition hash4 :: "'a list \<Rightarrow> 'a \<times> 'a \<times> 'a \<times> 'a" where
  "hash4 h = (h ! 0, h ! 1, h ! 2, h ! 3)"

definition hash5 :: "'a list \<Rightarrow> 'a \<times> 'a \<times> 'a \<times> 'a \<times> 'a" where
  "hash5 h = (h ! 0, h ! 1, h ! 2, h ! 3, h ! 4)"

definition hash8 :: "'a list \<Rightarrow> 'a oct" where
  "hash8 h = (h ! 0, h ! 1, h ! 2, h ! 3, h ! 4, h ! 5, h ! 6, h ! 7)"

text \<open>The setting of \<open>.config.bb\<close>.\<close>

definition CONFIG_MD5_SIZE_VS_SPEED :: int where
  "CONFIG_MD5_SIZE_VS_SPEED = 2"

text \<open>The block functions on a context.\<close>

definition md5_process_block64 :: "md5_ctx_t \<Rightarrow> md5_ctx_t" where
  "md5_process_block64 ctx =
     (case md5_block CONFIG_MD5_SIZE_VS_SPEED (wbuffer ctx) (hash4 (hash ctx)) of
        (a, b, c, d) \<Rightarrow> ctx\<lparr>hash := [a, b, c, d] @ drop 4 (hash ctx)\<rparr>)"

definition sha1_process_block64 :: "md5_ctx_t \<Rightarrow> md5_ctx_t" where
  "sha1_process_block64 ctx =
     (case sha1_block (wbuffer ctx) (hash5 (hash ctx)) of
        (a, b, c, d, e) \<Rightarrow> ctx\<lparr>hash := [a, b, c, d, e] @ drop 5 (hash ctx)\<rparr>)"

definition sha256_process_block64 :: "md5_ctx_t \<Rightarrow> md5_ctx_t" where
  "sha256_process_block64 ctx =
     (case sha256_block (wbuffer ctx) (hash8 (hash ctx)) of
        (a, b, c, d, e, f, g, h) \<Rightarrow> ctx\<lparr>hash := [a, b, c, d, e, f, g, h] @ drop 8 (hash ctx)\<rparr>)"

definition sha512_process_block128 :: "sha512_ctx_t \<Rightarrow> sha512_ctx_t" where
  "sha512_process_block128 ctx =
     (case sha512_block (wbuffer512 ctx) (hash8 (hash512 ctx)) of
        (a, b, c, d, e, f, g, h) \<Rightarrow> ctx\<lparr>hash512 := [a, b, c, d, e, f, g, h] @ drop 8 (hash512 ctx)\<rparr>)"

text \<open>\<open>ctx->process_block (ctx)\<close>.\<close>

definition call_process_block :: "md5_ctx_t \<Rightarrow> md5_ctx_t" where
  "call_process_block ctx = (case process_block ctx of
       Md5_process \<Rightarrow> md5_process_block64 ctx
     | Sha1_process \<Rightarrow> sha1_process_block64 ctx
     | Sha256_process \<Rightarrow> sha256_process_block64 ctx)"

function common64_loop :: "md5_ctx_t \<Rightarrow> nat \<Rightarrow> byte list \<Rightarrow> md5_ctx_t" where
  "common64_loop ctx bufpos buffer =
     (let remaining = min (64 - bufpos) (length buffer);
          ctx = ctx\<lparr>wbuffer := poke (wbuffer ctx) bufpos (take remaining buffer)\<rparr>;
          buffer' = drop remaining buffer;
          bufpos' = bufpos + remaining
      in if bufpos' \<noteq> 64 then ctx else common64_loop (call_process_block ctx) 0 buffer')"
  by pat_completeness auto
termination
  by (relation "measures [\<lambda>(ctx, bufpos, buffer). length buffer, \<lambda>(ctx, bufpos, buffer). bufpos]") auto

declare common64_loop.simps [simp del]

definition common64_hash :: "md5_ctx_t \<Rightarrow> byte list \<Rightarrow> md5_ctx_t" where
  "common64_hash ctx buffer =
     (let bufpos = unat (total64 ctx AND 63);
          ctx = ctx\<lparr>total64 := total64 ctx + of_nat (length buffer)\<rparr>
      in common64_loop ctx bufpos buffer)"

function common64_end_loop :: "md5_ctx_t \<Rightarrow> nat \<Rightarrow> bool \<Rightarrow> md5_ctx_t" where
  "common64_end_loop ctx bufpos swap_needed =
     (let remaining = 64 - bufpos;
          ctx = ctx\<lparr>wbuffer := poke (wbuffer ctx) bufpos (replicate remaining 0)\<rparr>;
          ctx =
            (if remaining \<ge> 8 then
               let t = push_bit 3 (total64 ctx);
                   t = (if swap_needed then bb_bswap_64 t else t)
               in ctx\<lparr>wbuffer := poke (wbuffer ctx) (64 - 8) (le_bytes64 t)\<rparr>
             else ctx);
          ctx = call_process_block ctx
      in if remaining \<ge> 8 then ctx else common64_end_loop ctx 0 swap_needed)"
  by pat_completeness auto
termination
  by (relation "measure (\<lambda>(ctx, bufpos, swap). bufpos)") auto

declare common64_end_loop.simps [simp del]

definition common64_end :: "md5_ctx_t \<Rightarrow> bool \<Rightarrow> md5_ctx_t" where
  "common64_end ctx swap_needed =
     (let bufpos = unat (total64 ctx AND 63);
          ctx = ctx\<lparr>wbuffer := (wbuffer ctx)[bufpos := 0x80]\<rparr>
      in common64_end_loop ctx (bufpos + 1) swap_needed)"

definition md5_begin :: "md5_ctx_t \<Rightarrow> md5_ctx_t" where
  "md5_begin ctx = ctx\<lparr>hash := [0x67452301, 0xefcdab89, 0x98badcfe, 0x10325476] @ drop 4 (hash ctx),
     total64 := 0, process_block := Md5_process\<rparr>"

definition md5_hash :: "md5_ctx_t \<Rightarrow> byte list \<Rightarrow> md5_ctx_t" where
  "md5_hash ctx buffer = common64_hash ctx buffer"

text \<open>The first bytes of \<open>resbuf\<close> and the context afterwards.\<close>

definition md5_end :: "md5_ctx_t \<Rightarrow> byte list \<times> md5_ctx_t" where
  "md5_end ctx =
     (let ctx = common64_end ctx False
      in (concat (map le_bytes32 (take 4 (hash ctx))), ctx))"

definition sha1_begin :: "md5_ctx_t \<Rightarrow> md5_ctx_t" where
  "sha1_begin ctx =
     ctx\<lparr>hash := [0x67452301, 0xefcdab89, 0x98badcfe, 0x10325476, 0xc3d2e1f0] @ drop 5 (hash ctx),
         total64 := 0, process_block := Sha1_process\<rparr>"

definition init256 :: "u32 list" where
  "init256 = [0, 0, 0x6a09e667, 0xbb67ae85, 0x3c6ef372, 0xa54ff53a, 0x510e527f, 0x9b05688c, 0x1f83d9ab, 0x5be0cd19]"

definition init512_lo :: "u32 list" where
  "init512_lo = [0, 0, 0xf3bcc908, 0x84caa73b, 0xfe94f82b, 0x5f1d36f1, 0xade682d1, 0x2b3e6c1f, 0xfb41bd6b, 0x137e2179]"

text \<open>The first two words of \<open>init256\<close> are copied into \<open>total64\<close>, the others into \<open>hash\<close> behind it.\<close>

definition sha256_begin :: "md5_ctx_t \<Rightarrow> md5_ctx_t" where
  "sha256_begin ctx =
     ctx\<lparr>total64 := ucast (init256 ! 0) OR push_bit 32 (ucast (init256 ! 1)),
         hash := drop 2 init256, process_block := Sha256_process\<rparr>"

definition sha512_begin :: "sha512_ctx_t \<Rightarrow> sha512_ctx_t" where
  "sha512_begin ctx =
     (let tp = map (\<lambda>i. push_bit 32 (ucast (init256 ! i)) + ucast (init512_lo ! i)) [0..<10]
      in ctx\<lparr>total64_lo := tp ! 0, total64_hi := tp ! 1, hash512 := drop 2 tp\<rparr>)"

function sha512_loop :: "sha512_ctx_t \<Rightarrow> nat \<Rightarrow> byte list \<Rightarrow> sha512_ctx_t" where
  "sha512_loop ctx bufpos buffer =
     (let remaining = min (128 - bufpos) (length buffer);
          ctx = ctx\<lparr>wbuffer512 := poke (wbuffer512 ctx) bufpos (take remaining buffer)\<rparr>;
          buffer' = drop remaining buffer;
          bufpos' = bufpos + remaining
      in if bufpos' \<noteq> 128 then ctx else sha512_loop (sha512_process_block128 ctx) 0 buffer')"
  by pat_completeness auto
termination
  by (relation "measures [\<lambda>(ctx, bufpos, buffer). length buffer, \<lambda>(ctx, bufpos, buffer). bufpos]") auto

declare sha512_loop.simps [simp del]

definition sha512_hash :: "sha512_ctx_t \<Rightarrow> byte list \<Rightarrow> sha512_ctx_t" where
  "sha512_hash ctx buffer =
     (let bufpos = unat (total64_lo ctx AND 127);
          len = of_nat (length buffer);
          ctx = ctx\<lparr>total64_lo := total64_lo ctx + len\<rparr>;
          ctx = (if total64_lo ctx < len then ctx\<lparr>total64_hi := total64_hi ctx + 1\<rparr> else ctx)
      in sha512_loop ctx bufpos buffer)"

definition sha1_end :: "md5_ctx_t \<Rightarrow> byte list \<times> md5_ctx_t" where
  "sha1_end ctx =
     (let ctx = common64_end ctx True;
          hash_size = (if process_block ctx = Sha1_process then 5 else 8);
          ctx = ctx\<lparr>hash := map bswap_32 (take hash_size (hash ctx)) @ drop hash_size (hash ctx)\<rparr>
      in (concat (map le_bytes32 (take hash_size (hash ctx))), ctx))"

function sha512_end_loop :: "sha512_ctx_t \<Rightarrow> nat \<Rightarrow> sha512_ctx_t" where
  "sha512_end_loop ctx bufpos =
     (let remaining = 128 - bufpos;
          ctx = ctx\<lparr>wbuffer512 := poke (wbuffer512 ctx) bufpos (replicate remaining 0)\<rparr>;
          ctx =
            (if remaining \<ge> 16 then
               let t = bb_bswap_64 (push_bit 3 (total64_lo ctx));
                   ctx = ctx\<lparr>wbuffer512 := poke (wbuffer512 ctx) (128 - 8) (le_bytes64 t)\<rparr>;
                   t = bb_bswap_64 (push_bit 3 (total64_hi ctx) OR drop_bit 61 (total64_lo ctx))
               in ctx\<lparr>wbuffer512 := poke (wbuffer512 ctx) (128 - 16) (le_bytes64 t)\<rparr>
             else ctx);
          ctx = sha512_process_block128 ctx
      in if remaining \<ge> 16 then ctx else sha512_end_loop ctx 0)"
  by pat_completeness auto
termination
  by (relation "measure (\<lambda>(ctx, bufpos). bufpos)") auto

declare sha512_end_loop.simps [simp del]

definition sha512_end :: "sha512_ctx_t \<Rightarrow> byte list \<times> sha512_ctx_t" where
  "sha512_end ctx =
     (let bufpos = unat (total64_lo ctx AND 127);
          ctx = ctx\<lparr>wbuffer512 := (wbuffer512 ctx)[bufpos := 0x80]\<rparr>;
          ctx = sha512_end_loop ctx (bufpos + 1);
          ctx = ctx\<lparr>hash512 := map bb_bswap_64 (hash512 ctx)\<rparr>
      in (concat (map le_bytes64 (hash512 ctx)), ctx))"

section \<open>Byte order\<close>

lemma ucast_le32:
  "ucast (le32 b0 b1 b2 b3) = b0" "ucast (drop_bit 8 (le32 b0 b1 b2 b3)) = b1"
  "ucast (drop_bit 16 (le32 b0 b1 b2 b3)) = b2" "ucast (drop_bit 24 (le32 b0 b1 b2 b3)) = b3"
  by (rule bit_word_eqI; auto simp: le32_def bit_simps dest: bit_imp_le_length)+

lemma le_bytes32_bswap: "le_bytes32 (bswap_32 w) = be_bytes32 w"
  by (simp add: le_bytes32_def be_bytes32_def bswap_32_def ucast_le32)

lemma word_halves:
  fixes x y :: u32
  shows "ucast (push_bit 32 (ucast x) OR ucast y :: u64) = y"
    and "ucast (drop_bit 32 (push_bit 32 (ucast x) OR ucast y :: u64)) = x"
  by (rule bit_word_eqI; auto simp: bit_simps dest: bit_imp_le_length)+

lemma le_bytes64_bswap: "le_bytes64 (bb_bswap_64 w) = be_bytes64 w"
  unfolding le_bytes64_def bb_bswap_64_def be_bytes64_def word_halves le_bytes32_bswap
  by (simp add: be_bytes32_def)

lemma bufpos_mod: "unat (of_nat l AND 63 :: u64) = l mod 64" "unat (of_nat l AND 127 :: u64) = l mod 128"
proof -
  have "(of_nat l AND 63 :: u64) = take_bit 6 (of_nat l)" "(of_nat l AND 127 :: u64) = take_bit 7 (of_nat l)"
    by (simp_all add: take_bit_eq_mask mask_eq_exp_minus_1)
  then show "unat (of_nat l AND 63 :: u64) = l mod 64" "unat (of_nat l AND 127 :: u64) = l mod 128"
    by (simp_all only: unat_take_bit_mod unat_u64_of_nat) (simp_all add: mod_mod_cancel)
qed

lemma bits_of_total: "push_bit 3 (of_nat l) = (of_nat (8 * l) :: u64)"
  by (simp add: push_bit_eq_mult)

section \<open>The shared code of MD5, SHA-1 and SHA-256\<close>

text \<open>
  The contract of a block function: on a context whose pointer is \<open>kind\<close>, it changes only the hash
  words, and their meaning \<open>view\<close> by the compression function.
\<close>

locale block64 =
  fixes kind :: block_fn
    and view :: "u32 list \<Rightarrow> 'h"
    and compress :: "'h \<Rightarrow> byte list \<Rightarrow> 'h"
    and h0 :: 'h
  assumes block_call: "process_block ctx = kind \<Longrightarrow> length (wbuffer ctx) = 64 \<Longrightarrow> length (hash ctx) = 8 \<Longrightarrow>
    \<exists>h. call_process_block ctx = ctx\<lparr>hash := h\<rparr> \<and> length h = 8 \<and>
      view h = compress (view (hash ctx)) (wbuffer ctx)"
begin

definition absorbed :: "md5_ctx_t \<Rightarrow> byte list \<Rightarrow> bool" where
  "absorbed ctx m \<longleftrightarrow> process_block ctx = kind \<and> length (hash ctx) = 8 \<and>
     view (hash ctx) = absorb 64 compress h0 m \<and> holds 64 (wbuffer ctx) m"

definition ctx_repr :: "md5_ctx_t \<Rightarrow> byte list \<Rightarrow> bool" where
  "ctx_repr ctx m \<longleftrightarrow> absorbed ctx m \<and> total64 ctx = of_nat (length m)"

lemma block_call_full:
  assumes "absorbed ctx m" and "length blk = 64" and "ctx' = ctx\<lparr>wbuffer := blk\<rparr>"
  shows "\<exists>h. call_process_block ctx' = ctx'\<lparr>hash := h\<rparr> \<and> length h = 8 \<and>
    view h = compress (absorb 64 compress h0 m) blk"
  using block_call [of ctx'] assms by (auto simp: absorbed_def)

lemma loop_absorbs:
  assumes "absorbed ctx m" and "p = length m mod 64"
  shows "absorbed (common64_loop ctx p b) (m @ b) \<and> total64 (common64_loop ctx p b) = total64 ctx"
  using assms
proof (induction "length b" arbitrary: ctx p b m rule: less_induct)
  case less
  have hold: "holds 64 (wbuffer ctx) m" using less.prems(1) by (simp add: absorbed_def)
  have p: "p < 64" using less.prems(2) by simp
  show ?case
  proof (cases "64 - p \<le> length b")
    case False
    then have lt: "p + length b < 64" by simp
    have step: "common64_loop ctx p b = ctx\<lparr>wbuffer := poke (wbuffer ctx) p b\<rparr>"
      using lt by (subst common64_loop.simps) (simp add: Let_def)
    show ?thesis
      unfolding step using less.prems holds_partial [OF hold, of b] absorb_partial(1) [of m 64 b compress h0] lt
      by (simp add: absorbed_def)
  next
    case True
    let ?k = "64 - p"
    let ?blk = "leftover 64 m @ take ?k b"
    have k: "?k = 64 - length m mod 64" using less.prems(2) by simp
    note fill = holds_fill [OF hold _ k True, simplified]
    have rem: "min (64 - p) (length b) = ?k" "p + ?k = 64" using True p by simp_all
    define ctx' where "ctx' = ctx\<lparr>wbuffer := ?blk\<rparr>"
    have step: "common64_loop ctx p b = common64_loop (call_process_block ctx') 0 (drop ?k b)"
      using rem fill(1) less.prems(2) by (subst common64_loop.simps) (simp add: Let_def ctx'_def)
    obtain h where h: "call_process_block ctx' = ctx'\<lparr>hash := h\<rparr>" "length h = 8"
      "view h = compress (absorb 64 compress h0 m) ?blk"
      using block_call_full [OF less.prems(1) _ ctx'_def] fill(2) by auto
    have "absorbed (call_process_block ctx') (m @ take ?k b)"
      using less.prems(1) h fill(2,4) holds_fill(3) [OF hold _ k True, of compress h0] by (simp add: absorbed_def ctx'_def)
    moreover have "0 = length (m @ take ?k b) mod 64"
      using fill(5) by simp
    moreover have "length (drop ?k b) < length b"
      using True p by simp
    ultimately have "absorbed (common64_loop (call_process_block ctx') 0 (drop ?k b)) ((m @ take ?k b) @ drop ?k b) \<and>
        total64 (common64_loop (call_process_block ctx') 0 (drop ?k b)) = total64 (call_process_block ctx')"
      using less.hyps by blast
    then show ?thesis
      unfolding step using h(1) by (simp add: ctx'_def)
  qed
qed

lemma hash_repr: "ctx_repr ctx m \<Longrightarrow> ctx_repr (common64_hash ctx b) (m @ b)"
proof -
  assume r: "ctx_repr ctx m"
  let ?ctx = "ctx\<lparr>total64 := total64 ctx + of_nat (length b)\<rparr>"
  have "absorbed ?ctx m" using r by (simp add: ctx_repr_def absorbed_def)
  from loop_absorbs [OF this refl, of b] r show ?thesis
    by (simp add: ctx_repr_def common64_hash_def bufpos_mod Let_def)
qed

text \<open>The padding, in one block or two.\<close>

lemma end_one_block:
  assumes "absorbed ctx m" and "q = length m mod 64" and "q + 9 \<le> 64"
    and "lf = le_bytes64 (if swap then bb_bswap_64 (push_bit 3 (total64 ctx)) else push_bit 3 (total64 ctx))"
  shows "\<exists>h b. common64_end_loop (ctx\<lparr>wbuffer := (wbuffer ctx)[q := 0x80]\<rparr>) (q + 1) swap = ctx\<lparr>wbuffer := b, hash := h\<rparr> \<and>
    length h = 8 \<and> view h = absorb 64 compress h0 (md_pad 64 lf m)"
proof -
  have lf: "length lf = 8" using assms(4) by simp
  let ?blk = "leftover 64 m @ 0x80 # replicate (63 - q - 8) 0 @ lf"
  have "poke ((wbuffer ctx)[q := 0x80]) (q + 1) (replicate (64 - (q + 1)) 0) = leftover 64 m @ 0x80 # replicate (64 - 1 - q) 0"
    using assms(1,2) by (intro holds_pad) (simp_all add: absorbed_def)
  moreover have "poke (leftover 64 m @ 0x80 # replicate (64 - 1 - q) 0) (64 - length lf) lf
      = leftover 64 m @ 0x80 # replicate (64 - 1 - q - length lf) 0 @ lf"
    using assms(2,3) lf by (intro pad_length_one) simp_all
  ultimately have step: "common64_end_loop (ctx\<lparr>wbuffer := (wbuffer ctx)[q := 0x80]\<rparr>) (q + 1) swap
      = call_process_block (ctx\<lparr>wbuffer := ?blk\<rparr>)"
    using assms(3) lf assms(4) by (subst common64_end_loop.simps) (simp add: Let_def)
  have "length ?blk = 64"
    using assms(2,3) lf by (simp add: length_leftover)
  then obtain h where "call_process_block (ctx\<lparr>wbuffer := ?blk\<rparr>) = ctx\<lparr>wbuffer := ?blk, hash := h\<rparr>" "length h = 8"
    "view h = compress (absorb 64 compress h0 m) ?blk"
    using block_call_full [OF assms(1) _ refl] by blast
  then show ?thesis
    unfolding step using absorb_pad_one [of lf 64 m compress h0] assms(2,3) lf by fastforce
qed

lemma end_two_blocks:
  assumes "absorbed ctx m" and "q = length m mod 64" and "64 < q + 9"
    and "lf = le_bytes64 (if swap then bb_bswap_64 (push_bit 3 (total64 ctx)) else push_bit 3 (total64 ctx))"
  shows "\<exists>h b. common64_end_loop (ctx\<lparr>wbuffer := (wbuffer ctx)[q := 0x80]\<rparr>) (q + 1) swap = ctx\<lparr>wbuffer := b, hash := h\<rparr> \<and>
    length h = 8 \<and> view h = absorb 64 compress h0 (md_pad 64 lf m)"
proof -
  have lf: "length lf = 8" using assms(4) by simp
  let ?b1 = "leftover 64 m @ 0x80 # replicate (64 - 1 - q) 0" and ?b2 = "replicate 56 0 @ lf"
  have q: "q < 64" using assms(2) by simp
  have b1: "poke ((wbuffer ctx)[q := 0x80]) (q + 1) (replicate (64 - (q + 1)) 0) = ?b1"
    using assms(1,2) by (intro holds_pad) (simp_all add: absorbed_def)
  have l1: "length ?b1 = 64" using assms(2) q by (simp add: length_leftover)
  then obtain h1 where h1: "call_process_block (ctx\<lparr>wbuffer := ?b1\<rparr>) = ctx\<lparr>wbuffer := ?b1, hash := h1\<rparr>" "length h1 = 8"
    "view h1 = compress (absorb 64 compress h0 m) ?b1"
    using block_call_full [OF assms(1) _ refl] by blast
  have "poke (poke ?b1 0 (replicate 64 0)) (64 - length lf) lf = replicate (64 - length lf) 0 @ lf"
    by (rule pad_length_two [OF l1]) (simp add: lf)
  then have second: "common64_end_loop (ctx\<lparr>wbuffer := ?b1, hash := h1\<rparr>) 0 swap
      = call_process_block (ctx\<lparr>hash := h1, wbuffer := ?b2\<rparr>)"
    using lf assms(4) by (subst common64_end_loop.simps) (simp add: Let_def)
  have first: "common64_end_loop (ctx\<lparr>wbuffer := (wbuffer ctx)[q := 0x80]\<rparr>) (q + 1) swap
      = common64_end_loop (ctx\<lparr>wbuffer := ?b1, hash := h1\<rparr>) 0 swap"
    using assms(3) b1 h1(1) by (subst common64_end_loop.simps) (simp add: Let_def)
  have "length ?b2 = 64" by (simp add: lf)
  then obtain h where "call_process_block (ctx\<lparr>hash := h1, wbuffer := ?b2\<rparr>) = ctx\<lparr>wbuffer := ?b2, hash := h\<rparr>"
    "length h = 8" "view h = compress (view h1) ?b2"
    using block_call [of "ctx\<lparr>hash := h1, wbuffer := ?b2\<rparr>"] assms(1) h1(2) by (auto simp: absorbed_def)
  then show ?thesis
    unfolding first second using absorb_pad_two [of lf 64 m compress h0] assms(2,3) lf h1(3) by fastforce
qed

lemma end_hash:
  assumes "ctx_repr ctx m" and "lf = (if swap then be_bytes64 (of_nat (8 * length m)) else le_bytes64 (of_nat (8 * length m)))"
  shows "process_block (common64_end ctx swap) = kind \<and> length (hash (common64_end ctx swap)) = 8 \<and>
    view (hash (common64_end ctx swap)) = absorb 64 compress h0 (md_pad 64 lf m)"
proof -
  have a: "absorbed ctx m" and t: "total64 ctx = of_nat (length m)"
    using assms(1) by (simp_all add: ctx_repr_def)
  have lf: "lf = le_bytes64 (if swap then bb_bswap_64 (push_bit 3 (total64 ctx)) else push_bit 3 (total64 ctx))"
    unfolding assms(2) t bits_of_total by (cases swap) (simp_all only: if_True if_False le_bytes64_bswap)
  have "\<exists>h b. common64_end ctx swap = ctx\<lparr>wbuffer := b, hash := h\<rparr> \<and> length h = 8 \<and>
      view h = absorb 64 compress h0 (md_pad 64 lf m)"
    using end_one_block [OF a refl _ lf] end_two_blocks [OF a refl _ lf]
    by (cases "length m mod 64 + 9 \<le> 64") (simp_all add: common64_end_def t bufpos_mod Let_def)
  then show ?thesis
    using a by (auto simp: absorbed_def)
qed

end

section \<open>MD5, SHA-1 and SHA-256\<close>

definition fits64 :: "byte list \<Rightarrow> bool" where
  "fits64 b \<longleftrightarrow> length b < 2 ^ 64"

definition ctx64_wf :: "md5_ctx_t \<Rightarrow> bool" where
  "ctx64_wf ctx \<longleftrightarrow> length (wbuffer ctx) = 64 \<and> length (hash ctx) = 8"

lemma hash_views [simp]:
  "hash4 ([a, b, c, d] @ r) = (a, b, c, d)" "hash5 ([a, b, c, d, e] @ r) = (a, b, c, d, e)"
  "hash8 ([a, b, c, d, e, f, g, h] @ r) = (a, b, c, d, e, f, g, h)"
  by (simp_all add: hash4_def hash5_def hash8_def)

lemma list_of_hash:
  "length h = 8 \<Longrightarrow> take 4 h = (case hash4 h of (a, b, c, d) \<Rightarrow> [a, b, c, d])"
  "length h = 8 \<Longrightarrow> take 5 h = (case hash5 h of (a, b, c, d, e) \<Rightarrow> [a, b, c, d, e])"
  "length h = 8 \<Longrightarrow> h = (case hash8 h of (a, b, c, d, e, f, g, i) \<Rightarrow> [a, b, c, d, e, f, g, i])"
  by (auto simp: numeral_eq_Suc length_Suc_conv hash4_def hash5_def hash8_def)

interpretation md5_blk: block64 Md5_process hash4 md5_compress md5_h0
  by unfold_locales
    (auto simp: call_process_block_def md5_process_block64_def md5_block_compress simp del: append_Cons
      split: prod.split)

interpretation sha1_blk: block64 Sha1_process hash5 sha1_compress sha1_h0
  by unfold_locales
    (auto simp: call_process_block_def sha1_process_block64_def sha1_block_compress simp del: append_Cons
      split: prod.split)

interpretation sha256_blk: block64 Sha256_process hash8 sha256_compress sha256_h0
  by unfold_locales
    (auto simp: call_process_block_def sha256_process_block64_def sha256_block_compress hash_views [where r = "[]", simplified]
      intro!: exI split: prod.split)

lemma begin_repr:
  assumes "ctx64_wf ctx"
  shows "md5_blk.ctx_repr (md5_begin ctx) []" and "sha1_blk.ctx_repr (sha1_begin ctx) []"
    and "sha256_blk.ctx_repr (sha256_begin ctx) []"
  using assms
  unfolding md5_blk.ctx_repr_def sha1_blk.ctx_repr_def sha256_blk.ctx_repr_def md5_blk.absorbed_def
    sha1_blk.absorbed_def sha256_blk.absorbed_def
  by (simp_all add: ctx64_wf_def md5_begin_def sha1_begin_def sha256_begin_def
      holds_def md5_h0_def sha1_h0_def sha256_h0_def hash4_def hash5_def hash8_def init256_def)

lemma md5_end_digest: "md5_blk.ctx_repr ctx m \<Longrightarrow> fst (md5_end ctx) = md5_digest m"
  using md5_blk.end_hash [of ctx m _ False]
  by (auto simp: md5_end_def md5_digest_def md5_lenfield_def quad_bytes_def list_of_hash Let_def split: prod.split)

lemma sha_end_bytes:
  "map le_bytes32 (map bswap_32 hs) = map be_bytes32 hs"
  by (simp add: le_bytes32_bswap)

lemma sha1_end_digest: "sha1_blk.ctx_repr ctx m \<Longrightarrow> fst (sha1_end ctx) = sha1_digest m"
  using sha1_blk.end_hash [of ctx m _ True]
  by (auto simp: sha1_end_def sha1_digest_def sha_lenfield_def list_of_hash Let_def le_bytes32_bswap
      split: prod.split)

lemma sha256_end_digest: "sha256_blk.ctx_repr ctx m \<Longrightarrow> fst (sha1_end ctx) = sha256_digest m"
proof -
  assume r: "sha256_blk.ctx_repr ctx m"
  let ?h = "hash (common64_end ctx True)"
  have e: "process_block (common64_end ctx True) = Sha256_process" "length ?h = 8"
    "hash8 ?h = absorb 64 sha256_compress sha256_h0 (md_pad 64 (sha_lenfield m) m)"
    using sha256_blk.end_hash [OF r refl, of True] by (simp_all add: sha_lenfield_def)
  then have "fst (sha1_end ctx) = concat (map be_bytes32 ?h)"
    by (simp add: sha1_end_def Let_def sha_end_bytes [unfolded map_map])
  also have "?h = (case hash8 ?h of (a, b, c, d, e, f, g, i) \<Rightarrow> [a, b, c, d, e, f, g, i])"
    by (rule list_of_hash(3) [OF e(2)])
  finally show ?thesis
    unfolding e(3) sha256_digest_def by (simp add: case_prod_beta)
qed

interpretation bb_md5: digest_stream md5_begin md5_hash "\<lambda>ctx. fst (md5_end ctx)" fits64 ctx64_wf
  md5_blk.ctx_repr md5_digest
  by unfold_locales (simp_all add: begin_repr md5_hash_def md5_blk.hash_repr md5_end_digest)

interpretation bb_sha1: digest_stream sha1_begin md5_hash "\<lambda>ctx. fst (sha1_end ctx)" fits64 ctx64_wf
  sha1_blk.ctx_repr sha1_digest
  by unfold_locales (simp_all add: begin_repr md5_hash_def sha1_blk.hash_repr sha1_end_digest)

interpretation bb_sha256: digest_stream sha256_begin md5_hash "\<lambda>ctx. fst (sha1_end ctx)" fits64 ctx64_wf
  sha256_blk.ctx_repr sha256_digest
  by unfold_locales (simp_all add: begin_repr md5_hash_def sha256_blk.hash_repr sha256_end_digest)

section \<open>SHA-512\<close>

definition sha512_absorbed :: "sha512_ctx_t \<Rightarrow> byte list \<Rightarrow> bool" where
  "sha512_absorbed ctx m \<longleftrightarrow> length (hash512 ctx) = 8 \<and>
     hash8 (hash512 ctx) = absorb 128 sha512_compress sha512_h0 m \<and> holds 128 (wbuffer512 ctx) m"

definition sha512_repr :: "sha512_ctx_t \<Rightarrow> byte list \<Rightarrow> bool" where
  "sha512_repr ctx m \<longleftrightarrow> sha512_absorbed ctx m \<and> total64_lo ctx = of_nat (length m) \<and>
     total64_hi ctx = of_nat (length m div 2 ^ 64)"

definition ctx512_wf :: "sha512_ctx_t \<Rightarrow> bool" where
  "ctx512_wf ctx \<longleftrightarrow> length (wbuffer512 ctx) = 128"

lemma sha512_call:
  assumes "length (hash512 ctx) = 8"
  shows "\<exists>h. sha512_process_block128 ctx = ctx\<lparr>hash512 := h\<rparr> \<and> length h = 8 \<and>
    hash8 h = sha512_compress (hash8 (hash512 ctx)) (wbuffer512 ctx)"
  using assms
  by (auto simp: sha512_process_block128_def sha512_block_compress hash_views [where r = "[]", simplified]
      intro!: exI split: prod.split)

lemma sha512_loop_absorbs:
  assumes "sha512_absorbed ctx m" and "p = length m mod 128"
  shows "sha512_absorbed (sha512_loop ctx p b) (m @ b) \<and> total64_lo (sha512_loop ctx p b) = total64_lo ctx \<and>
    total64_hi (sha512_loop ctx p b) = total64_hi ctx"
  using assms
proof (induction "length b" arbitrary: ctx p b m rule: less_induct)
  case less
  have hold: "holds 128 (wbuffer512 ctx) m" using less.prems(1) by (simp add: sha512_absorbed_def)
  have p: "p < 128" using less.prems(2) by simp
  show ?case
  proof (cases "128 - p \<le> length b")
    case False
    then have lt: "p + length b < 128" by simp
    have step: "sha512_loop ctx p b = ctx\<lparr>wbuffer512 := poke (wbuffer512 ctx) p b\<rparr>"
      using lt by (subst sha512_loop.simps) (simp add: Let_def)
    show ?thesis
      unfolding step using less.prems holds_partial [OF hold, of b] lt
        absorb_partial(1) [of m 128 b sha512_compress sha512_h0]
      by (simp add: sha512_absorbed_def)
  next
    case True
    let ?k = "128 - p"
    let ?blk = "leftover 128 m @ take ?k b"
    have k: "?k = 128 - length m mod 128" using less.prems(2) by simp
    note fill = holds_fill [OF hold _ k True, simplified]
    have rem: "min (128 - p) (length b) = ?k" "p + ?k = 128" using True p by simp_all
    define ctx' where "ctx' = ctx\<lparr>wbuffer512 := ?blk\<rparr>"
    have step: "sha512_loop ctx p b = sha512_loop (sha512_process_block128 ctx') 0 (drop ?k b)"
      using rem fill(1) less.prems(2) by (subst sha512_loop.simps) (simp add: Let_def ctx'_def)
    obtain h where h: "sha512_process_block128 ctx' = ctx'\<lparr>hash512 := h\<rparr>" "length h = 8"
      "hash8 h = sha512_compress (absorb 128 sha512_compress sha512_h0 m) ?blk"
      using sha512_call [of ctx'] less.prems(1) by (auto simp: sha512_absorbed_def ctx'_def)
    have "sha512_absorbed (sha512_process_block128 ctx') (m @ take ?k b)"
      using less.prems(1) h fill(2,4) holds_fill(3) [OF hold _ k True, of sha512_compress sha512_h0]
      by (simp add: sha512_absorbed_def ctx'_def)
    moreover have "0 = length (m @ take ?k b) mod 128"
      using fill(5) by simp
    moreover have "length (drop ?k b) < length b"
      using True p by simp
    ultimately have "sha512_absorbed (sha512_loop (sha512_process_block128 ctx') 0 (drop ?k b)) ((m @ take ?k b) @ drop ?k b) \<and>
        total64_lo (sha512_loop (sha512_process_block128 ctx') 0 (drop ?k b)) = total64_lo (sha512_process_block128 ctx') \<and>
        total64_hi (sha512_loop (sha512_process_block128 ctx') 0 (drop ?k b)) = total64_hi (sha512_process_block128 ctx')"
      using less.hyps by blast
    then show ?thesis
      unfolding step using h(1) by (simp add: ctx'_def)
  qed
qed

lemma total128_carry:
  assumes "k < 2 ^ 64"
  shows "(if of_nat l + of_nat k < (of_nat k :: u64) then of_nat (l div 2 ^ 64) + 1 else of_nat (l div 2 ^ 64))
    = (of_nat ((l + k) div 2 ^ 64) :: u64)"
proof -
  have len64: "LENGTH(64) = 64" by simp
  have carry: "of_nat l + of_nat k < (of_nat k :: u64) \<longleftrightarrow> 2 ^ 64 \<le> l mod 2 ^ 64 + k mod 2 ^ 64"
    unfolding add.commute [of "of_nat l" "of_nat k"] add_carry_iff unat_u64_of_nat len64
    by (simp only: add.commute)
  have "(l + k) div 2 ^ 64 = l div 2 ^ 64 + k div 2 ^ 64 + (if 2 ^ 64 \<le> l mod 2 ^ 64 + k mod 2 ^ 64 then 1 else 0)"
    by (rule div_add_carry) simp
  moreover have "k div 2 ^ 64 = 0" using assms by simp
  ultimately show ?thesis
    unfolding carry by simp
qed

lemma sha512_hash_repr: "sha512_repr ctx m \<Longrightarrow> fits64 b \<Longrightarrow> sha512_repr (sha512_hash ctx b) (m @ b)"
proof -
  assume r: "sha512_repr ctx m" and f: "fits64 b"
  have t: "total64_lo ctx = of_nat (length m)" "total64_hi ctx = of_nat (length m div 2 ^ 64)"
    using r by (simp_all add: sha512_repr_def)
  define ctx' where "ctx' = ctx\<lparr>total64_lo := of_nat (length m + length b),
    total64_hi := of_nat ((length m + length b) div 2 ^ 64)\<rparr>"
  have "length b < 2 ^ 64" using f by (simp only: fits64_def)
  note carry = total128_carry [OF this, of "length m"]
  have "(if of_nat (length m) + of_nat (length b) < (of_nat (length b) :: u64)
      then ctx\<lparr>total64_lo := of_nat (length m) + of_nat (length b), total64_hi := total64_hi ctx + 1\<rparr>
      else ctx\<lparr>total64_lo := of_nat (length m) + of_nat (length b)\<rparr>)
    = ctx\<lparr>total64_lo := of_nat (length m) + of_nat (length b), total64_hi :=
      (if of_nat (length m) + of_nat (length b) < (of_nat (length b) :: u64)
       then of_nat (length m div 2 ^ 64) + 1 else of_nat (length m div 2 ^ 64))\<rparr>"
    using t(2) by (cases ctx) simp
  also have "\<dots> = ctx'"
    unfolding carry ctx'_def by simp
  finally have "sha512_hash ctx b = sha512_loop ctx' (length m mod 128) b"
    by (simp add: sha512_hash_def Let_def bufpos_mod t(1) split: if_splits)
  moreover have "sha512_absorbed ctx' m"
    using r by (simp add: sha512_repr_def sha512_absorbed_def ctx'_def)
  ultimately show ?thesis
    using sha512_loop_absorbs [of ctx' m "length m mod 128" b] by (simp add: sha512_repr_def ctx'_def)
qed

text \<open>The upper word of the number of bits.\<close>

lemma bits_high128:
  "push_bit 3 (of_nat (l div 2 ^ 64)) OR drop_bit 61 (of_nat l) = (of_nat (8 * l div 2 ^ 64) :: u64)"
proof (rule bit_word_eqI)
  fix i
  assume "i < LENGTH(64)"
  then have i: "i < 64" by simp
  have "8 * l div 2 ^ 64 = drop_bit 61 l"
    by (simp add: drop_bit_eq_div)
  moreover have "l div 2 ^ 64 = drop_bit 64 l"
    by (simp add: drop_bit_eq_div)
  ultimately show "bit (push_bit 3 (of_nat (l div 2 ^ 64)) OR drop_bit 61 (of_nat l) :: u64) i
      = bit (of_nat (8 * l div 2 ^ 64) :: u64) i"
    using i by (auto simp: bit_simps simp del: div_mult_self1 dest: bit_imp_le_length)
qed

lemma sha512_length_bytes:
  assumes "length wb = 128" and "length lo = 8" and "length hi = 8"
  shows "poke (poke wb 120 lo) 112 hi = poke wb 112 (hi @ lo)"
  using assms by (simp add: poke_def)

text \<open>The bytes of the length as the loop stores them.\<close>

definition sha512_lenbytes :: "sha512_ctx_t \<Rightarrow> byte list" where
  "sha512_lenbytes ctx = be_bytes64 (push_bit 3 (total64_hi ctx) OR drop_bit 61 (total64_lo ctx)) @
     be_bytes64 (push_bit 3 (total64_lo ctx))"

lemma length_sha512_lenbytes [simp]: "length (sha512_lenbytes ctx) = 16"
  by (simp add: sha512_lenbytes_def)

lemma sha512_end_last:
  assumes "length (poke (wbuffer512 ctx) p (replicate (128 - p) 0)) = 128" and "p + 16 \<le> 128"
  shows "sha512_end_loop ctx p = sha512_process_block128
    (ctx\<lparr>wbuffer512 := poke (poke (wbuffer512 ctx) p (replicate (128 - p) 0)) 112 (sha512_lenbytes ctx)\<rparr>)"
  using assms(2)
  by (subst sha512_end_loop.simps)
    (simp add: Let_def le_bytes64_bswap sha512_length_bytes [OF assms(1)] sha512_lenbytes_def)

lemma sha512_end_one_block:
  assumes "sha512_absorbed ctx m" and "q = length m mod 128" and "q + 17 \<le> 128"
    and "lf = sha512_lenbytes ctx"
  shows "\<exists>h b. sha512_end_loop (ctx\<lparr>wbuffer512 := (wbuffer512 ctx)[q := 0x80]\<rparr>) (q + 1) = ctx\<lparr>wbuffer512 := b, hash512 := h\<rparr> \<and>
    length h = 8 \<and> hash8 h = absorb 128 sha512_compress sha512_h0 (md_pad 128 lf m)"
proof -
  let ?ctx = "ctx\<lparr>wbuffer512 := (wbuffer512 ctx)[q := 0x80]\<rparr>"
  let ?blk = "leftover 128 m @ 0x80 # replicate (127 - q - 16) 0 @ lf"
  have lf: "length lf = 16" "sha512_lenbytes ?ctx = lf" using assms(4) by (simp_all add: sha512_lenbytes_def)
  have z: "poke ((wbuffer512 ctx)[q := 0x80]) (q + 1) (replicate (128 - (q + 1)) 0) = leftover 128 m @ 0x80 # replicate (128 - 1 - q) 0"
    using assms(1,2) by (intro holds_pad) (simp_all add: sha512_absorbed_def)
  have "poke (leftover 128 m @ 0x80 # replicate (128 - 1 - q) 0) (128 - length lf) lf
      = leftover 128 m @ 0x80 # replicate (128 - 1 - q - length lf) 0 @ lf"
    using assms(2,3) lf by (intro pad_length_one) simp_all
  moreover have "length (leftover 128 m @ 0x80 # replicate (128 - 1 - q) 0) = 128"
    using assms(2,3) by (simp add: length_leftover)
  ultimately have step: "sha512_end_loop ?ctx (q + 1) = sha512_process_block128 (ctx\<lparr>wbuffer512 := ?blk\<rparr>)"
    using assms(3) lf z by (subst sha512_end_last) simp_all
  obtain h where "sha512_process_block128 (ctx\<lparr>wbuffer512 := ?blk\<rparr>) = ctx\<lparr>wbuffer512 := ?blk, hash512 := h\<rparr>" "length h = 8"
    "hash8 h = sha512_compress (absorb 128 sha512_compress sha512_h0 m) ?blk"
    using sha512_call [of "ctx\<lparr>wbuffer512 := ?blk\<rparr>"] assms(1) by (auto simp: sha512_absorbed_def)
  then show ?thesis
    unfolding step using absorb_pad_one [of lf 128 m sha512_compress sha512_h0] assms(2,3) lf by fastforce
qed

lemma sha512_end_two_blocks:
  assumes "sha512_absorbed ctx m" and "q = length m mod 128" and "128 < q + 17"
    and "lf = sha512_lenbytes ctx"
  shows "\<exists>h b. sha512_end_loop (ctx\<lparr>wbuffer512 := (wbuffer512 ctx)[q := 0x80]\<rparr>) (q + 1) = ctx\<lparr>wbuffer512 := b, hash512 := h\<rparr> \<and>
    length h = 8 \<and> hash8 h = absorb 128 sha512_compress sha512_h0 (md_pad 128 lf m)"
proof -
  let ?b1 = "leftover 128 m @ 0x80 # replicate (128 - 1 - q) 0" and ?b2 = "replicate 112 0 @ lf"
  have lf: "length lf = 16" using assms(4) by simp
  have q: "q < 128" using assms(2) by simp
  have b1: "poke ((wbuffer512 ctx)[q := 0x80]) (q + 1) (replicate (128 - (q + 1)) 0) = ?b1"
    using assms(1,2) by (intro holds_pad) (simp_all add: sha512_absorbed_def)
  have l1: "length ?b1 = 128" using assms(2) q by (simp add: length_leftover)
  obtain h1 where h1: "sha512_process_block128 (ctx\<lparr>wbuffer512 := ?b1\<rparr>) = ctx\<lparr>wbuffer512 := ?b1, hash512 := h1\<rparr>" "length h1 = 8"
    "hash8 h1 = sha512_compress (absorb 128 sha512_compress sha512_h0 m) ?b1"
    using sha512_call [of "ctx\<lparr>wbuffer512 := ?b1\<rparr>"] assms(1) by (auto simp: sha512_absorbed_def)
  let ?ctx1 = "ctx\<lparr>wbuffer512 := ?b1, hash512 := h1\<rparr>"
  have first: "sha512_end_loop (ctx\<lparr>wbuffer512 := (wbuffer512 ctx)[q := 0x80]\<rparr>) (q + 1) = sha512_end_loop ?ctx1 0"
    using assms(3) b1 h1(1) by (subst sha512_end_loop.simps) (simp add: Let_def)
  have "poke (poke ?b1 0 (replicate 128 0)) (128 - length lf) lf = replicate (128 - length lf) 0 @ lf"
    by (rule pad_length_two [OF l1]) (simp add: lf)
  moreover have "sha512_lenbytes ?ctx1 = lf" using assms(4) by (simp add: sha512_lenbytes_def)
  ultimately have second: "sha512_end_loop ?ctx1 0 = sha512_process_block128 (ctx\<lparr>hash512 := h1, wbuffer512 := ?b2\<rparr>)"
    using l1 lf by (subst sha512_end_last) (simp_all add: length_poke)
  obtain h where "sha512_process_block128 (ctx\<lparr>hash512 := h1, wbuffer512 := ?b2\<rparr>) = ctx\<lparr>wbuffer512 := ?b2, hash512 := h\<rparr>"
    "length h = 8" "hash8 h = sha512_compress (hash8 h1) ?b2"
    using sha512_call [of "ctx\<lparr>hash512 := h1, wbuffer512 := ?b2\<rparr>"] h1(2) by auto
  then show ?thesis
    unfolding first second using absorb_pad_two [of lf 128 m sha512_compress sha512_h0] assms(2,3) lf h1(3) by fastforce
qed

lemma sha512_end_digest:
  assumes "sha512_repr ctx m"
  shows "fst (sha512_end ctx) = sha512_digest m"
proof -
  let ?q = "length m mod 128" and ?lf = "sha512_lenfield m"
  have a: "sha512_absorbed ctx m" and t: "total64_lo ctx = of_nat (length m)" "total64_hi ctx = of_nat (length m div 2 ^ 64)"
    using assms by (simp_all add: sha512_repr_def)
  have lf: "?lf = sha512_lenbytes ctx"
    unfolding sha512_lenfield_def sha512_lenbytes_def t bits_high128 unfolding bits_of_total ..
  let ?c = "sha512_end_loop (ctx\<lparr>wbuffer512 := (wbuffer512 ctx)[?q := 0x80]\<rparr>) (?q + 1)"
  have e: "length (hash512 ?c) = 8" "hash8 (hash512 ?c) = absorb 128 sha512_compress sha512_h0 (md_pad 128 ?lf m)"
    using sha512_end_one_block [OF a refl _ lf] sha512_end_two_blocks [OF a refl _ lf]
    by (cases "?q + 17 \<le> 128"; fastforce)+
  have "fst (sha512_end ctx) = concat (map be_bytes64 (hash512 ?c))"
    by (simp add: sha512_end_def Let_def t bufpos_mod le_bytes64_bswap comp_def)
  also have "hash512 ?c = (case hash8 (hash512 ?c) of (a, b, c, d, e, f, g, i) \<Rightarrow> [a, b, c, d, e, f, g, i])"
    by (rule list_of_hash(3) [OF e(1)])
  finally show ?thesis
    unfolding e(2) sha512_digest_def by (simp add: case_prod_beta)
qed

lemma sha512_begin_repr: "ctx512_wf ctx \<Longrightarrow> sha512_repr (sha512_begin ctx) []"
proof -
  assume wf: "ctx512_wf ctx"
  have "map (\<lambda>i. push_bit 32 (ucast (init256 ! i)) + ucast (init512_lo ! i)) [0..<10]
      = [0, 0, 0x6a09e667f3bcc908, 0xbb67ae8584caa73b, 0x3c6ef372fe94f82b, 0xa54ff53a5f1d36f1,
         0x510e527fade682d1, 0x9b05688c2b3e6c1f, 0x1f83d9abfb41bd6b, 0x5be0cd19137e2179 :: u64]"
    by (simp add: init256_def init512_lo_def upt_rec)
  then show ?thesis
    using wf by (simp add: sha512_begin_def Let_def sha512_repr_def sha512_absorbed_def ctx512_wf_def holds_def
        sha512_h0_def hash8_def)
qed

interpretation bb_sha512: digest_stream sha512_begin sha512_hash "\<lambda>ctx. fst (sha512_end ctx)" fits64 ctx512_wf
  sha512_repr sha512_digest
  by unfold_locales (simp_all add: sha512_begin_repr sha512_hash_repr sha512_end_digest)

section \<open>Properties\<close>

text \<open>
  C6: The digests of BusyBox. For each of MD5, SHA-1, SHA-256 and SHA-512, whatever stood in the context
  before, begin, any number of calls of hash on chunks of any size and end yield the digest of RFC 1321
  and FIPS 180 of the concatenation of the chunks.
\<close>

theorem bb_digests_correct:
  assumes "length (wbuffer ctx) = 64" and "length (hash ctx) = 8" and "length (wbuffer512 ctx') = 128"
    and "\<forall>b \<in> set bs. length b < 2 ^ 64"
  shows "fst (md5_end (foldl md5_hash (md5_begin ctx) bs)) = md5_digest (concat bs) \<and>
    fst (sha1_end (foldl md5_hash (sha1_begin ctx) bs)) = sha1_digest (concat bs) \<and>
    fst (sha1_end (foldl md5_hash (sha256_begin ctx) bs)) = sha256_digest (concat bs) \<and>
    fst (sha512_end (foldl sha512_hash (sha512_begin ctx') bs)) = sha512_digest (concat bs)"
proof -
  have wf: "ctx64_wf ctx" "ctx512_wf ctx'" using assms(1-3) by (simp_all add: ctx64_wf_def ctx512_wf_def)
  have f: "list_all fits64 bs" using assms(4) unfolding list_all_iff fits64_def .
  show ?thesis
    by (intro conjI bb_md5.stream_digest [OF wf(1) f] bb_sha1.stream_digest [OF wf(1) f]
        bb_sha256.stream_digest [OF wf(1) f] bb_sha512.stream_digest [OF wf(2) f])
qed

definition zero_ctx64 :: md5_ctx_t where
  "zero_ctx64 = \<lparr>wbuffer = replicate 64 0, process_block = Md5_process, total64 = 0, hash = replicate 8 0\<rparr>"

definition zero_ctx512 :: sha512_ctx_t where
  "zero_ctx512 = \<lparr>total64_lo = 0, total64_hi = 0, hash512 = [], wbuffer512 = replicate 128 0\<rparr>"

theorem bb_digests_correct_witness:
  "fst (md5_end (foldl md5_hash (md5_begin zero_ctx64) [[1], [2, 3]])) = md5_digest (concat [[1], [2, 3]]) \<and>
    fst (sha1_end (foldl md5_hash (sha1_begin zero_ctx64) [[1], [2, 3]])) = sha1_digest (concat [[1], [2, 3]]) \<and>
    fst (sha1_end (foldl md5_hash (sha256_begin zero_ctx64) [[1], [2, 3]])) = sha256_digest (concat [[1], [2, 3]]) \<and>
    fst (sha512_end (foldl sha512_hash (sha512_begin zero_ctx512) [[1], [2, 3]])) = sha512_digest (concat [[1], [2, 3]])"
  by (rule bb_digests_correct) (simp_all add: zero_ctx64_def zero_ctx512_def)

text \<open>
  Two implementations, one digest. The MD5 of \<open>mediacheck/md5.c\<close> and the one of BusyBox, built with any
  setting of \<open>CONFIG_MD5_SIZE_VS_SPEED\<close>, agree on every block, and on every stream, however each of them
  is given its chunks.
\<close>

theorem md5_implementations_agree:
  assumes "length (wbuffer ctx) = 64" and "length (hash ctx) = 8" and "length (md_in ctx') = 64"
    and "\<forall>b \<in> set bs. length b < 2 ^ 64" and "\<forall>b \<in> set bs'. length b < 2 ^ 32" and "concat bs = concat bs'"
  shows "md5_block speed blk h = MD5_Transform h (le_words blk) \<and>
    fst (md5_end (foldl md5_hash (md5_begin ctx) bs)) = fst (MD5_Final (foldl MD5_Update (MD5_Init ctx') bs'))"
proof
  show "md5_block speed blk h = MD5_Transform h (le_words blk)"
    by (simp only: md5_block_compress MD5_Transform_compress)
  have "ctx64_wf ctx" "md5_wf ctx'" "list_all fits64 bs" "list_all fits32 bs'"
    using assms(1-5) unfolding ctx64_wf_def md5_wf_def list_all_iff fits64_def fits32_def by blast+
  then show "fst (md5_end (foldl md5_hash (md5_begin ctx) bs)) = fst (MD5_Final (foldl MD5_Update (MD5_Init ctx') bs'))"
    using assms(6) bb_md5.stream_digest [of ctx bs] mediacheck_md5.stream_digest [of ctx' bs'] by simp
qed

theorem md5_implementations_agree_witness:
  "md5_block 0 (replicate 64 0) md5_h0 = MD5_Transform md5_h0 (le_words (replicate 64 0)) \<and>
    fst (md5_end (foldl md5_hash (md5_begin zero_ctx64) [[1, 2], [3]]))
      = fst (MD5_Final (foldl MD5_Update (MD5_Init zero_ctx) [[1], [2, 3]]))"
  by (rule md5_implementations_agree) (simp_all add: zero_ctx64_def zero_ctx_def)

end
