(* ===== verification/Bb_Io.thy ===== *)
theory Bb_Io
  imports Stdio
begin

text \<open>
  What the applets of BusyBox share for input and output: \<open>libbb/read.c\<close> (\<open>safe_read\<close> and
  \<open>full_read\<close> on a descriptor), \<open>libbb/wfopen_input.c\<close> (a file or the standard input) and
  \<open>libbb/get_line_from_file.c\<close> (lines of a text). A descriptor is the list of what the calls of
  \<open>read\<close> give one after the other; behind its end every call returns 0.
\<close>

section \<open>Definitions\<close>

subsection \<open>Descriptors\<close>

text \<open>A call of \<open>read\<close> gives data (up to the size asked for), is interrupted or fails.\<close>

datatype read_result = Data "byte list" | Eintr | Fail

type_synonym infile = "read_result list"

text \<open>\<open>safe_read\<close>: the bytes read (none at the end of the file) or \<open>None\<close> for the value \<open>-1\<close>.\<close>

fun safe_read :: "nat \<Rightarrow> infile \<Rightarrow> byte list option \<times> infile" where
  "safe_read count [] = (Some [], [])"
| "safe_read count (Data bs # fd) =
     (if length bs \<le> count then (Some bs, fd) else (Some (take count bs), Data (drop count bs) # fd))"
| "safe_read count (Eintr # fd) = safe_read count fd"
| "safe_read count (Fail # fd) = (None, fd)"

text \<open>\<open>full_read\<close>: an error behind some data only ends the data.\<close>

function full_read :: "nat \<Rightarrow> infile \<Rightarrow> byte list option \<times> infile" where
  "full_read len fd =
     (if len = 0 then (Some [], fd)
      else case safe_read len fd of
          (None, fd) \<Rightarrow> (None, fd)
        | (Some bs, fd) \<Rightarrow>
            if bs = [] then (Some [], fd)
            else case full_read (len - length bs) fd of
                (None, fd) \<Rightarrow> (Some bs, fd)
              | (Some rest, fd) \<Rightarrow> (Some (bs @ rest), fd))"
  by pat_completeness auto
termination
  by (relation "measure fst") auto

declare full_read.simps [simp del]

text \<open>
  The loop \<open>while ((n = safe_read (fd, buf, size)) > 0) upd (state, buf, n)\<close> of the checksum applets:
  the state, whether the loop has ended with the value 0, and the descriptor.
\<close>

fun read_weight :: "infile \<Rightarrow> nat" where
  "read_weight [] = 0"
| "read_weight (Data bs # fd) = Suc (length bs + read_weight fd)"
| "read_weight (_ # fd) = Suc (read_weight fd)"

lemma safe_read_weight:
  "safe_read count fd = (Some bs, fd') \<Longrightarrow> bs \<noteq> [] \<Longrightarrow> read_weight fd' < read_weight fd"
  by (induction count fd rule: safe_read.induct) (auto split: if_splits)

function read_each :: "nat \<Rightarrow> ('s \<Rightarrow> byte list \<Rightarrow> 's) \<Rightarrow> 's \<Rightarrow> infile \<Rightarrow> 's \<times> bool \<times> infile" where
  "read_each sz upd s fd =
     (case safe_read sz fd of
        (None, fd) \<Rightarrow> (s, False, fd)
      | (Some bs, fd) \<Rightarrow> if bs = [] then (s, True, fd) else read_each sz upd (upd s bs) fd)"
  by pat_completeness auto
termination
  by (relation "measure (\<lambda>(sz, upd, s, fd). read_weight fd)") (auto dest: safe_read_weight [OF sym])

declare read_each.simps [simp del]

subsection \<open>Files and messages\<close>

text \<open>
  The files that can be opened and whether \<open>close\<close> works on them, what is read from the standard
  input each time it is read to an end, and whether that has been closed. \<open>open_or_warn_stdin\<close>
  takes the name \<open>-\<close> for the standard input.
\<close>

datatype bb_msg = Print "byte list" | Error_Msg "byte list" | Perror_Msg "byte list"

record bb_io =
  io_open :: "string \<Rightarrow> infile option"
  io_close_ok :: "string \<Rightarrow> bool"
  io_stdin :: "infile list"
  io_stdin_closed :: bool
  io_out :: "bb_msg list"

definition put_msg :: "bb_msg \<Rightarrow> bb_io \<Rightarrow> bb_io" where
  "put_msg m io = io\<lparr>io_out := io_out io @ [m]\<rparr>"

definition open_or_warn_stdin :: "string \<Rightarrow> bb_io \<Rightarrow> infile option \<times> bb_io" where
  "open_or_warn_stdin filename io =
     (if filename = ''-'' then
        if io_stdin_closed io then (Some [Fail], io)
        else (Some (if io_stdin io = [] then [] else hd (io_stdin io)), io\<lparr>io_stdin := tl (io_stdin io)\<rparr>)
      else case io_open io filename of
          None \<Rightarrow> (None, put_msg (Perror_Msg (bytes_of (''can't open '' @ filename))) io)
        | Some fd \<Rightarrow> (Some fd, io))"

subsection \<open>Lines\<close>

text \<open>
  The loop of \<open>bb_get_chunk_with_continuation\<close> on the rest of a text. \<open>endp\<close> says that \<open>end\<close> is not
  \<open>NULL\<close>, \<open>lineno\<close> is the counter if there is one; \<open>linebuf\<close> holds the first \<open>idx\<close> characters.
\<close>

fun get_chunk :: "bool \<Rightarrow> int option \<Rightarrow> byte list \<Rightarrow> byte list \<Rightarrow> byte list \<times> int option \<times> byte list" where
  "get_chunk endp lineno linebuf [] = (linebuf, lineno, [])"
| "get_chunk endp lineno linebuf (ch # inp) =
     (let linebuf = linebuf @ [ch]; idx = length linebuf
      in if ch = 0 then (linebuf, lineno, inp)
         else if endp \<and> ch = 10 then
           (case lineno of
              None \<Rightarrow> (linebuf, lineno, inp)
            | Some n \<Rightarrow>
                if idx < 2 \<or> linebuf ! (idx - 2) \<noteq> 0x5C then (linebuf, Some (n + 1), inp)
                else get_chunk endp (Some (n + 1)) (take (idx - 2) linebuf) inp)
         else get_chunk endp lineno linebuf inp)"

text \<open>The result is \<open>NULL\<close> only if there is no character left; the first \<open>*end\<close> bytes count.\<close>

definition bb_get_chunk_with_continuation ::
  "bool \<Rightarrow> int option \<Rightarrow> byte list \<Rightarrow> byte list option \<times> int option \<times> byte list" where
  "bb_get_chunk_with_continuation endp lineno inp =
     (case get_chunk endp lineno [] inp of
        (linebuf, lineno, rest) \<Rightarrow> (if inp = [] then None else Some linebuf, lineno, rest))"

definition bb_get_chunk_from_file :: "bool \<Rightarrow> byte list \<Rightarrow> byte list option \<times> byte list" where
  "bb_get_chunk_from_file endp inp =
     (case bb_get_chunk_with_continuation endp None inp of (c, _, rest) \<Rightarrow> (c, rest))"

text \<open>The C string of a buffer ends at its first NUL.\<close>

definition c_string :: "byte list \<Rightarrow> byte list" where
  "c_string = takeWhile (\<lambda>c. c \<noteq> 0)"

definition xmalloc_fgets :: "byte list \<Rightarrow> byte list option \<times> byte list" where
  "xmalloc_fgets inp = apfst (map_option c_string) (bb_get_chunk_from_file True inp)"

definition xmalloc_fgetline :: "byte list \<Rightarrow> byte list option \<times> byte list" where
  "xmalloc_fgetline inp =
     (case bb_get_chunk_from_file True inp of
        (None, rest) \<Rightarrow> (None, rest)
      | (Some c, rest) \<Rightarrow>
          let i = length c;
              c = (if i \<noteq> 0 \<and> c ! (i - 1) = 10 then take (i - 1) c else c)
          in (Some (c_string c), rest))"

section \<open>Reading\<close>

text \<open>What a descriptor holds up to the first end: the data, and whether no error came before.\<close>

fun input_data :: "infile \<Rightarrow> byte list" where
  "input_data [] = []"
| "input_data (Data bs # fd) = (if bs = [] then [] else bs @ input_data fd)"
| "input_data (Eintr # fd) = input_data fd"
| "input_data (Fail # fd) = []"

fun input_ok :: "infile \<Rightarrow> bool" where
  "input_ok [] = True"
| "input_ok (Data bs # fd) = (bs = [] \<or> input_ok fd)"
| "input_ok (Eintr # fd) = input_ok fd"
| "input_ok (Fail # fd) = False"

lemma safe_read_data:
  assumes "0 < count"
  shows "case safe_read count fd of
      (None, fd') \<Rightarrow> \<not> input_ok fd \<and> input_data fd = []
    | (Some bs, fd') \<Rightarrow> input_data fd = (if bs = [] then [] else bs @ input_data fd') \<and>
        input_ok fd = (bs = [] \<or> input_ok fd') \<and> length bs \<le> count"
  using assms by (induction count fd rule: safe_read.induct) (auto split: option.splits)

text \<open>The chunks a loop sees: their concatenation is the data, whatever the sizes.\<close>

lemma read_each_chunks:
  assumes "0 < sz"
  shows "\<exists>cs fd'. read_each sz upd s fd = (foldl upd s cs, input_ok fd, fd') \<and> concat cs = input_data fd \<and>
    list_all (\<lambda>c. c \<noteq> [] \<and> length c \<le> sz) cs"
  using assms
proof (induction sz upd s fd rule: read_each.induct)
  case (1 sz upd s fd)
  obtain r fd' where r: "safe_read sz fd = (r, fd')" by (cases "safe_read sz fd")
  note d = safe_read_data [OF 1(2), of fd, unfolded r]
  show ?case
  proof (cases r)
    case None
    then show ?thesis
      using d by (subst read_each.simps) (auto simp: r intro: exI [of _ "[]"])
  next
    case (Some bs)
    show ?thesis
    proof (cases "bs = []")
      case True
      then show ?thesis
        using d Some by (subst read_each.simps) (auto simp: r intro: exI [of _ "[]"])
    next
      case False
      from "1.IH" [OF r [symmetric] Some False 1(2)] obtain cs fd'' where
        "read_each sz upd (upd s bs) fd' = (foldl upd (upd s bs) cs, input_ok fd', fd'')"
        "concat cs = input_data fd'" "list_all (\<lambda>c. c \<noteq> [] \<and> length c \<le> sz) cs" by blast
      then show ?thesis
        using d Some False by (subst read_each.simps) (auto simp: r intro!: exI [of _ "bs # cs"])
    qed
  qed
qed

text \<open>For a state that only depends on the concatenation of the chunks, the sizes do not matter.\<close>

locale chunk_action =
  fixes upd :: "'s \<Rightarrow> byte list \<Rightarrow> 's"
  assumes upd_append: "upd (upd s a) b = upd s (a @ b)"
    and upd_nil: "upd s [] = s"
begin

lemma foldl_concat: "foldl upd s cs = upd s (concat cs)"
  by (induction cs arbitrary: s) (simp_all add: upd_nil upd_append)

lemma read_each_all:
  assumes "0 < sz"
  shows "\<exists>fd'. read_each sz upd s fd = (upd s (input_data fd), input_ok fd, fd')"
  using read_each_chunks [OF assms, of upd s fd] by (auto simp: foldl_concat)

end

text \<open>\<open>full_read\<close> gives \<open>len\<close> bytes, or all that is there.\<close>

lemma full_read_data:
  assumes "input_ok fd"
  shows "\<exists>fd'. full_read len fd = (Some (take len (input_data fd)), fd') \<and>
    (0 < len \<and> len \<le> length (input_data fd) \<longrightarrow> input_ok fd' \<and> input_data fd' = drop len (input_data fd))"
  using assms
proof (induction len fd rule: full_read.induct)
  case (1 len fd)
  show ?case
  proof (cases "len = 0")
    case True
    then show ?thesis by (subst full_read.simps) simp
  next
    case False
    obtain r fd' where r: "safe_read len fd = (r, fd')" by (cases "safe_read len fd")
    have d: "case r of None \<Rightarrow> \<not> input_ok fd \<and> input_data fd = []
      | Some bs \<Rightarrow> input_data fd = (if bs = [] then [] else bs @ input_data fd') \<and>
          input_ok fd = (bs = [] \<or> input_ok fd') \<and> length bs \<le> len"
      using safe_read_data [of len fd] False unfolding r by (cases r) simp_all
    then obtain bs where bs: "r = Some bs" using 1(2) by (cases r) auto
    show ?thesis
    proof (cases "bs = []")
      case True
      then show ?thesis
        using d bs False by (subst full_read.simps) (auto simp: r)
    next
      case ne: False
      have "input_ok fd'" using d bs ne 1(2) by simp
      from "1.IH" [OF False r [symmetric] bs ne this] obtain fd'' where
        "full_read (len - length bs) fd' = (Some (take (len - length bs) (input_data fd')), fd'')"
        "0 < len - length bs \<and> len - length bs \<le> length (input_data fd') \<longrightarrow>
          input_ok fd'' \<and> input_data fd'' = drop (len - length bs) (input_data fd')" by blast
      moreover have "fd'' = fd'" if "len = length bs"
        using that calculation(1) by (subst (asm) full_read.simps) simp
      ultimately show ?thesis
        using d bs ne False 1(2) by (subst full_read.simps) (auto simp: r)
    qed
  qed
qed

text \<open>A file that is read without errors and has one end.\<close>

definition plain_input :: "infile \<Rightarrow> bool" where
  "plain_input fd \<longleftrightarrow> list_all (\<lambda>r. r \<noteq> Fail \<and> r \<noteq> Data []) fd"

lemma safe_read_plain:
  assumes "plain_input fd" and "0 < count"
  shows "\<exists>bs fd'. safe_read count fd = (Some bs, fd') \<and> plain_input fd' \<and> input_data fd = bs @ input_data fd' \<and>
    length bs \<le> count \<and> (bs = [] \<longrightarrow> input_data fd = [])"
  using assms by (induction count fd rule: safe_read.induct) (auto simp: plain_input_def)

lemma full_read_plain:
  assumes "plain_input fd"
  shows "\<exists>fd'. full_read len fd = (Some (take len (input_data fd)), fd') \<and> plain_input fd' \<and>
    input_data fd' = drop len (input_data fd)"
  using assms
proof (induction len fd rule: full_read.induct)
  case (1 len fd)
  show ?case
  proof (cases "len = 0")
    case True
    then show ?thesis using 1(2) by (subst full_read.simps) simp
  next
    case False
    then obtain bs fd' where b: "safe_read len fd = (Some bs, fd')" "plain_input fd'"
      "input_data fd = bs @ input_data fd'" "length bs \<le> len" "bs = [] \<longrightarrow> input_data fd = []"
      using safe_read_plain [OF 1(2), of len] by auto
    show ?thesis
    proof (cases "bs = []")
      case True
      then show ?thesis using False b by (subst full_read.simps) simp
    next
      case ne: False
      from "1.IH" [OF False b(1) [symmetric] refl ne b(2)] show ?thesis
        using False ne b by (subst full_read.simps) auto
    qed
  qed
qed

text \<open>A call that gives data makes the descriptor shorter, so loops over \<open>full_read\<close> end.\<close>

lemma safe_read_weight_le: "safe_read count fd = (r, fd') \<Longrightarrow> read_weight fd' \<le> read_weight fd"
  by (induction count fd rule: safe_read.induct) (auto split: if_splits)

lemma full_read_weight_le: "full_read len fd = (r, fd') \<Longrightarrow> read_weight fd' \<le> read_weight fd"
proof (induction len fd arbitrary: r fd' rule: full_read.induct)
  case (1 len fd)
  obtain q fd1 where q: "safe_read len fd = (q, fd1)" by (cases "safe_read len fd")
  obtain r2 fd2 where r2: "full_read (len - length (the q)) fd1 = (r2, fd2)" by (rule prod.exhaust)
  show ?case
    using 1(2) "1.IH" [OF _ q [symmetric], of "the q" r2 fd2] r2 safe_read_weight_le [OF q]
    by (subst (asm) full_read.simps) (auto simp: q split: if_splits option.splits)
qed

lemma full_read_weight: "full_read len fd = (Some bs, fd') \<Longrightarrow> bs \<noteq> [] \<Longrightarrow> read_weight fd' < read_weight fd"
proof -
  assume a: "full_read len fd = (Some bs, fd')" "bs \<noteq> []"
  obtain q fd1 where q: "safe_read len fd = (q, fd1)" by (cases "safe_read len fd")
  obtain r2 fd2 where r2: "full_read (len - length (the q)) fd1 = (r2, fd2)" by (rule prod.exhaust)
  show ?thesis
    using a safe_read_weight [of len fd "the q" fd1] full_read_weight_le [OF r2] r2
    by (subst (asm) full_read.simps) (auto simp: q split: if_splits option.splits)
qed

section \<open>Lines\<close>

lemma get_chunk_line:
  assumes "list_all (\<lambda>c. c \<noteq> 10 \<and> c \<noteq> 0) cs"
  shows "get_chunk True None buf (cs @ 10 # rest) = (buf @ cs @ [10], None, rest)"
    and "get_chunk True None buf cs = (buf @ cs, None, [])"
  using assms by (induction cs arbitrary: buf) (auto simp: Let_def)

text \<open>A line of text is read without its newline.\<close>

lemma xmalloc_fgetline_line:
  assumes "list_all (\<lambda>c. c \<noteq> 10 \<and> c \<noteq> 0) cs"
  shows "xmalloc_fgetline (cs @ 10 # rest) = (Some cs, rest)"
proof -
  have "c_string cs = cs"
    using assms by (simp add: c_string_def list_all_iff)
  then show ?thesis
    by (simp add: xmalloc_fgetline_def bb_get_chunk_from_file_def bb_get_chunk_with_continuation_def
        get_chunk_line(1) [OF assms] Let_def nth_append)
qed

lemma xmalloc_fgetline_end [simp]: "xmalloc_fgetline [] = (None, [])"
  by (simp add: xmalloc_fgetline_def bb_get_chunk_from_file_def bb_get_chunk_with_continuation_def)

text \<open>Every line read makes the text shorter, so loops over lines end.\<close>

lemma get_chunk_shorter: "get_chunk endp lineno buf inp = (b, n, rest) \<Longrightarrow> length rest \<le> length inp"
  by (induction endp lineno buf inp rule: get_chunk.induct)
    (auto simp: Let_def split: if_splits option.splits, force+)

lemma get_chunk_cons_shorter:
  assumes "get_chunk endp lineno buf (c # inp) = (b, n, rest)"
  shows "length rest < length (c # inp)"
  using assms
  by (auto simp: Let_def le_imp_less_Suc split: if_splits option.splits dest: get_chunk_shorter)

lemma xmalloc_fgetline_shorter: "xmalloc_fgetline inp = (Some l, rest) \<Longrightarrow> length rest < length inp"
proof -
  assume a: "xmalloc_fgetline inp = (Some l, rest)"
  obtain b n r where g: "get_chunk True None [] inp = (b, n, r)" by (cases "get_chunk True None [] inp")
  from a g have "inp \<noteq> []" "r = rest"
    by (auto simp: xmalloc_fgetline_def bb_get_chunk_from_file_def bb_get_chunk_with_continuation_def Let_def
        split: if_splits)
  with g show ?thesis
    using get_chunk_cons_shorter [of True None "[]" "hd inp" "tl inp" b n r] by simp
qed

end
