(* ===== verification/Bb_Crc.thy ===== *)
theory Bb_Crc
  imports Bb_Io
begin

text \<open>
  The CRC-32 of BusyBox: \<open>libbb/crc32.c\<close> (the table and the two byte orders) and the applet
  \<open>coreutils/cksum.c\<close>. The table-driven code is compared with the division of the message
  polynomial bit by bit.
\<close>

section \<open>Definitions\<close>

definition crc32_shift :: "bool \<Rightarrow> u32 \<Rightarrow> u32" where
  "crc32_shift endian c =
     (let polynomial = (if endian then 0x04c11db7 else 0xedb88320)
      in if endian then
           if c AND 0x80000000 \<noteq> 0 then push_bit 1 c XOR polynomial else push_bit 1 c
         else
           if c AND 1 \<noteq> 0 then drop_bit 1 c XOR polynomial else drop_bit 1 c)"

definition crc32_filltable :: "bool \<Rightarrow> u32 list" where
  "crc32_filltable endian =
     map (\<lambda>i. (crc32_shift endian ^^ 8) (if endian then push_bit 24 (of_nat i) else of_nat i)) [0..<256]"

definition crc32_block_endian1 :: "u32 \<Rightarrow> byte list \<Rightarrow> u32 list \<Rightarrow> u32" where
  "crc32_block_endian1 val buf crc_table =
     foldl (\<lambda>val b. push_bit 8 val XOR crc_table ! unat (drop_bit 24 val XOR ucast b)) val buf"

definition crc32_block_endian0 :: "u32 \<Rightarrow> byte list \<Rightarrow> u32 list \<Rightarrow> u32" where
  "crc32_block_endian0 val buf crc_table =
     foldl (\<lambda>val b. crc_table ! unat (ucast val XOR b) XOR drop_bit 8 val) val buf"

text \<open>
  \<open>cksum_main\<close>: the loop over the bytes of \<open>length\<close>, one file (\<open>None\<close> stands for no argument) and the
  loop over the arguments. \<open>length\<close> is 0 where the first of these starts.
\<close>

function cksum_length :: "u32 list \<Rightarrow> u32 \<Rightarrow> u64 \<Rightarrow> u32" where
  "cksum_length crc32_table crc len =
     (if len = 0 then crc
      else cksum_length crc32_table
             (push_bit 8 crc XOR crc32_table ! unat (ucast (drop_bit 24 crc) XOR ucast len :: byte))
             (drop_bit 8 len))"
  by pat_completeness auto
termination
  by (relation "measure (\<lambda>(crc32_table, crc, len). unat len)")
    (auto simp: unat_drop_bit_eq drop_bit_eq_div [where 'a = nat] unat_gt_0)

declare cksum_length.simps [simp del]

definition COMMON_BUFSIZE :: nat where
  "COMMON_BUFSIZE = 8193"

definition cksum_file :: "u32 list \<Rightarrow> string option \<Rightarrow> bb_io \<Rightarrow> bool \<times> bb_io" where
  "cksum_file crc32_table arg io =
     (case open_or_warn_stdin (case arg of None \<Rightarrow> ''-'' | Some name \<Rightarrow> name) io of
        (None, io) \<Rightarrow> (False, io)
      | (Some fd, io) \<Rightarrow>
          let len = 0;
              crc = fst (read_each COMMON_BUFSIZE (\<lambda>crc buf. crc32_block_endian1 crc buf crc32_table) 0 fd);
              io = (if arg = None \<or> arg = Some ''-'' then io\<lparr>io_stdin_closed := True\<rparr> else io);
              filesize = len;
              crc = NOT (cksum_length crc32_table crc len)
          in (True, put_msg (Print (decimal (uint crc) @ bytes_of '' '' @ decimal (sint filesize) @
               (case arg of None \<Rightarrow> [] | Some name \<Rightarrow> bytes_of ('' '' @ name)) @ [10])) io))"

fun cksum_args :: "u32 list \<Rightarrow> string list \<Rightarrow> int \<Rightarrow> bb_io \<Rightarrow> int \<times> bb_io" where
  "cksum_args crc32_table [] exit_code io = (exit_code, io)"
| "cksum_args crc32_table (arg # argv) exit_code io =
     (case cksum_file crc32_table (Some arg) io of
        (ok, io) \<Rightarrow> cksum_args crc32_table argv (if ok then exit_code else 1) io)"

definition cksum_main :: "string list \<Rightarrow> bb_io \<Rightarrow> int \<times> bb_io" where
  "cksum_main argv io =
     (let crc32_table = crc32_filltable True
      in if argv = [] then apfst (\<lambda>ok. if ok then 0 else 1) (cksum_file crc32_table None io)
         else cksum_args crc32_table argv 0 io)"

text \<open>The division bit by bit: the remainder so far and the next bit of the message.\<close>

definition crc_bit :: "u32 \<Rightarrow> bool \<Rightarrow> u32" where
  "crc_bit r b = (if bit r 31 \<noteq> b then push_bit 1 r XOR 0x04c11db7 else push_bit 1 r)"

definition byte_bits :: "byte \<Rightarrow> bool list" where
  "byte_bits b = map (\<lambda>k. bit b (7 - k)) [0..<8]"

definition crc_division :: "u32 \<Rightarrow> byte list \<Rightarrow> u32" where
  "crc_division r bs = foldl crc_bit r (concat (map byte_bits bs))"

text \<open>The bits of a word in the other order.\<close>

definition reflect :: "'a::len word \<Rightarrow> 'a word" where
  "reflect w = horner_sum of_bool 2 (map (\<lambda>k. bit w (LENGTH('a) - Suc k)) [0..<LENGTH('a)])"

section \<open>The table\<close>

lemma bit_and_top: "(c AND 0x80000000 \<noteq> 0) = bit (c :: u32) 31"
proof -
  have "c AND 0x80000000 = c AND push_bit 31 1" by simp
  then show ?thesis by (metis and_exp_eq_0_iff_not_bit push_bit_of_1)
qed

lemma bit_and_low: "(c AND 1 \<noteq> 0) = bit (c :: u32) 0"
  by (simp add: and_one_eq bit_0 odd_iff_mod_2_eq_one)

lemma crc32_shift_big: "crc32_shift True c = crc_bit c False"
  by (simp add: crc32_shift_def crc_bit_def bit_and_top)

lemma crc_bit_xor: "crc_bit (x XOR y) (a \<noteq> b) = crc_bit x a XOR crc_bit y b"
  by (auto simp: crc_bit_def bit_xor_iff push_bit_xor ac_simps)

text \<open>Reading \<open>n\<close> bits of the message is the same as adding them in front and shifting \<open>n\<close> times.\<close>

fun top_bits :: "bool list \<Rightarrow> u32" where
  "top_bits [] = 0"
| "top_bits (c # cs) = (if c then 0x80000000 else 0) XOR drop_bit 1 (top_bits cs)"

definition crc_shift :: "u32 \<Rightarrow> u32" where
  "crc_shift c = crc_bit c False"

lemma crc_shift_xor: "(crc_shift ^^ n) (x XOR y) = (crc_shift ^^ n) x XOR (crc_shift ^^ n) y"
  by (induction n) (use crc_bit_xor [of _ _ False False] in \<open>simp_all add: crc_shift_def\<close>)

lemma crc_shift_low:
  assumes "\<And>i. 32 - n \<le> i \<Longrightarrow> \<not> bit y i" and "n \<le> 32"
  shows "(crc_shift ^^ n) y = push_bit n y"
  using assms
proof (induction n)
  case (Suc n)
  have "(crc_shift ^^ n) y = push_bit n y"
    using Suc.prems by (intro Suc.IH) auto
  moreover have "\<not> bit (push_bit n y) 31"
    using Suc.prems(1) [of "31 - n"] Suc.prems(2) by (simp add: bit_push_bit_iff)
  then have "crc_shift (push_bit n y) = push_bit (Suc n) y"
    by (simp add: crc_shift_def crc_bit_def push_bit_double)
  ultimately show ?case by simp
qed simp

lemma bit_top: "bit (0x80000000 :: u32) i = (i = 31)"
  using bit_push_bit_iff [of 31 "1 :: u32" i] by (auto simp: bit_1_iff)

lemma crc_bit_shift: "crc_bit r c = crc_shift (r XOR (if c then 0x80000000 else 0))"
proof -
  have "push_bit 1 (r XOR 0x80000000) = push_bit 1 r"
    by (rule bit_eqI, unfold bit_push_bit_iff bit_xor_iff bit_top) auto
  then show ?thesis
    by (simp add: crc_shift_def crc_bit_def bit_xor_iff bit_top)
qed

lemma bit_top_bits: "bit (top_bits cs) i = (i < 32 \<and> 31 - i < length cs \<and> cs ! (31 - i))"
proof (induction cs arbitrary: i)
  case (Cons c cs)
  have nx: "bit (drop_bit 1 (top_bits cs)) i = (i < 31 \<and> 30 - i < length cs \<and> cs ! (30 - i))"
    using Cons [of "Suc i"] by (auto simp: bit_drop_bit_eq)
  show ?case
  proof (cases "i < 31")
    case True
    then have "31 - i = Suc (30 - i)" by simp
    then show ?thesis using True nx by (simp add: bit_xor_iff bit_top del: bit_numeral_word_iff)
  next
    case False
    then show ?thesis
      using nx bit_imp_le_length [of "top_bits (c # cs)" i] by (cases "i = 31") (auto simp: bit_xor_iff bit_top)
  qed
qed simp

lemma division_run:
  "length cs \<le> 32 \<Longrightarrow> foldl crc_bit r cs = (crc_shift ^^ length cs) (r XOR top_bits cs)"
proof (induction cs arbitrary: r)
  case (Cons c cs)
  let ?u = "(if c then 0x80000000 else 0) :: u32"
  have "crc_shift (drop_bit 1 (top_bits cs)) = top_bits cs"
  proof -
    have "\<not> bit (drop_bit 1 (top_bits cs)) 31"
      by (simp add: bit_drop_bit_eq bit_top_bits)
    then have "crc_shift (drop_bit 1 (top_bits cs)) = push_bit 1 (drop_bit 1 (top_bits cs))"
      by (simp add: crc_shift_def crc_bit_def)
    also have "\<dots> = top_bits cs"
    proof (rule bit_eqI, unfold bit_push_bit_iff bit_drop_bit_eq comp_def bit_top_bits)
      fix n assume "possible_bit TYPE(32 word) n"
      then have "n < 32" by simp
      then show "(1 \<le> n \<and> possible_bit TYPE(32 word) n \<and> 1 + (n - 1) < 32 \<and> 31 - (1 + (n - 1)) < length cs \<and>
          cs ! (31 - (1 + (n - 1)))) = (n < 32 \<and> 31 - n < length cs \<and> cs ! (31 - n))"
        using Cons.prems by (cases n) auto
    qed
    finally show ?thesis .
  qed
  then have "crc_shift (r XOR top_bits (c # cs)) = crc_bit r c XOR top_bits cs"
    using crc_bit_shift [of r c] crc_shift_xor [of 1 "r XOR ?u" "drop_bit 1 (top_bits cs)"] by (simp add: xor.assoc)
  with Cons show ?case
    by (simp add: funpow_swap1)
qed simp

lemma table_entry:
  "i < 256 \<Longrightarrow> crc32_filltable True ! i = (crc_shift ^^ 8) (push_bit 24 (of_nat i))"
proof -
  have "crc32_shift True = crc_shift"
    by (simp add: fun_eq_iff crc32_shift_big crc_shift_def)
  then show "i < 256 \<Longrightarrow> ?thesis"
    by (simp add: crc32_filltable_def)
qed

lemma crc32_byte:
  "push_bit 8 val XOR crc32_filltable True ! unat (drop_bit 24 val XOR ucast b) = foldl crc_bit val (byte_bits b)"
proof -
  let ?h = "drop_bit 24 val XOR ucast b"
  have lo: "push_bit 8 val = (crc_shift ^^ 8) (take_bit 24 val)"
  proof -
    have "(crc_shift ^^ 8) (take_bit 24 val) = push_bit 8 (take_bit 24 val)"
      by (rule crc_shift_low) (auto simp: bit_take_bit_iff)
    also have "\<dots> = push_bit 8 val"
      by (intro bit_eqI) (auto simp: bit_push_bit_iff bit_take_bit_iff)
    finally show ?thesis ..
  qed
  have "take_bit 8 ?h = ?h"
    by (intro bit_eqI) (auto simp: bit_take_bit_iff bit_xor_iff bit_drop_bit_eq bit_ucast_iff dest: bit_imp_le_length)
  then have "unat ?h < 2 ^ 8"
    by (metis take_bit_nat_less_exp unsigned_take_bit_eq)
  then have "push_bit 8 val XOR crc32_filltable True ! unat ?h = (crc_shift ^^ 8) (take_bit 24 val) XOR (crc_shift ^^ 8) (push_bit 24 ?h)"
    by (simp add: table_entry lo)
  also have "(crc_shift ^^ 8) (take_bit 24 val) XOR (crc_shift ^^ 8) (push_bit 24 ?h)
      = (crc_shift ^^ 8) (take_bit 24 val XOR push_bit 24 ?h)"
    by (simp only: crc_shift_xor)
  also have "take_bit 24 val XOR push_bit 24 ?h = val XOR top_bits (byte_bits b)"
    by (intro bit_eqI)
      (auto simp: bit_xor_iff bit_take_bit_iff bit_push_bit_iff bit_drop_bit_eq bit_ucast_iff bit_top_bits byte_bits_def)
  also have "(crc_shift ^^ 8) (val XOR top_bits (byte_bits b)) = foldl crc_bit val (byte_bits b)"
    by (simp add: division_run byte_bits_def)
  finally show ?thesis .
qed

lemma crc32_block_division: "crc32_block_endian1 val buf (crc32_filltable True) = crc_division val buf"
  unfolding crc32_block_endian1_def crc_division_def
  by (induction buf arbitrary: val) (simp_all add: crc32_byte)

section \<open>The other byte order\<close>

lemma bit_reflect: "bit (reflect w :: 'a::len word) n = (n < LENGTH('a) \<and> bit w (LENGTH('a) - Suc n))"
  by (auto simp: reflect_def bit_horner_sum_bit_word_iff)

lemma reflect_xor: "reflect (x XOR y) = reflect x XOR reflect y"
  by (intro bit_eqI) (auto simp: bit_reflect bit_xor_iff)

lemma reflect_reflect [simp]: "reflect (reflect w) = w"
  by (intro bit_eqI) (auto simp: bit_reflect dest: bit_imp_le_length)

lemma reflect_push_bit: "n \<le> 32 \<Longrightarrow> reflect (push_bit n w) = drop_bit n (reflect (w :: u32))"
  by (rule bit_eqI) (auto simp: bit_reflect bit_push_bit_iff bit_drop_bit_eq diff_diff_left add.commute)

lemma reflect_polynomial: "reflect (0x04c11db7 :: u32) = 0xedb88320"
  by (simp add: reflect_def upt_rec)

lemma crc32_shift_reflect: "crc32_shift False (reflect c) = reflect (crc32_shift True c)"
proof -
  have "bit (reflect c) 0 = bit c 31"
    unfolding bit_reflect by simp
  then show ?thesis
    using reflect_push_bit [of 1 c]
    by (simp add: crc32_shift_def bit_and_top bit_and_low reflect_xor reflect_polynomial)
qed

lemma ucast_reflect:
  "(ucast x :: u32) = reflect (push_bit 24 (ucast (reflect (x :: byte))))"
  "(ucast (reflect (ucast w XOR b)) :: u32) = drop_bit 24 (reflect (w :: u32)) XOR ucast (reflect (b :: byte))"
proof -
  show "(ucast x :: u32) = reflect (push_bit 24 (ucast (reflect x)))"
  proof (rule bit_eqI)
    fix n
    show "bit (ucast x :: u32) n = bit (reflect (push_bit 24 (ucast (reflect x))) :: u32) n"
      using bit_imp_le_length [of x n] by (cases "n < 8") (auto simp: bit_reflect bit_push_bit_iff bit_ucast_iff)
  qed
  show "(ucast (reflect (ucast w XOR b)) :: u32) = drop_bit 24 (reflect w) XOR ucast (reflect b)"
    by (rule bit_eqI) (auto simp: bit_reflect bit_drop_bit_eq bit_ucast_iff bit_xor_iff)
qed

lemma table_entry_reflect:
  fixes x :: byte
  shows "crc32_filltable False ! unat x = reflect (crc32_filltable True ! unat (reflect x))"
proof -
  have "(crc32_shift False ^^ n) (reflect c) = reflect ((crc32_shift True ^^ n) c)" for n c
    by (induction n) (simp_all add: crc32_shift_reflect)
  moreover have "unat x < 256" "unat (reflect x) < 256"
    using unsigned_less [of x, where ?'a = nat] unsigned_less [of "reflect x", where ?'a = nat] by simp_all
  ultimately show ?thesis
    using ucast_reflect(1) [of x] by (simp add: crc32_filltable_def)
qed

lemma crc32_byte_reflect:
  fixes b :: byte
  shows "crc32_filltable False ! unat (ucast val XOR b) XOR drop_bit 8 val =
    reflect (push_bit 8 (reflect val) XOR crc32_filltable True ! unat (drop_bit 24 (reflect val) XOR ucast (reflect b)))"
proof -
  have "unat (drop_bit 24 (reflect val) XOR ucast (reflect b)) = unat (reflect (ucast val XOR b))"
    unfolding ucast_reflect(2) [symmetric] unsigned_ucast_eq
    using unsigned_less [of "reflect (ucast val XOR b)", where ?'a = nat]
    by (intro take_bit_nat_eq_self) simp
  then show ?thesis
    by (simp add: table_entry_reflect reflect_xor reflect_push_bit xor.commute)
qed

lemma crc32_block_reflect:
  "crc32_block_endian0 val buf (crc32_filltable False) =
    reflect (crc32_block_endian1 (reflect val) (map reflect buf) (crc32_filltable True))"
  unfolding crc32_block_endian0_def crc32_block_endian1_def
  by (induction buf arbitrary: val) (simp_all add: crc32_byte_reflect)

section \<open>Errors that are found\<close>

text \<open>The last bit of the remainder tells whether the polynomial was subtracted.\<close>

lemma crc_bit_back:
  assumes "take_bit (Suc k) (crc_bit s a) = take_bit (Suc k) (crc_bit t b)" and "k < 32"
  shows "(bit s 31 \<noteq> a) = (bit t 31 \<noteq> b)" and "take_bit k s = take_bit k t"
proof -
  have e: "bit (crc_bit s a) i = bit (crc_bit t b) i" if "i \<le> k" for i
    using arg_cong [OF assms(1), of "\<lambda>w. bit w i"] that by (simp add: bit_take_bit_iff)
  have low: "bit (crc_bit r c) 0 = (bit r 31 \<noteq> c)" for r c
    by (simp add: crc_bit_def bit_0 even_xor_iff)
  show q: "(bit s 31 \<noteq> a) = (bit t 31 \<noteq> b)"
    using e [of 0] by (simp add: low)
  have "bit s i = bit t i" if "i < k" for i
  proof -
    have "bit (push_bit 1 s) (Suc i) = bit (push_bit 1 t) (Suc i)"
      using e [of "Suc i"] that q by (auto simp: crc_bit_def bit_xor_iff)
    then show ?thesis
      unfolding bit_push_bit_iff using that assms(2) by simp
  qed
  then show "take_bit k s = take_bit k t"
    by (intro bit_eqI) (auto simp: bit_take_bit_iff)
qed

lemma division_back:
  assumes "length as = length bs" and "length as \<le> 32" and "foldl crc_bit s as = foldl crc_bit t bs"
  shows "take_bit (32 - length as) s = take_bit (32 - length as) t"
  using assms
proof (induction as bs arbitrary: s t rule: list_induct2)
  case (Cons a as b bs)
  then have "take_bit (Suc (31 - length as)) (crc_bit s a) = take_bit (Suc (31 - length as)) (crc_bit t b)"
    using Suc_diff_le [of "length as" 31] by simp
  from crc_bit_back(2) [OF this] show ?case by simp
qed simp

lemma division_short_inj:
  assumes "length as = length bs" and "length as \<le> 32" and "foldl crc_bit s as = foldl crc_bit s bs"
  shows "as = bs"
  using assms
proof (induction as bs arbitrary: s rule: list_induct2)
  case (Cons a as b bs)
  then have "take_bit (Suc (31 - length as)) (crc_bit s a) = take_bit (Suc (31 - length as)) (crc_bit s b)"
    using division_back [of as bs "crc_bit s a" "crc_bit s b"] Suc_diff_le [of "length as" 31] by simp
  from crc_bit_back(1) [OF this] have "a = b" by (cases "bit s 31") auto
  with Cons show ?case by auto
qed simp

lemma division_state_inj: "foldl crc_bit s as = foldl crc_bit t as \<Longrightarrow> s = t"
proof (induction as arbitrary: s t)
  case (Cons a as)
  then have e: "crc_bit s a = crc_bit t a" by simp
  have "take_bit 31 s = take_bit 31 t" "bit s 31 = bit t 31"
    using crc_bit_back [of 31 s a t a] e by auto
  moreover have "bit s i = bit t i" for i
    using arg_cong [OF calculation(1), of "\<lambda>w. bit w i"] calculation(2)
      bit_imp_le_length [of s i] bit_imp_le_length [of t i]
    by (cases "i < 31"; cases "i = 31") (auto simp: bit_take_bit_iff)
  ultimately show ?case by (intro bit_eqI) blast
qed simp

lemma byte_bits_length [simp]: "length (byte_bits b) = 8"
  by (simp add: byte_bits_def)

lemma byte_bits_inj: "length xs = length ys \<Longrightarrow> concat (map byte_bits xs) = concat (map byte_bits ys) \<Longrightarrow> xs = ys"
proof (induction xs ys rule: list_induct2)
  case (Cons x xs y ys)
  have "byte_bits x = byte_bits y" "concat (map byte_bits xs) = concat (map byte_bits ys)"
    using Cons.prems by (simp_all add: append_eq_append_conv [OF disjI1] byte_bits_length)
  moreover have "bit x i = bit y i" if "i < 8" for i
  proof -
    have "[0..<8] ! (7 - i) = 7 - i" by (subst nth_upt) auto
    then show ?thesis
      using arg_cong [OF calculation(1), of "\<lambda>l. l ! (7 - i)"] that by (simp add: byte_bits_def)
  qed
  ultimately show ?case
    using Cons.IH by (auto intro: bit_eqI)
qed simp

text \<open>A change within four bytes in a row changes the remainder.\<close>

lemma crc_division_burst:
  assumes "length x = length y" and "length x \<le> 4"
    and "crc_division r (p @ x @ s) = crc_division r (p @ y @ s)"
  shows "x = y"
proof -
  let ?b = "\<lambda>xs. concat (map byte_bits xs)"
  have len: "length (?b xs) = 8 * length xs" for xs
    by (induction xs) simp_all
  have "foldl crc_bit (foldl crc_bit (foldl crc_bit r (?b p)) (?b x)) (?b s)
      = foldl crc_bit (foldl crc_bit (foldl crc_bit r (?b p)) (?b y)) (?b s)"
    using assms(3) by (simp add: crc_division_def)
  from division_state_inj [OF this] have "?b x = ?b y"
    using assms(1,2) by (intro division_short_inj) (simp_all add: len)
  with assms(1) show ?thesis by (rule byte_bits_inj)
qed

section \<open>The applet\<close>

interpretation crc1: chunk_action "\<lambda>crc buf. crc32_block_endian1 crc buf crc_table" for crc_table
  by unfold_locales (simp_all add: crc32_block_endian1_def)

definition cksum_line :: "string \<Rightarrow> byte list \<Rightarrow> bb_msg" where
  "cksum_line name bs =
     Print (decimal (uint (NOT (crc_division 0 bs))) @ bytes_of '' 0 '' @ bytes_of name @ [10])"

lemma cksum_file_line:
  assumes "io_open io name = Some fd" and "name \<noteq> ''-''"
  shows "cksum_file (crc32_filltable True) (Some name) io = (True, put_msg (cksum_line name (input_data fd)) io)"
proof -
  obtain fd' where "read_each COMMON_BUFSIZE (\<lambda>crc buf. crc32_block_endian1 crc buf (crc32_filltable True)) 0 fd
      = (crc32_block_endian1 0 (input_data fd) (crc32_filltable True), input_ok fd, fd')"
    using crc1.read_each_all [of COMMON_BUFSIZE "crc32_filltable True" 0 fd] by (auto simp: COMMON_BUFSIZE_def)
  moreover have "decimal 0 = bytes_of ''0''"
    by (simp add: decimal_def nat_digits.simps bytes_of_def)
  ultimately show ?thesis
    using assms by (simp add: cksum_file_def open_or_warn_stdin_def Let_def cksum_length.simps crc32_block_division
        cksum_line_def bytes_of_def)
qed

lemma cksum_file_fails:
  assumes "io_open io name = None" and "name \<noteq> ''-''"
  shows "cksum_file tbl (Some name) io = (False, put_msg (Perror_Msg (bytes_of (''can't open '' @ name))) io)"
  using assms by (simp add: cksum_file_def open_or_warn_stdin_def)

definition cksum_msg :: "bb_io \<Rightarrow> string \<Rightarrow> bb_msg" where
  "cksum_msg io name = (case io_open io name of
     None \<Rightarrow> Perror_Msg (bytes_of (''can't open '' @ name)) | Some fd \<Rightarrow> cksum_line name (input_data fd))"

lemma cksum_args_msgs:
  "''-'' \<notin> set argv \<Longrightarrow> cksum_args (crc32_filltable True) argv code io =
    (if \<exists>name \<in> set argv. io_open io name = None then 1 else code, io\<lparr>io_out := io_out io @ map (cksum_msg io) argv\<rparr>)"
proof (induction argv arbitrary: code io)
  case (Cons name argv)
  have m: "cksum_msg (put_msg m io) = cksum_msg io" for m
    by (simp add: fun_eq_iff cksum_msg_def put_msg_def)
  have "cksum_file (crc32_filltable True) (Some name) io = (io_open io name \<noteq> None, put_msg (cksum_msg io name) io)"
    using Cons.prems cksum_file_line [of io name] cksum_file_fails [of io name]
    by (cases "io_open io name") (auto simp: cksum_msg_def)
  then show ?case
    using Cons.prems by (auto simp: Cons.IH m) (auto simp: put_msg_def)
qed simp

section \<open>Properties\<close>

text \<open>
  C34: The table-driven CRC-32 is the division of the message polynomial bit by bit, high bit first;
  the version for the other byte order is the same division on the reversed bits.
\<close>

theorem crc32_table_division:
  "crc32_block_endian1 val buf (crc32_filltable True) = crc_division val buf \<and>
   crc32_block_endian0 val buf (crc32_filltable False) = reflect (crc_division (reflect val) (map reflect buf))"
  by (simp add: crc32_block_division crc32_block_reflect)

text \<open>
  C36: \<open>cksum\<close> prints one line for every file that can be opened, the complement of the remainder of
  its content (up to a read error), and exits with 1 exactly if some file cannot be opened. The size in the line is
  always 0, and the size does not enter the remainder, since \<open>length\<close> is never increased.
\<close>

theorem cksum_main_output:
  assumes "argv \<noteq> []" and "''-'' \<notin> set argv"
  shows "cksum_main argv io =
    (if \<exists>name \<in> set argv. io_open io name = None then 1 else 0,
     io\<lparr>io_out := io_out io @ map (\<lambda>name. case io_open io name of
        None \<Rightarrow> Perror_Msg (bytes_of (''can't open '' @ name))
      | Some fd \<Rightarrow> Print (decimal (uint (NOT (crc_division 0 (input_data fd)))) @ bytes_of '' 0 '' @ bytes_of name @ [10]))
        argv\<rparr>)"
  unfolding cksum_line_def [symmetric] cksum_msg_def [symmetric]
  using assms by (simp add: cksum_main_def cksum_args_msgs)

definition one_file :: "byte list \<Rightarrow> bb_io" where
  "one_file bs = \<lparr>io_open = [''f'' \<mapsto> [Data bs]], io_close_ok = (\<lambda>_. True), io_stdin = [], io_stdin_closed = False, io_out = []\<rparr>"

theorem cksum_main_output_witness:
  "cksum_main [''f''] (one_file [0, 0]) =
    (0, (one_file [0, 0])\<lparr>io_out := [Print (bytes_of ''4294967295 0 f'' @ [10])]\<rparr>)"
proof -
  have "crc_division 0 [0, 0] = 0"
    by (simp add: crc_division_def byte_bits_def crc_bit_def upt_rec)
  then have "decimal (uint (NOT (crc_division 0 [0, 0]))) = bytes_of ''4294967295''"
    by (simp add: unsigned_minus_1_eq_mask mask_eq_exp_minus_1 decimal_def nat_digits.simps bytes_of_def)
  then show ?thesis
    using cksum_main_output [of "[''f'']" "one_file [0, 0]"] by (simp add: one_file_def bytes_of_def)
qed

text \<open>
  C35: The sum that \<open>cksum\<close> prints finds every error in up to four consecutive bytes: if two files of
  the same length differ only there, the sums differ.
\<close>

theorem cksum_finds_burst:
  assumes "io_open io name = Some fd" and "io_open io name' = Some fd'" and "name \<noteq> ''-''" and "name' \<noteq> ''-''"
    and "input_data fd = p @ x @ s" and "input_data fd' = p @ y @ s"
    and "length x = length y" and "length x \<le> 4" and "x \<noteq> y"
  shows "\<exists>a b. cksum_main [name, name'] io = (0, io\<lparr>io_out := io_out io @
      [Print (decimal (uint a) @ bytes_of '' 0 '' @ bytes_of name @ [10]),
       Print (decimal (uint b) @ bytes_of '' 0 '' @ bytes_of name' @ [10])]\<rparr>) \<and> (a :: u32) \<noteq> b"
proof -
  have "crc_division 0 (p @ x @ s) \<noteq> crc_division 0 (p @ y @ s)"
    using crc_division_burst [OF assms(7,8)] assms(9) by blast
  then have "NOT (crc_division 0 (p @ x @ s)) \<noteq> NOT (crc_division 0 (p @ y @ s))"
    by simp
  moreover have "cksum_main [name, name'] io = (0, io\<lparr>io_out := io_out io @
      [cksum_line name (p @ x @ s), cksum_line name' (p @ y @ s)]\<rparr>)"
    using assms(1-6) by (simp add: cksum_main_def cksum_args_msgs cksum_msg_def del: cksum_args.simps)
  ultimately show ?thesis
    unfolding cksum_line_def by blast
qed

definition two_files :: "byte list \<Rightarrow> byte list \<Rightarrow> bb_io" where
  "two_files bs cs = (one_file bs)\<lparr>io_open := [''f'' \<mapsto> [Data bs], ''g'' \<mapsto> [Data cs]]\<rparr>"

theorem cksum_finds_burst_witness:
  "\<exists>a b. cksum_main [''f'', ''g''] (two_files [1, 2, 3] [1, 5, 3]) = (0, (two_files [1, 2, 3] [1, 5, 3])\<lparr>io_out :=
      io_out (two_files [1, 2, 3] [1, 5, 3]) @
      [Print (decimal (uint a) @ bytes_of '' 0 '' @ bytes_of ''f'' @ [10]),
       Print (decimal (uint b) @ bytes_of '' 0 '' @ bytes_of ''g'' @ [10])]\<rparr>) \<and> (a :: u32) \<noteq> b"
  by (rule cksum_finds_burst [where p = "[1]" and x = "[2]" and y = "[5]" and s = "[3]"
      and fd = "[Data [1, 2, 3]]" and fd' = "[Data [1, 5, 3]]"])
    (simp_all add: two_files_def one_file_def)

end
