(* ===== verification/Bb_Sum.thy ===== *)
theory Bb_Sum
  imports Bb_Io
begin

text \<open>
  \<open>coreutils/sum.c\<close>: the BSD checksum (rotate and add in 16 bits) and the System V checksum (the sum
  of the bytes, folded to 16 bits) of files, with the loop over the arguments. The options are
  given as the bits that \<open>getopt32\<close> returns.
\<close>

section \<open>Definitions\<close>

definition SUM_BSD :: nat where "SUM_BSD = 0"
definition PRINT_NAME :: nat where "PRINT_NAME = 1"
definition SUM_SYSV :: nat where "SUM_SYSV = 2"

text \<open>The two inner loops on the bytes of a buffer; the System V one runs from its end.\<close>

definition sum_sysv_buf :: "u32 \<Rightarrow> byte list \<Rightarrow> u32" where
  "sum_sysv_buf s buf = foldl (\<lambda>s b. s + ucast b) s (rev buf)"

definition sum_bsd_buf :: "u32 \<Rightarrow> byte list \<Rightarrow> u32" where
  "sum_bsd_buf s buf =
     foldl (\<lambda>s b. (drop_bit 1 s + push_bit 15 (s AND 1) + ucast b) AND 0xffff) s buf"

text \<open>The state of the reading loop: \<open>total_bytes\<close> and \<open>s\<close>.\<close>

definition sum_chunk :: "nat \<Rightarrow> u64 \<times> u32 \<Rightarrow> byte list \<Rightarrow> u64 \<times> u32" where
  "sum_chunk type st buf =
     (fst st + of_nat (length buf),
      if SUM_SYSV \<le> type then sum_sysv_buf (snd st) buf else sum_bsd_buf (snd st) buf)"

text \<open>\<open>printf\<close> with a minimal width.\<close>

definition pad_left :: "nat \<Rightarrow> byte \<Rightarrow> byte list \<Rightarrow> byte list" where
  "pad_left width c text' = replicate (width - length text') c @ text'"

definition sum_line :: "nat \<Rightarrow> string \<Rightarrow> u64 \<Rightarrow> u32 \<Rightarrow> byte list" where
  "sum_line type file total_bytes s =
     (let file = (if type < PRINT_NAME then [] else file)
      in if SUM_SYSV \<le> type then
           let r = (s AND 0xffff) + drop_bit 16 (s AND 0xffffffff);
               s = (r AND 0xffff) + drop_bit 16 r
           in decimal (sint s) @ bytes_of '' '' @ decimal (uint ((total_bytes + 511) div 512)) @
              bytes_of ('' '' @ file) @ [10]
         else
           pad_left 5 0x30 (decimal (sint s)) @ bytes_of '' '' @
           pad_left 5 0x20 (decimal (uint ((total_bytes + 1023) div 1024))) @ bytes_of ('' '' @ file) @ [10])"

definition sum_file :: "string \<Rightarrow> nat \<Rightarrow> bb_io \<Rightarrow> bool \<times> bb_io" where
  "sum_file file type io =
     (case open_or_warn_stdin file io of
        (None, io) \<Rightarrow> (False, io)
      | (Some fd, io) \<Rightarrow>
          (case read_each 8192 (sum_chunk type) (0, 0) fd of
             ((total_bytes, s), at_end, _) \<Rightarrow>
               let r = (file \<noteq> ''-'' \<and> \<not> io_close_ok io file)
               in if at_end \<and> \<not> r then (True, put_msg (Print (sum_line type file total_bytes s)) io)
                  else (False, put_msg (Perror_Msg (bytes_of file)) io)))"

fun sum_args :: "nat \<Rightarrow> bool \<Rightarrow> string list \<Rightarrow> bb_io \<Rightarrow> bool \<times> bb_io" where
  "sum_args type n [] io = (n, io)"
| "sum_args type n (arg # argv) io =
     (case sum_file arg type io of (ok, io) \<Rightarrow> sum_args type (n \<and> ok) argv io)"

definition sum_main :: "nat \<Rightarrow> string list \<Rightarrow> bb_io \<Rightarrow> int \<times> bb_io" where
  "sum_main opts argv io =
     (let type = SUM_BSD;
          type = (if bit opts 0 then SUM_SYSV else type);
          type = (if bit opts 1 then SUM_BSD else type)
      in apfst (\<lambda>n. if n then 0 else 1)
           (if argv = [] then sum_file ''-'' type io
            else let type = type + (if 1 < length argv \<or> type = SUM_SYSV then 1 else 0)
                 in sum_args type True argv io))"

text \<open>
  What the two sums are meant to be: the BSD sum in 16-bit words, and the System V sum as a number
  between 0 and 65535 that is congruent to the sum of the bytes modulo 65535.
\<close>

definition bsd_sum :: "byte list \<Rightarrow> 16 word" where
  "bsd_sum bs = foldl (\<lambda>s b. word_rotr 1 s + ucast b) 0 bs"

definition sysv_fold :: "nat \<Rightarrow> nat" where
  "sysv_fold n = n mod 65536 + n div 65536"

definition byte_sum :: "byte list \<Rightarrow> nat" where
  "byte_sum bs = sum_list (map unat bs)"

section \<open>The sums\<close>

lemma bsd_step:
  "(drop_bit 1 (ucast s) + push_bit 15 (ucast s AND 1) + ucast b) AND 0xffff =
    (ucast (word_rotr 1 (s :: 16 word) + ucast b) :: u32)"
proof -
  have "drop_bit 1 (ucast s :: u32) + push_bit 15 (ucast s AND 1) = drop_bit 1 (ucast s) OR push_bit 15 (ucast s AND 1)"
    by (intro disjunctive_add_eq_or bit_eqI)
      (auto simp: bit_and_iff bit_drop_bit_eq bit_push_bit_iff bit_ucast_iff bit_1_iff dest: bit_imp_le_length)
  also have "\<dots> = ucast (word_rotr 1 s)"
  proof (rule bit_eqI)
    fix n
    have "bit (push_bit 15 (ucast s AND 1 :: u32)) n = (n = 15 \<and> bit s 0)"
      unfolding bit_push_bit_iff bit_and_iff bit_1_iff bit_ucast_iff by auto
    moreover have "bit (drop_bit 1 (ucast s :: u32)) n = (n < 15 \<and> bit s (Suc n))"
      using bit_imp_le_length [of s "Suc n"] by (auto simp: bit_drop_bit_eq bit_ucast_iff)
    moreover have "bit (ucast (word_rotr 1 s) :: u32) n = (n < 16 \<and> bit s (Suc n mod 16))"
      by (auto simp: bit_ucast_iff bit_word_rotr_iff)
    ultimately show "bit (drop_bit 1 (ucast s) OR push_bit 15 (ucast s AND 1) :: u32) n = bit (ucast (word_rotr 1 s) :: u32) n"
      unfolding bit_or_iff by (cases "n < 15"; cases "n = 15") auto
  qed
  finally have "drop_bit 1 (ucast s :: u32) + push_bit 15 (ucast s AND 1) = ucast (word_rotr 1 s)" .
  moreover have "(ucast r + ucast b) AND 0xffff = (ucast (r + ucast b) :: u32)" for r :: "16 word"
  proof -
    have "(ucast r + ucast b) AND 0xffff = take_bit 16 (ucast r + ucast b :: u32)"
      by (simp add: take_bit_eq_mask mask_eq_exp_minus_1)
    also have "\<dots> = ucast (r + ucast b)"
      by (rule word_uint_eqI)
        (simp add: unsigned_take_bit_eq unsigned_ucast_eq uint_word_ariths take_bit_eq_mod [where 'a = int] mod_simps mod_mod_cancel)
    finally show ?thesis .
  qed
  ultimately show ?thesis by simp
qed

lemma sum_bsd_buf_bsd: "sum_bsd_buf 0 bs = ucast (bsd_sum bs)"
proof -
  have "foldl (\<lambda>s b. (drop_bit 1 s + push_bit 15 (s AND 1) + ucast b) AND 0xffff) (ucast s) bs
      = (ucast (foldl (\<lambda>s b. word_rotr 1 s + ucast b) s bs) :: u32)" for s :: "16 word"
    by (induction bs arbitrary: s) (simp_all only: foldl.simps bsd_step)
  from this [of 0] show ?thesis
    by (simp only: sum_bsd_buf_def bsd_sum_def unsigned_0)
qed

lemma sum_sysv_buf_sum: "sum_sysv_buf s bs = s + of_nat (byte_sum bs)"
proof -
  have "foldl (\<lambda>s b. s + ucast b) s bs = s + of_nat (byte_sum bs)" for s :: u32 and bs
    by (induction bs arbitrary: s) (simp_all add: byte_sum_def ac_simps)
  moreover have "byte_sum (rev bs) = byte_sum bs"
    by (simp add: byte_sum_def flip: rev_map)
  ultimately show ?thesis
    by (simp add: sum_sysv_buf_def)
qed

interpretation sum_loop: chunk_action "sum_chunk type" for type
proof
  fix st :: "u64 \<times> u32" and a b
  show "sum_chunk type (sum_chunk type st a) b = sum_chunk type st (a @ b)"
    by (simp add: sum_chunk_def sum_sysv_buf_sum byte_sum_def) (simp add: sum_bsd_buf_def)
  show "sum_chunk type st [] = st"
    by (simp add: sum_chunk_def sum_sysv_buf_def sum_bsd_buf_def)
qed

lemma sysv_word_halves:
  assumes "n < 2 ^ 32"
  shows "(of_nat n :: u32) AND 0xffff = of_nat (n mod 65536)" and "drop_bit 16 (of_nat n :: u32) = of_nat (n div 65536)"
    and "(w :: u32) AND 0xffffffff = w"
proof -
  have u: "unat (of_nat n :: u32) = n"
    using assms by (simp add: unsigned_of_nat take_bit_nat_eq_self)
  have "(of_nat n :: u32) AND 0xffff = take_bit 16 (of_nat n)"
    by (simp add: take_bit_eq_mask mask_eq_exp_minus_1)
  also have "\<dots> = of_nat (n mod 65536)"
    by (rule word_unat_eq_iff [THEN iffD2]) (simp add: unsigned_take_bit_eq unsigned_of_nat take_bit_eq_mod [where 'a = nat] mod_mod_cancel)
  finally show "(of_nat n :: u32) AND 0xffff = of_nat (n mod 65536)" .
  have "unat (drop_bit 16 (of_nat n :: u32)) = unat (of_nat (n div 65536) :: u32)"
    using assms by (simp only: unat_drop_bit_eq u) (simp add: drop_bit_eq_div unsigned_of_nat take_bit_nat_eq_self)
  then show "drop_bit 16 (of_nat n :: u32) = of_nat (n div 65536)"
    by (rule word_unat_eq_iff [THEN iffD2])
  have "w AND 0xffffffff = take_bit 32 w"
    by (simp add: take_bit_eq_mask mask_eq_exp_minus_1)
  then show "w AND 0xffffffff = w"
    by (simp add: take_bit_word_eq_self)
qed

lemma sysv_fold_facts:
  assumes "n < 2 ^ 32"
  shows "sysv_fold n < 2 ^ 32" and "sysv_fold (sysv_fold n) \<le> 65535" and "sysv_fold n mod 65535 = n mod 65535"
proof -
  have q: "n div 65536 \<le> 65535" and r: "n mod 65536 \<le> 65535" using assms by simp_all
  then show lt: "sysv_fold n < 2 ^ 32" by (simp add: sysv_fold_def)
  have "sysv_fold n \<le> 131070" using q r by (simp add: sysv_fold_def)
  then show "sysv_fold (sysv_fold n) \<le> 65535"
    unfolding sysv_fold_def [of "sysv_fold n"] by (cases "sysv_fold n < 65536") (auto simp: mod_if div_if)
  have "n = 65535 * (n div 65536) + sysv_fold n"
    using mult_div_mod_eq [of 65536 n] unfolding sysv_fold_def by linarith
  then show "sysv_fold n mod 65535 = n mod 65535"
    by (metis mod_mult_self4)
qed

lemma sum_line_sysv:
  assumes "SUM_SYSV \<le> type" and "s = of_nat n" and "n < 2 ^ 32"
  shows "sum_line type file tb s = decimal (int (sysv_fold (sysv_fold n))) @ bytes_of '' '' @
    decimal (uint ((tb + 511) div 512)) @ bytes_of ('' '' @ file) @ [10]"
proof -
  have f: "((of_nat k :: u32) AND 0xffff) + drop_bit 16 (of_nat k) = of_nat (sysv_fold k)" if "k < 2 ^ 32" for k
    by (simp add: sysv_word_halves(1,2) [OF that] sysv_fold_def)
  have "sint (of_nat (sysv_fold (sysv_fold n)) :: u32) = int (sysv_fold (sysv_fold n))"
    using sysv_fold_facts(2) [OF assms(3)] by (simp add: sint_uint unsigned_of_nat take_bit_nat_eq_self signed_take_bit_int_eq_self)
  moreover have "\<not> type < PRINT_NAME" using assms(1) by (simp add: SUM_SYSV_def PRINT_NAME_def)
  ultimately show ?thesis
    using assms(1,3) sysv_fold_facts(1) [OF assms(3)]
    by (simp add: sum_line_def Let_def assms(2) sysv_word_halves(3) [OF assms(3)] f)
qed

lemma sum_line_bsd:
  assumes "type < SUM_SYSV" and "s = ucast w"
  shows "sum_line type file tb s = pad_left 5 0x30 (decimal (uint (w :: 16 word))) @ bytes_of '' '' @
    pad_left 5 0x20 (decimal (uint ((tb + 1023) div 1024))) @
    bytes_of ('' '' @ (if type < PRINT_NAME then [] else file)) @ [10]"
proof -
  have "uint w < 2 ^ 16" using unsigned_less [of w, where ?'a = int] by simp
  then have "take_bit 32 (uint w) = uint w" "signed_take_bit 31 (uint w) = uint w"
    using order_trans [of "- (2 ^ 31)" 0 "uint w"]
    by (intro take_bit_int_eq_self signed_take_bit_int_eq_self; simp)+
  then have "sint (ucast w :: u32) = uint w"
    by (simp add: sint_uint unsigned_ucast_eq)
  then show ?thesis
    using assms by (simp add: sum_line_def Let_def)
qed

lemma block_count:
  assumes "length bs < 2 ^ 63" and "0 < k" and "k \<le> 1024"
  shows "uint ((of_nat (length bs) + of_nat (k - 1)) div (of_nat k) :: u64) = int ((length bs + (k - 1)) div k)"
proof -
  have "uint (of_nat m :: u64) = int m" if "m < 2 ^ 64" for m
    using that by (simp add: unsigned_of_nat take_bit_nat_eq_self)
  from this [of "length bs + (k - 1)"] this [of k] show ?thesis
    using assms unfolding of_nat_add [symmetric] uint_div_distrib by (simp add: zdiv_int)
qed

lemma sum_file_result:
  assumes "io_open io file = Some fd" and "file \<noteq> ''-''"
  shows "sum_file file type io =
    (if input_ok fd \<and> io_close_ok io file
     then (True, put_msg (Print (sum_line type file (of_nat (length (input_data fd)))
       (if SUM_SYSV \<le> type then of_nat (byte_sum (input_data fd)) else ucast (bsd_sum (input_data fd))))) io)
     else (False, put_msg (Perror_Msg (bytes_of file)) io))"
proof -
  obtain fd' where "read_each 8192 (sum_chunk type) (0, 0) fd = (sum_chunk type (0, 0) (input_data fd), input_ok fd, fd')"
    using sum_loop.read_each_all [of 8192 type "(0, 0)" fd] by auto
  then show ?thesis
    using assms
    by (simp add: sum_file_def open_or_warn_stdin_def Let_def sum_chunk_def sum_sysv_buf_sum sum_bsd_buf_bsd)
qed

section \<open>Properties\<close>

text \<open>
  C37: \<open>sum\<close> on one file. Without \<open>-s\<close>, or with \<open>-r\<close>, it prints the 16-bit BSD sum of the
  content and its size in blocks of 1024 bytes; with \<open>-s\<close> alone a number of at most 65535 that is
  congruent modulo 65535 to the sum of the bytes (modulo \<open>2 ^ 32\<close>), the size in blocks of 512 bytes and
  the name. If the file cannot be read to its end, it reports the error and exits with 1.
\<close>

theorem sum_main_output:
  assumes "io_open io file = Some fd" and "file \<noteq> ''-''" and "bs = input_data fd" and "length bs < 2 ^ 63"
    and "ok = (input_ok fd \<and> io_close_ok io file)" and "v = byte_sum bs mod 2 ^ 32"
  shows "(bit opts 1 \<or> \<not> bit opts 0 \<longrightarrow> sum_main opts [file] io =
      (if ok then (0, put_msg (Print (pad_left 5 0x30 (decimal (uint (bsd_sum bs))) @ bytes_of '' '' @
         pad_left 5 0x20 (decimal (int ((length bs + 1023) div 1024))) @ bytes_of '' '' @ [10])) io)
       else (1, put_msg (Perror_Msg (bytes_of file)) io))) \<and>
    (bit opts 0 \<and> \<not> bit opts 1 \<longrightarrow> (\<exists>c. c \<le> 65535 \<and> c mod 65535 = v mod 65535 \<and> sum_main opts [file] io =
      (if ok then (0, put_msg (Print (decimal (int c) @ bytes_of '' '' @
         decimal (int ((length bs + 511) div 512)) @ bytes_of ('' '' @ file) @ [10])) io)
       else (1, put_msg (Perror_Msg (bytes_of file)) io))))"
proof (intro conjI impI)
  assume "bit opts 1 \<or> \<not> bit opts 0"
  then have "sum_main opts [file] io = apfst (\<lambda>n. if n then 0 else 1) (sum_file file 0 io)"
    by (cases "sum_file file 0 io") (auto simp: sum_main_def SUM_BSD_def SUM_SYSV_def)
  then show "sum_main opts [file] io =
      (if ok then (0, put_msg (Print (pad_left 5 0x30 (decimal (uint (bsd_sum bs))) @ bytes_of '' '' @
         pad_left 5 0x20 (decimal (int ((length bs + 1023) div 1024))) @ bytes_of '' '' @ [10])) io)
       else (1, put_msg (Perror_Msg (bytes_of file)) io))"
    using block_count [of bs 1024] assms
    by (simp add: sum_file_result sum_line_bsd SUM_SYSV_def PRINT_NAME_def)
next
  assume "bit opts 0 \<and> \<not> bit opts 1"
  then have m: "sum_main opts [file] io = apfst (\<lambda>n. if n then 0 else 1) (sum_file file 3 io)"
    by (cases "sum_file file 3 io") (auto simp: sum_main_def SUM_BSD_def SUM_SYSV_def)
  have v: "v < 2 ^ 32" "(of_nat (byte_sum bs) :: u32) = of_nat v"
    using assms(6) by (simp_all add: word_of_nat_eq_iff take_bit_eq_mod [where 'a = nat])
  let ?c = "sysv_fold (sysv_fold v)"
  have "?c \<le> 65535" "?c mod 65535 = v mod 65535"
    using sysv_fold_facts [OF v(1)] sysv_fold_facts(3) [of "sysv_fold v"] by simp_all
  moreover have "sum_main opts [file] io =
      (if ok then (0, put_msg (Print (decimal (int ?c) @ bytes_of '' '' @
         decimal (int ((length bs + 511) div 512)) @ bytes_of ('' '' @ file) @ [10])) io)
       else (1, put_msg (Perror_Msg (bytes_of file)) io))"
    unfolding m sum_file_result [OF assms(1,2)]
    using block_count [of bs 512] assms(4,5) sum_line_sysv [OF _ v(2,1), where type = 3]
    by (simp add: SUM_SYSV_def flip: assms(3))
  ultimately show "\<exists>c. c \<le> 65535 \<and> c mod 65535 = v mod 65535 \<and> sum_main opts [file] io =
      (if ok then (0, put_msg (Print (decimal (int c) @ bytes_of '' '' @
         decimal (int ((length bs + 511) div 512)) @ bytes_of ('' '' @ file) @ [10])) io)
       else (1, put_msg (Perror_Msg (bytes_of file)) io))" by blast
qed

definition sum_sample :: bb_io where
  "sum_sample = \<lparr>io_open = [''f'' \<mapsto> [Data [200, 100]]], io_close_ok = (\<lambda>_. True), io_stdin = [],
     io_stdin_closed = False, io_out = []\<rparr>"

theorem sum_main_output_witness:
  "sum_main 0 [''f''] sum_sample =
     (0, put_msg (Print (pad_left 5 0x30 (decimal (uint (bsd_sum [200, 100]))) @ bytes_of '' '' @
       pad_left 5 0x20 (decimal 1) @ bytes_of '' '' @ [10])) sum_sample) \<and>
   (\<exists>c. c \<le> 65535 \<and> c mod 65535 = (300 :: nat) mod 65535 \<and> sum_main 1 [''f''] sum_sample =
     (0, put_msg (Print (decimal (int c) @ bytes_of '' '' @ decimal 1 @ bytes_of ('' '' @ ''f'') @ [10])) sum_sample))"
proof (rule conjI)
  have facts: "io_open sum_sample ''f'' = Some [Data [200, 100]]" "''f'' \<noteq> ''-''"
    "[200, 100] = input_data [Data [200, 100]]" "length [200 :: byte, 100] < 2 ^ 63"
    "True = (input_ok [Data [200, 100]] \<and> io_close_ok sum_sample ''f'')" "(300 :: nat) = byte_sum [200, 100] mod 2 ^ 32"
    by (simp_all add: sum_sample_def byte_sum_def)
  show "sum_main 0 [''f''] sum_sample =
     (0, put_msg (Print (pad_left 5 0x30 (decimal (uint (bsd_sum [200, 100]))) @ bytes_of '' '' @
       pad_left 5 0x20 (decimal 1) @ bytes_of '' '' @ [10])) sum_sample)"
    using sum_main_output [OF facts, of 0] by simp
  show "\<exists>c. c \<le> 65535 \<and> c mod 65535 = (300 :: nat) mod 65535 \<and> sum_main 1 [''f''] sum_sample =
     (0, put_msg (Print (decimal (int c) @ bytes_of '' '' @ decimal 1 @ bytes_of ('' '' @ ''f'') @ [10])) sum_sample)"
    using sum_main_output [OF facts, of 1] by (simp add: bit_0)
qed

end
