(* ===== verification/Bb_Shasum.thy ===== *)
theory Bb_Shasum
  imports Bb_Hash Bb_Io
begin

text \<open>
  \<open>coreutils/md5_sha1_sum.c\<close>: the applets \<open>md5sum\<close>, \<open>sha1sum\<close>, \<open>sha256sum\<close> and \<open>sha512sum\<close>, printing
  digests of files and checking a list of them (\<open>-c\<close>). The options are the bits that \<open>getopt32\<close>
  returns (\<open>FLAG_SILENT\<close> 1, \<open>FLAG_CHECK\<close> 2, \<open>FLAG_WARN\<close> 4); the fourth letter of the name of the applet is
  one of the four values of \<open>hash_algo\<close>. The contexts and buffers hold anything at first.
\<close>

section \<open>Definitions\<close>

datatype hash_algo = HASH_MD5 | HASH_SHA1 | HASH_SHA256 | HASH_SHA512

text \<open>\<open>bin2hex\<close> of \<open>libbb/xfuncs.c\<close>: a hex digit of the upper-case table, with bit 5 set.\<close>

definition bb_hexdigits_upcase :: "byte list" where
  "bb_hexdigits_upcase = bytes_of ''0123456789ABCDEF''"

definition bin2hex :: "byte list \<Rightarrow> byte list" where
  "bin2hex cs = concat (map (\<lambda>c.
     [0x20 OR bb_hexdigits_upcase ! unat (drop_bit 4 c), 0x20 OR bb_hexdigits_upcase ! unat (c AND 0xf)]) cs)"

definition hash_bin_to_hex :: "byte list \<Rightarrow> nat \<Rightarrow> byte list" where
  "hash_bin_to_hex hash_value hash_length = bin2hex (take hash_length hash_value)"

text \<open>
  \<open>hash_file\<close>: the digest as text (\<open>None\<close> for \<open>NULL\<close>). \<open>in_buf\<close> is the buffer that \<open>final\<close> writes the
  digest to.
\<close>

definition hash_file ::
  "hash_algo \<Rightarrow> md5_ctx_t \<Rightarrow> sha512_ctx_t \<Rightarrow> byte list \<Rightarrow> string \<Rightarrow> bb_io \<Rightarrow> byte list option \<times> bb_io" where
  "hash_file algo ctx ctx512 in_buf filename io =
     (case open_or_warn_stdin filename io of
        (None, io) \<Rightarrow> (None, io)
      | (Some src_fd, io) \<Rightarrow>
          let (count_is_0, hash_value, hash_len) =
            (case algo of
               HASH_MD5 \<Rightarrow> (case read_each 4096 md5_hash (md5_begin ctx) src_fd of
                  (c, z, _) \<Rightarrow> (z, fst (md5_end c), 16))
             | HASH_SHA1 \<Rightarrow> (case read_each 4096 md5_hash (sha1_begin ctx) src_fd of
                  (c, z, _) \<Rightarrow> (z, fst (sha1_end c), 20))
             | HASH_SHA256 \<Rightarrow> (case read_each 4096 md5_hash (sha256_begin ctx) src_fd of
                  (c, z, _) \<Rightarrow> (z, fst (sha1_end c), 32))
             | HASH_SHA512 \<Rightarrow> (case read_each 4096 sha512_hash (sha512_begin ctx512) src_fd of
                  (c, z, _) \<Rightarrow> (z, fst (sha512_end c), 64)))
          in (if count_is_0 then Some (hash_bin_to_hex (poke in_buf 0 hash_value) hash_len) else None, io))"

text \<open>\<open>strstr\<close>: the index of the first occurrence.\<close>

fun strstr_at :: "byte list \<Rightarrow> byte list \<Rightarrow> nat option" where
  "strstr_at needle [] = (if needle = [] then Some 0 else None)"
| "strstr_at needle (c # cs) =
     (if take (length needle) (c # cs) = needle then Some 0 else map_option Suc (strstr_at needle cs))"

record check_state =
  count_total :: int
  count_failed :: int
  return_value :: int

text \<open>The body of the loop over the lines of the list.\<close>

definition check_sum_line ::
  "(string \<Rightarrow> bb_io \<Rightarrow> byte list option \<times> bb_io) \<Rightarrow> nat \<Rightarrow> byte list \<Rightarrow> check_state \<times> bb_io \<Rightarrow> check_state \<times> bb_io" where
  "check_sum_line hfile flags line st =
     (let (cs, io) = st;
          cs = cs\<lparr>count_total := count_total cs + 1\<rparr>;
          filename_ptr = strstr_at (bytes_of ''  '') line;
          filename_ptr = (if filename_ptr = None then strstr_at (bytes_of '' *'') line else filename_ptr)
      in (case filename_ptr of
            None \<Rightarrow>
              (cs\<lparr>count_failed := count_failed cs + 1, return_value := 1\<rparr>,
               if bit flags 2 then put_msg (Error_Msg (bytes_of ''invalid format'')) io else io)
          | Some p \<Rightarrow>
              let name = drop (p + 2) line; line = take p line;
                  (hash_value, io) = hfile (string_of name) io
              in if hash_value = Some line then
                   (cs, if bit flags 0 then io else put_msg (Print (name @ bytes_of '': OK'' @ [10])) io)
                 else
                   (cs\<lparr>count_failed := count_failed cs + 1, return_value := 1\<rparr>,
                    if bit flags 0 then io else put_msg (Print (name @ bytes_of '': FAILED'' @ [10])) io)))"

function check_lines ::
  "(string \<Rightarrow> bb_io \<Rightarrow> byte list option \<times> bb_io) \<Rightarrow> nat \<Rightarrow> byte list \<Rightarrow> check_state \<times> bb_io \<Rightarrow> check_state \<times> bb_io" where
  "check_lines hfile flags inp st =
     (case xmalloc_fgetline inp of
        (None, _) \<Rightarrow> st
      | (Some line, rest) \<Rightarrow> check_lines hfile flags rest (check_sum_line hfile flags line st))"
  by pat_completeness auto
termination
  by (relation "measure (\<lambda>(hfile, flags, inp, st). length inp)") (auto dest: xmalloc_fgetline_shorter [OF sym])

declare check_lines.simps [simp del]

text \<open>The loop over the arguments without \<open>-c\<close>.\<close>

fun print_sums ::
  "(string \<Rightarrow> bb_io \<Rightarrow> byte list option \<times> bb_io) \<Rightarrow> string list \<Rightarrow> int \<Rightarrow> bb_io \<Rightarrow> int \<times> bb_io" where
  "print_sums hfile [] ret io = (ret, io)"
| "print_sums hfile (arg # argv) ret io =
     (case hfile arg io of
        (None, io) \<Rightarrow> print_sums hfile argv 1 io
      | (Some hash_value, io) \<Rightarrow>
          print_sums hfile argv ret (put_msg (Print (hash_value @ bytes_of ''  '' @ bytes_of arg @ [10])) io))"

definition md5_sha1_sum_main ::
  "hash_algo \<Rightarrow> md5_ctx_t \<Rightarrow> sha512_ctx_t \<Rightarrow> byte list \<Rightarrow> nat \<Rightarrow> string list \<Rightarrow> bb_io \<Rightarrow> int \<times> bb_io" where
  "md5_sha1_sum_main algo ctx ctx512 in_buf flags argv io =
     (let argv = (if argv = [] then [''-''] else argv);
          hfile = hash_file algo ctx ctx512 in_buf
      in if \<not> bit flags 1 \<and> bit flags 0 then
           (1, put_msg (Error_Msg (bytes_of ''-s is meaningful only with -c'')) io)
         else if \<not> bit flags 1 \<and> bit flags 2 then
           (1, put_msg (Error_Msg (bytes_of ''-w is meaningful only with -c'')) io)
         else if bit flags 1 then
           if 1 < length argv then
             (1, put_msg (Error_Msg (bytes_of ''only one argument may be specified with -c'')) io)
           else
             (case open_or_warn_stdin (hd argv) io of
                (None, io) \<Rightarrow> (1, io)
              | (Some fd, io) \<Rightarrow>
                  let (cs, io) = check_lines hfile flags (input_data fd)
                        (\<lparr>count_total = 0, count_failed = 0, return_value = 0\<rparr>, io)
                  in (return_value cs,
                      if count_failed cs \<noteq> 0 \<and> \<not> bit flags 0 then
                        put_msg (Error_Msg (bytes_of ''WARNING: '' @ decimal (count_failed cs) @ bytes_of '' of '' @
                          decimal (count_total cs) @ bytes_of '' computed checksums did NOT match'')) io
                      else io))
         else print_sums hfile argv 0 io)"

text \<open>The digest each applet is meant to print.\<close>

definition digest_of :: "hash_algo \<Rightarrow> byte list \<Rightarrow> byte list" where
  "digest_of algo = (case algo of HASH_MD5 \<Rightarrow> md5_digest | HASH_SHA1 \<Rightarrow> sha1_digest
     | HASH_SHA256 \<Rightarrow> sha256_digest | HASH_SHA512 \<Rightarrow> sha512_digest)"

section \<open>Hexadecimal digits\<close>

lemma nibble_bounds: "unat (drop_bit 4 (c :: byte)) < 16" "unat (c AND 0xf) < 16"
proof -
  show "unat (drop_bit 4 c) < 16"
    using unsigned_less [of c, where ?'a = nat] by (simp add: unat_drop_bit_eq drop_bit_eq_div [where 'a = nat])
  have "c AND 0xf = take_bit 4 c" by (simp add: take_bit_eq_mask mask_eq_exp_minus_1)
  then show "unat (c AND 0xf) < 16" by (simp add: unsigned_take_bit_eq take_bit_eq_mod [where 'a = nat])
qed

lemma bin2hex_text: "list_all (\<lambda>c. 0x30 \<le> c \<and> c \<le> 0x66) (bin2hex cs)"
proof -
  have n: "\<forall>n \<in> set [0..<16]. 0x30 \<le> 0x20 OR bb_hexdigits_upcase ! n \<and> 0x20 OR bb_hexdigits_upcase ! n \<le> 0x66"
    by (simp add: bb_hexdigits_upcase_def bytes_of_def upt_rec)
  with nibble_bounds show ?thesis by (auto simp: bin2hex_def list_all_iff)
qed

lemma bin2hex_inj: "bin2hex xs = bin2hex ys \<Longrightarrow> xs = ys"
proof (induction xs arbitrary: ys)
  case Nil
  then show ?case by (cases ys) (simp_all add: bin2hex_def)
next
  case (Cons x xs)
  then obtain y ys' where y: "ys = y # ys'" by (cases ys) (auto simp: bin2hex_def)
  let ?d = "\<lambda>n. 0x20 OR bb_hexdigits_upcase ! n"
  have "distinct (map ?d [0..<16])"
    by (simp add: bb_hexdigits_upcase_def bytes_of_def upt_rec)
  then have inj: "m = n" if "?d m = ?d n" "m < 16" "n < 16" for m n
    using that by (simp add: distinct_map inj_on_def)
  have "drop_bit 4 x = drop_bit 4 y" "x AND 0xf = y AND 0xf" "bin2hex xs = bin2hex ys'"
    using Cons.prems inj [OF _ nibble_bounds(1) nibble_bounds(1), of x y]
      inj [OF _ nibble_bounds(2) nibble_bounds(2), of x y]
    by (simp_all add: y bin2hex_def word_unat_eq_iff)
  moreover have "x = y"
  proof (rule bit_eqI)
    fix i
    have lo: "bit (c AND 0xf) i = (i < 4 \<and> bit c i)" for c :: byte
    proof -
      have "c AND 0xf = take_bit 4 c" by (simp add: take_bit_eq_mask mask_eq_exp_minus_1)
      then show ?thesis by (simp add: bit_take_bit_iff)
    qed
    show "bit x i = bit y i"
      using arg_cong [OF calculation(1), of "\<lambda>w. bit w (i - 4)"] arg_cong [OF calculation(2), of "\<lambda>w. bit w i"]
      unfolding lo by (cases "i < 4") (simp_all add: bit_drop_bit_eq)
  qed
  ultimately show ?case using Cons.IH y by simp
qed

section \<open>Digests of files\<close>

lemma digest_lengths:
  "length (md5_digest m) = 16" "length (sha1_digest m) = 20" "length (sha256_digest m) = 32" "length (sha512_digest m) = 64"
  by (simp_all add: md5_digest_def quad_bytes_def sha1_digest_def sha256_digest_def sha512_digest_def le_bytes32_def
      be_bytes32_def be_bytes64_def split: prod.split)

text \<open>What \<open>hash_file\<close> gives for a file, whatever the sizes of the reads.\<close>

definition hash_text :: "hash_algo \<Rightarrow> infile \<Rightarrow> byte list option" where
  "hash_text algo fd = (if input_ok fd then Some (bin2hex (digest_of algo (input_data fd))) else None)"

lemma hash_file_text:
  assumes "ctx64_wf ctx" and "ctx512_wf ctx512" and "io_open io name = Some fd" and "name \<noteq> ''-''"
  shows "hash_file algo ctx ctx512 in_buf name io = (hash_text algo fd, io)"
proof -
  have fits: "list_all fits64 cs" if "list_all (\<lambda>c. c \<noteq> [] \<and> length c \<le> 4096) cs" for cs :: "byte list list"
    using that by (auto simp: list_all_iff fits64_def)
  have chunks: "\<exists>cs fd'. read_each 4096 upd s fd = (foldl upd s cs, input_ok fd, fd') \<and>
      concat cs = input_data fd \<and> list_all fits64 cs" for upd :: "'s \<Rightarrow> byte list \<Rightarrow> 's" and s
    using read_each_chunks [of 4096 upd s fd] fits by fastforce
  have cut: "hash_bin_to_hex (poke in_buf 0 h) n = bin2hex h" if "length h = n" for h n
    using that by (simp add: hash_bin_to_hex_def poke_def)
  note streams = bb_md5.stream_digest [OF assms(1)] bb_sha1.stream_digest [OF assms(1)]
    bb_sha256.stream_digest [OF assms(1)] bb_sha512.stream_digest [OF assms(2)]
  show ?thesis
    using chunks [of md5_hash "md5_begin ctx"] chunks [of md5_hash "sha1_begin ctx"]
      chunks [of md5_hash "sha256_begin ctx"] chunks [of sha512_hash "sha512_begin ctx512"] assms(3,4)
    by (cases algo)
      (auto simp: hash_file_def open_or_warn_stdin_def hash_text_def digest_of_def streams cut digest_lengths)
qed

section \<open>Lists of digests\<close>

definition plain_name :: "string \<Rightarrow> bool" where
  "plain_name name \<longleftrightarrow> name \<noteq> ''-'' \<and> list_all (\<lambda>c. c \<noteq> 10 \<and> c \<noteq> 0) (bytes_of name)"

definition sum_text :: "byte list \<Rightarrow> string \<Rightarrow> byte list" where
  "sum_text h name = h @ bytes_of ''  '' @ bytes_of name"

lemma strstr_at_blanks:
  "list_all (\<lambda>c. 0x30 \<le> c \<and> c \<le> 0x66) h \<Longrightarrow> strstr_at (bytes_of ''  '') (sum_text h name) = Some (length h)"
proof (induction h)
  case (Cons c h)
  then have "c \<noteq> 0x20" by auto
  with Cons show ?case by (simp add: sum_text_def bytes_of_def)
qed (simp add: sum_text_def bytes_of_def)

lemma fgetline_sum_text:
  assumes "list_all (\<lambda>c. 0x30 \<le> c \<and> c \<le> 0x66) h" and "plain_name name"
  shows "xmalloc_fgetline (sum_text h name @ 10 # rest) = (Some (sum_text h name), rest)"
  using assms by (intro xmalloc_fgetline_line) (auto simp: sum_text_def plain_name_def list_all_iff bytes_of_def)

definition verdict :: "nat \<Rightarrow> bool \<Rightarrow> string \<Rightarrow> bb_msg list" where
  "verdict flags ok name = (if bit flags 0 then [] else [Print (bytes_of (name @ (if ok then '': OK'' else '': FAILED'')) @ [10])])"

lemma bytes_of_append [simp]: "bytes_of (s @ t) = bytes_of s @ bytes_of t"
  by (simp add: bytes_of_def)

lemma check_sum_line_result:
  assumes "list_all (\<lambda>c. 0x30 \<le> c \<and> c \<le> 0x66) h" and "hfile name io = (hv, io)" and "ok = (hv = Some h)"
  shows "check_sum_line hfile flags (sum_text h name) (cs, io) =
    (cs\<lparr>count_total := count_total cs + 1, count_failed := count_failed cs + (if ok then 0 else 1),
        return_value := (if ok then return_value cs else 1)\<rparr>, io\<lparr>io_out := io_out io @ verdict flags ok name\<rparr>)"
proof -
  have p: "take (length h) (sum_text h name) = h" "drop (Suc (Suc (length h))) (sum_text h name) = bytes_of name"
    by (simp_all add: sum_text_def bytes_of_def)
  show ?thesis
    using assms(2,3) strstr_at_blanks [OF assms(1), of name]
    by (cases "hv = Some h") (simp_all add: check_sum_line_def p Let_def verdict_def put_msg_def)
qed

lemma check_lines_result:
  assumes "\<And>name io. name \<in> set names \<Longrightarrow> io_open io = opn \<Longrightarrow> hfile name io = (hv name, io)"
    and "\<And>name. name \<in> set names \<Longrightarrow> plain_name name \<and> list_all (\<lambda>c. 0x30 \<le> c \<and> c \<le> 0x66) (h name)"
    and "io_open io = opn"
  shows "\<exists>n. check_lines hfile flags (concat (map (\<lambda>name. sum_text (h name) name @ [10]) names)) (cs, io) =
    (cs\<lparr>count_total := count_total cs + int (length names), count_failed := n,
        return_value := (if \<forall>name \<in> set names. hv name = Some (h name) then return_value cs else 1)\<rparr>,
     io\<lparr>io_out := io_out io @ concat (map (\<lambda>name. verdict flags (hv name = Some (h name)) name) names)\<rparr>)"
  using assms
proof (induction names arbitrary: cs io)
  case Nil
  then show ?case
    by (intro exI [of _ "count_failed cs"]) (subst check_lines.simps, simp)
next
  case (Cons name names)
  let ?st = "check_sum_line hfile flags (sum_text (h name) name) (cs, io)"
  let ?ok = "hv name = Some (h name)"
  let ?rest = "concat (map (\<lambda>name. sum_text (h name) name @ [10]) names)"
  have st: "?st = (cs\<lparr>count_total := count_total cs + 1, count_failed := count_failed cs + (if ?ok then 0 else 1),
        return_value := (if ?ok then return_value cs else 1)\<rparr>, io\<lparr>io_out := io_out io @ verdict flags ?ok name\<rparr>)"
    using Cons.prems by (intro check_sum_line_result) auto
  have "xmalloc_fgetline (sum_text (h name) name @ 10 # ?rest) = (Some (sum_text (h name) name), ?rest)"
    using Cons.prems(2) by (intro fgetline_sum_text) auto
  then have "check_lines hfile flags (concat (map (\<lambda>name. sum_text (h name) name @ [10]) (name # names))) (cs, io)
      = check_lines hfile flags ?rest ?st"
    by (subst check_lines.simps) simp
  moreover have "\<exists>n. check_lines hfile flags ?rest (fst ?st, snd ?st) = ((fst ?st)\<lparr>count_total := count_total (fst ?st) +
      int (length names), count_failed := n, return_value := (if \<forall>name \<in> set names. hv name = Some (h name)
        then return_value (fst ?st) else 1)\<rparr>, (snd ?st)\<lparr>io_out := io_out (snd ?st) @
        concat (map (\<lambda>name. verdict flags (hv name = Some (h name)) name) names)\<rparr>)"
    using Cons.prems by (intro Cons.IH) (auto simp: st)
  ultimately show ?case
    by (auto simp: st add.assoc)
qed

lemma print_sums_result:
  assumes "\<And>name io. name \<in> set names \<Longrightarrow> io_open io = opn \<Longrightarrow> hfile name io = (Some (h name), io)"
    and "io_open io = opn"
  shows "print_sums hfile names ret io =
    (ret, io\<lparr>io_out := io_out io @ map (\<lambda>name. Print (sum_text (h name) name @ [10])) names\<rparr>)"
  using assms by (induction names arbitrary: io) (auto simp: put_msg_def sum_text_def)

section \<open>Properties\<close>

text \<open>The text that messages print.\<close>

fun printed :: "bb_msg list \<Rightarrow> byte list" where
  "printed [] = []"
| "printed (Print t # ms) = t @ printed ms"
| "printed (_ # ms) = printed ms"

lemma printed_sums: "printed (map (\<lambda>name. Print (f name)) names) = concat (map f names)"
  by (induction names) simp_all

text \<open>
  C28: What \<open>md5sum\<close> (\<open>sha1sum\<close>, \<open>sha256sum\<close>, \<open>sha512sum\<close>) prints can be checked. Let the list be the output
  for some readable files with plain names. Then the applet with \<open>-c\<close> on this list, later and
  whatever the sizes of the reads, exits with 0 exactly if every file is readable and has
  still the same RFC 1321 or FIPS 180 digest, prints \<open>OK\<close> or \<open>FAILED\<close> for each file in
  the order of the list, and exits with 1 otherwise.
\<close>

theorem shasum_check_round_trip:
  assumes "length (wbuffer ctx) = 64" and "length (hash ctx) = 8" and "length (wbuffer512 ctx512) = 128"
    and "names \<noteq> []" and "\<forall>name \<in> set names. plain_name name" and "io_out io = []"
    and "\<forall>name \<in> set names. io_open io name = Some (A name) \<and> input_ok (A name)"
    and "\<forall>name \<in> set names. io_open io' name = Some (B name)"
    and "md5_sha1_sum_main algo ctx ctx512 in_buf 0 names io = (ret, io1)"
    and "io_open io' lname = Some lfile" and "lname \<noteq> ''-''" and "input_data lfile = printed (io_out io1)"
    and "same = (\<lambda>name. input_ok (B name) \<and> digest_of algo (input_data (B name)) = digest_of algo (input_data (A name)))"
  shows "ret = 0 \<and> fst (md5_sha1_sum_main algo ctx ctx512 in_buf' 2 [lname] io') = (if \<forall>name \<in> set names. same name then 0 else 1) \<and>
    (\<exists>w. io_out (snd (md5_sha1_sum_main algo ctx ctx512 in_buf' 2 [lname] io')) = io_out io' @
      map (\<lambda>name. Print (bytes_of (name @ (if same name then '': OK'' else '': FAILED'')) @ [10])) names @ w)"
proof -
  have wf: "ctx64_wf ctx" "ctx512_wf ctx512"
    using assms(1-3) by (simp_all add: ctx64_wf_def ctx512_wf_def)
  let ?h = "\<lambda>name. bin2hex (digest_of algo (input_data (A name)))"
  have pn: "name \<noteq> ''-''" "plain_name name" if "name \<in> set names" for name
    using that assms(5) by (auto simp: plain_name_def)
  have hA: "hash_file algo ctx ctx512 in_buf name iox = (Some (?h name), iox)"
    if "name \<in> set names" "io_open iox = io_open io" for name iox
    using that assms(7) pn hash_file_text [OF wf, of iox name "A name"] by (simp add: hash_text_def)
  have hB: "hash_file algo ctx ctx512 in_buf' name iox = (hash_text algo (B name), iox)"
    if "name \<in> set names" "io_open iox = io_open io'" for name iox
    using that assms(8) pn hash_file_text [OF wf, of iox name "B name"] by simp
  have same: "(hash_text algo (B name) = Some (?h name)) = same name" for name
    by (auto simp: hash_text_def assms(13) dest: bin2hex_inj)
  have pr: "ret = 0" "io_out io1 = map (\<lambda>name. Print (sum_text (?h name) name @ [10])) names"
    using assms(4,6,9) print_sums_result [where hfile = "hash_file algo ctx ctx512 in_buf" and h = ?h and ret = 0
        and names = names and io = io, OF hA refl]
    by (auto simp: md5_sha1_sum_main_def)
  have pre: "plain_name name \<and> list_all (\<lambda>c. 0x30 \<le> c \<and> c \<le> 0x66) (?h name)" if "name \<in> set names" for name
    using pn(2) [OF that] bin2hex_text by blast
  obtain n where "check_lines (hash_file algo ctx ctx512 in_buf') 2 (input_data lfile)
      (\<lparr>count_total = 0, count_failed = 0, return_value = 0\<rparr>, io') =
    (\<lparr>count_total = int (length names), count_failed = n, return_value = (if \<forall>name \<in> set names. same name then 0 else 1)\<rparr>,
     io'\<lparr>io_out := io_out io' @ concat (map (\<lambda>name. verdict 2 (same name) name) names)\<rparr>)"
    using check_lines_result [where hfile = "hash_file algo ctx ctx512 in_buf'" and h = ?h and flags = 2
        and names = names and io = io' and opn = "io_open io'" and cs = "\<lparr>count_total = 0, count_failed = 0, return_value = 0\<rparr>", OF hB pre refl]
    unfolding assms(12) pr(2) printed_sums same by auto
  moreover have "concat (map (\<lambda>name. verdict 2 (same name) name) names) =
      map (\<lambda>name. Print (bytes_of (name @ (if same name then '': OK'' else '': FAILED'')) @ [10])) names"
    by (induction names) (simp_all add: verdict_def)
  ultimately show ?thesis
    using pr(1) assms(10,11)
    by (cases "n = 0") (simp_all add: md5_sha1_sum_main_def open_or_warn_stdin_def put_msg_def Let_def bit_0)
qed

definition shasum_io :: "(string \<Rightarrow> infile option) \<Rightarrow> bb_io" where
  "shasum_io fs = \<lparr>io_open = fs, io_close_ok = (\<lambda>_. True), io_stdin = [], io_stdin_closed = False, io_out = []\<rparr>"

definition shasum_list :: "byte list" where
  "shasum_list = printed (io_out (snd (md5_sha1_sum_main HASH_SHA1 zero_ctx64 zero_ctx512 [] 0 [''f''] (shasum_io [''f'' \<mapsto> [Data [1, 2]]]))))"

theorem shasum_check_round_trip_witness:
  "fst (md5_sha1_sum_main HASH_SHA1 zero_ctx64 zero_ctx512 [] 2 [''l'']
     (shasum_io [''f'' \<mapsto> [Data [1], Data [2]], ''l'' \<mapsto> [Data shasum_list]])) = 0"
proof -
  let ?io = "shasum_io [''f'' \<mapsto> [Data [1, 2]]]"
  obtain ret io1 where r: "md5_sha1_sum_main HASH_SHA1 zero_ctx64 zero_ctx512 [] 0 [''f''] ?io = (ret, io1)"
    by (rule prod.exhaust)
  have l: "input_data [Data shasum_list] = printed (io_out io1)"
    by (simp add: shasum_list_def r)
  have "fst (md5_sha1_sum_main HASH_SHA1 zero_ctx64 zero_ctx512 [] 2 [''l'']
     (shasum_io [''f'' \<mapsto> [Data [1], Data [2]], ''l'' \<mapsto> [Data shasum_list]])) = (if \<forall>name \<in> set [''f'']. True then 0 else 1)"
    by (rule shasum_check_round_trip [where A = "\<lambda>_. [Data [1, 2]]" and B = "\<lambda>_. [Data [1], Data [2]]" and same = "\<lambda>_. True",
          OF _ _ _ _ _ _ _ _ r _ _ l, THEN conjunct2, THEN conjunct1])
      (simp_all add: shasum_io_def plain_name_def bytes_of_def zero_ctx64_def zero_ctx512_def)
  then show ?thesis by simp
qed

end
