(* ===== verification/Bb_Strtonum.thy ===== *)
theory Bb_Strtonum
  imports Stdio
begin

text \<open>
  \<open>libbb/bb_strtonum.c\<close>: the conversions of strings to numbers with their errors in \<open>errno\<close>, for a
  machine with 64-bit \<open>long\<close>. \<open>strtoull\<close> and \<open>strtoll\<close> are modelled as the C library documents them.
\<close>

section \<open>Definitions\<close>

subsection \<open>The C library\<close>

definition c_digit :: "byte \<Rightarrow> nat option" where
  "c_digit c =
     (if 0x30 \<le> c \<and> c \<le> 0x39 then Some (unat c - 0x30)
      else if 0x41 \<le> c \<and> c \<le> 0x5A then Some (unat c - 0x41 + 10)
      else if 0x61 \<le> c \<and> c \<le> 0x7A then Some (unat c - 0x61 + 10)
      else None)"

definition is_alnum :: "byte \<Rightarrow> bool" where
  "is_alnum c \<longleftrightarrow> c_digit c \<noteq> None"

definition digit_in :: "nat \<Rightarrow> byte \<Rightarrow> bool" where
  "digit_in base c \<longleftrightarrow> (case c_digit c of None \<Rightarrow> False | Some d \<Rightarrow> d < base)"

fun digits_in :: "nat \<Rightarrow> nat \<Rightarrow> byte list \<Rightarrow> nat \<times> byte list" where
  "digits_in base acc [] = (acc, [])"
| "digits_in base acc (c # s) =
     (if digit_in base c then digits_in base (acc * base + the (c_digit c)) s else (acc, c # s))"

text \<open>The first character of a string; NUL behind its end.\<close>

definition char_at :: "byte list \<Rightarrow> nat \<Rightarrow> byte" where
  "char_at s i = (if i < length s then s ! i else 0)"

text \<open>Blanks, a sign, the prefix \<open>0x\<close> for base 16, and digits: sign, magnitude and the rest.\<close>

definition strto_parse :: "nat \<Rightarrow> byte list \<Rightarrow> (bool \<times> nat \<times> byte list) option" where
  "strto_parse base s =
     (let s = dropWhile is_space s;
          neg = (char_at s 0 = 0x2D);
          s = (if char_at s 0 = 0x2D \<or> char_at s 0 = 0x2B then tl s else s);
          hex = (char_at s 0 = 0x30 \<and> (char_at s 1 = 0x78 \<or> char_at s 1 = 0x58) \<and> digit_in 16 (char_at s 2));
          base = (if base = 0 then if hex then 16 else if char_at s 0 = 0x30 then 8 else 10 else base);
          s = (if base = 16 \<and> hex then drop 2 s else s)
      in if digit_in base (char_at s 0) then Some (neg, digits_in base 0 s) else None)"

text \<open>\<open>strtoull\<close> and \<open>strtoll\<close>: the value, the rest and whether \<open>errno\<close> is set to \<open>ERANGE\<close>.\<close>

definition strtoull :: "nat \<Rightarrow> byte list \<Rightarrow> u64 \<times> byte list \<times> bool" where
  "strtoull base s = (case strto_parse base s of
       None \<Rightarrow> (0, s, False)
     | Some (neg, v, rest) \<Rightarrow>
         if 2 ^ 64 \<le> v then (- 1, rest, True) else (if neg then - of_nat v else of_nat v, rest, False))"

definition strtoll :: "nat \<Rightarrow> byte list \<Rightarrow> u64 \<times> byte list \<times> bool" where
  "strtoll base s = (case strto_parse base s of
       None \<Rightarrow> (0, s, False)
     | Some (neg, v, rest) \<Rightarrow>
         if neg then if 2 ^ 63 < v then (- (2 ^ 63), rest, True) else (- of_nat v, rest, False)
         else if 2 ^ 63 \<le> v then (2 ^ 63 - 1, rest, True) else (of_nat v, rest, False))"

subsection \<open>The functions of BusyBox\<close>

text \<open>The value, \<open>errno\<close>, and \<open>*endp\<close> if it is set.\<close>

datatype errno = OK0 | EINVAL | ERANGE

type_synonym num_result = "u64 \<times> errno \<times> byte list option"

definition ret_ERANGE :: "byte list option \<Rightarrow> num_result" where
  "ret_ERANGE endp = (- 1, ERANGE, endp)"

definition handle_errors :: "u64 \<Rightarrow> byte list \<Rightarrow> bool \<Rightarrow> num_result" where
  "handle_errors v endptr erange =
     (if char_at endptr 0 \<noteq> 0 then
        if is_alnum (char_at endptr 0) \<or> erange then ret_ERANGE (Some endptr)
        else (v, EINVAL, Some endptr)
      else (v, if erange then ERANGE else OK0, Some endptr))"

definition bb_strtoull :: "byte list \<Rightarrow> nat \<Rightarrow> num_result" where
  "bb_strtoull arg base =
     (if \<not> is_alnum (char_at arg 0) then ret_ERANGE None
      else case strtoull base arg of (v, endptr, erange) \<Rightarrow> handle_errors v endptr erange)"

definition bb_strtoll :: "byte list \<Rightarrow> nat \<Rightarrow> num_result" where
  "bb_strtoll arg base =
     (let first = (if char_at arg 0 \<noteq> 0x2D then char_at arg 0 else char_at arg 1)
      in if \<not> is_alnum first then ret_ERANGE None
         else case strtoll base arg of (v, endptr, erange) \<Rightarrow> handle_errors v endptr erange)"

definition bb_strtou :: "byte list \<Rightarrow> nat \<Rightarrow> u32 \<times> errno \<times> byte list option" where
  "bb_strtou arg base =
     apfst ucast
       (if \<not> is_alnum (char_at arg 0) then ret_ERANGE None
        else case strtoull base arg of (v, endptr, erange) \<Rightarrow>
          if 0xffffffff < v then ret_ERANGE None else handle_errors v endptr erange)"

definition bb_strtoi :: "byte list \<Rightarrow> nat \<Rightarrow> u32 \<times> errno \<times> byte list option" where
  "bb_strtoi arg base =
     apfst ucast
       (let first = (if char_at arg 0 \<noteq> 0x2D then char_at arg 0 else char_at arg 1)
        in if \<not> is_alnum first then ret_ERANGE None
           else case strtoll base arg of (v, endptr, erange) \<Rightarrow>
             if 2 ^ 31 - 1 < sint v then ret_ERANGE None
             else if sint v < - (2 ^ 31) then ret_ERANGE None
             else handle_errors v endptr erange)"

section \<open>Numbers in a base\<close>

text \<open>\<open>printf\<close> in base 8 and 10: the digits of a number.\<close>

function base_digits :: "nat \<Rightarrow> nat \<Rightarrow> byte list" where
  "base_digits b n =
     (if b < 2 \<or> n < b then [of_nat (0x30 + n)] else base_digits b (n div b) @ [of_nat (0x30 + n mod b)])"
  by pat_completeness auto
termination
  by (relation "measure snd") auto

declare base_digits.simps [simp del]

lemma c_digit_byte: "d < 10 \<Longrightarrow> c_digit (of_nat (0x30 + d)) = Some d"
proof -
  have "\<forall>d \<in> set [0..<10]. c_digit (of_nat (0x30 + d)) = Some d"
    by (simp add: c_digit_def upt_rec)
  then show "d < 10 \<Longrightarrow> c_digit (of_nat (0x30 + d)) = Some d" by auto
qed

lemma digits_in_append:
  "list_all (digit_in b) ds \<Longrightarrow> digits_in b acc (ds @ s) = digits_in b (fst (digits_in b acc ds)) s"
  by (induction b acc ds rule: digits_in.induct) auto

lemma base_digits_facts:
  assumes "2 \<le> b" and "b \<le> 10"
  shows "list_all (digit_in b) (base_digits b n) \<and> base_digits b n \<noteq> [] \<and> digits_in b 0 (base_digits b n) = (n, [])"
  using assms
proof (induction b n rule: base_digits.induct)
  case (1 b n)
  show ?case
  proof (cases "n < b")
    case True
    then have "c_digit (of_nat (0x30 + n)) = Some n"
      using 1(3) by (intro c_digit_byte) simp
    then show ?thesis
      using True 1(2) by (subst (1 2 3) base_digits.simps) (simp add: digit_in_def)
  next
    case False
    have "n mod b < b" using 1(2) by simp
    then have "c_digit (of_nat (0x30 + n mod b)) = Some (n mod b)"
      using 1(3) by (intro c_digit_byte) simp
    moreover have "digit_in b (of_nat (0x30 + n mod b))"
      using calculation \<open>n mod b < b\<close> by (simp add: digit_in_def)
    moreover have "base_digits b n = base_digits b (n div b) @ [of_nat (0x30 + n mod b)]"
      using False 1(2) by (subst base_digits.simps) simp
    ultimately show ?thesis
      using "1.IH" False 1(2,3) by (simp add: digits_in_append)
  qed
qed

lemma digits_in_stop:
  assumes "list_all (digit_in b) ds" and "\<not> digit_in b (char_at s 0)"
  shows "digits_in b acc (ds @ s) = (fst (digits_in b acc ds), s)"
  using assms(2) unfolding digits_in_append [OF assms(1)] by (cases s) (simp_all add: char_at_def)

lemma strto_parse_digits:
  assumes "2 \<le> b" and "b \<le> 10" and "\<not> digit_in b (char_at s 0)"
  shows "strto_parse b (base_digits b n @ s) = Some (False, n, s)" and "is_alnum (char_at (base_digits b n @ s) 0)"
proof -
  note f = base_digits_facts [OF assms(1,2), of n]
  obtain c cs where c: "base_digits b n = c # cs" "digit_in b c"
    using f by (cases "base_digits b n") auto
  then have d: "0x30 \<le> c \<and> c \<le> 0x39"
    using assms(2) by (auto simp: digit_in_def c_digit_def split: if_splits)
  then have "\<not> is_space c" "c \<noteq> 0x2D" "c \<noteq> 0x2B"
    by (auto simp: is_space_def word_le_nat_alt)
  then show "strto_parse b (base_digits b n @ s) = Some (False, n, s)"
    using assms c f digits_in_stop [of b "base_digits b n" s 0]
    by (simp add: strto_parse_def Let_def char_at_def)
  show "is_alnum (char_at (base_digits b n @ s) 0)"
    using d c(1) by (simp add: char_at_def is_alnum_def c_digit_def)
qed

lemma strtoull_digits:
  assumes "2 \<le> b" and "b \<le> 10" and "\<not> digit_in b (char_at s 0)"
  shows "strtoull b (base_digits b n @ s) = (if 2 ^ 64 \<le> n then (- 1, s, True) else (of_nat n, s, False))"
  by (simp add: strtoull_def strto_parse_digits(1) [OF assms])

lemma bb_strtou_digits:
  assumes "2 \<le> b" and "b \<le> 10" and "\<not> digit_in b (char_at s 0)" and "t = char_at s 0"
  shows "bb_strtou (base_digits b n @ s) b =
      (if 2 ^ 32 \<le> n then (- 1, ERANGE, None)
       else if t \<noteq> 0 \<and> is_alnum t then (- 1, ERANGE, Some s)
       else (of_nat n, if t = 0 then OK0 else EINVAL, Some s))"
proof -
  have a: "is_alnum (char_at (base_digits b n @ s) 0)"
    by (rule strto_parse_digits(2) [OF assms(1-3)])
  have big: "((0xffffffff :: u64) < of_nat n) = (2 ^ 32 \<le> n)" if "n < 2 ^ 64"
    using that by (simp add: word_less_nat_alt unsigned_of_nat take_bit_nat_eq_self) arith
  have "(0xffffffff :: u64) < - 1" by simp
  moreover have "ucast (- 1 :: u64) = (- 1 :: u32)"
    by (rule bit_eqI) (simp add: bit_ucast_iff)
  moreover have "ucast (of_nat n :: u64) = (of_nat n :: u32)"
    by (rule word_unat_eq_iff [THEN iffD2]) (simp add: unsigned_ucast_eq unsigned_of_nat min_def)
  ultimately show "bb_strtou (base_digits b n @ s) b =
      (if 2 ^ 32 \<le> n then (- 1, ERANGE, None)
       else if t \<noteq> 0 \<and> is_alnum t then (- 1, ERANGE, Some s)
       else (of_nat n, if t = 0 then OK0 else EINVAL, Some s))"
    using a big by (cases "2 ^ 64 \<le> n")
      (simp_all add: bb_strtou_def strtoull_digits [OF assms(1-3)] handle_errors_def ret_ERANGE_def assms(4))
qed

section \<open>Properties\<close>

text \<open>
  C38: The unsigned conversions on the digits of a number \<open>n\<close> in a base from 2 to 10, with any text
  behind them. \<open>bb_strtoull\<close> returns \<open>n\<close>, with \<open>errno\<close> 0 at the end of the string and \<open>EINVAL\<close> before a
  character that is not alphanumeric; before a letter or a further digit, or if \<open>n\<close> does not fit,
  \<open>errno\<close> is \<open>ERANGE\<close> and all bits of the value are set. \<open>bb_strtou\<close> does the same for 32 bits.
\<close>

theorem bb_strtoull_digits:
  assumes "2 \<le> b" and "b \<le> 10" and "\<not> digit_in b (char_at s 0)" and "t = char_at s 0"
  shows "bb_strtoull (base_digits b n @ s) b =
      (if 2 ^ 64 \<le> n \<or> t \<noteq> 0 \<and> is_alnum t then (- 1, ERANGE, Some s)
       else (of_nat n, if t = 0 then OK0 else EINVAL, Some s)) \<and>
    bb_strtou (base_digits b n @ s) b =
      (if 2 ^ 32 \<le> n then (- 1, ERANGE, None)
       else if t \<noteq> 0 \<and> is_alnum t then (- 1, ERANGE, Some s)
       else (of_nat n, if t = 0 then OK0 else EINVAL, Some s))"
proof
  have a: "is_alnum (char_at (base_digits b n @ s) 0)"
    by (rule strto_parse_digits(2) [OF assms(1-3)])
  show "bb_strtoull (base_digits b n @ s) b =
      (if 2 ^ 64 \<le> n \<or> t \<noteq> 0 \<and> is_alnum t then (- 1, ERANGE, Some s)
       else (of_nat n, if t = 0 then OK0 else EINVAL, Some s))"
    using a by (simp add: bb_strtoull_def strtoull_digits [OF assms(1-3)] handle_errors_def ret_ERANGE_def assms(4))
qed (rule bb_strtou_digits [OF assms])

theorem bb_strtoull_digits_witness:
  "bb_strtoull (base_digits 8 420 @ bytes_of '' file'') 8 =
      (if 2 ^ 64 \<le> (420 :: nat) \<or> (0x20 :: byte) \<noteq> 0 \<and> is_alnum 0x20 then (- 1, ERANGE, Some (bytes_of '' file''))
       else (of_nat 420, if (0x20 :: byte) = 0 then OK0 else EINVAL, Some (bytes_of '' file''))) \<and>
    bb_strtou (base_digits 8 420 @ bytes_of '' file'') 8 =
      (if 2 ^ 32 \<le> (420 :: nat) then (- 1, ERANGE, None)
       else if (0x20 :: byte) \<noteq> 0 \<and> is_alnum 0x20 then (- 1, ERANGE, Some (bytes_of '' file''))
       else (of_nat 420, if (0x20 :: byte) = 0 then OK0 else EINVAL, Some (bytes_of '' file'')))"
  by (rule bb_strtoull_digits) (simp_all add: char_at_def bytes_of_def digit_in_def c_digit_def)

end
