(* ===== verification/Bb_Uu.thy ===== *)
theory Bb_Uu
  imports Bb_Io Bb_Strtonum
begin

text \<open>
  \<open>libbb/uuencode.c\<close>, \<open>coreutils/uuencode.c\<close> and \<open>coreutils/uudecode.c\<close>: the base64 and the traditional
  encoding, their decoders and the applets \<open>uuencode\<close>, \<open>uudecode\<close> and \<open>base64\<close>. The text to decode is
  what its stream gives up to the end; the options are given as \<open>getopt32\<close> returns them.
\<close>

section \<open>Definitions\<close>

subsection \<open>Encoding\<close>

definition bb_uuenc_tbl_base64 :: "byte list" where
  "bb_uuenc_tbl_base64 =
     bytes_of ''ABCDEFGHIJKLMNOPQRSTUVWXYZabcdefghijklmnopqrstuvwxyz0123456789+/='' @ [10, 0]"

definition bb_uuenc_tbl_std :: "byte list" where
  "bb_uuenc_tbl_std =
     0x60 # bytes_of ''!'' @ [0x22] @ bytes_of ''#$%&'' @ [0x27] @
     bytes_of ''()*+,-./0123456789:;<=>?@ABCDEFGHIJKLMNOPQRSTUVWXYZ['' @ [0x5C] @ bytes_of '']^_'' @ [0x60]"

text \<open>The loop of \<open>bb_uuencode\<close>: what it writes, and \<open>length\<close> at its end.\<close>

function uuencode_loop :: "byte list \<Rightarrow> byte list \<Rightarrow> int \<Rightarrow> byte list \<times> int" where
  "uuencode_loop tbl s len =
     (if 0 < len then
        let len = len - 3;
            s1 = (if - 1 \<le> len then s ! 1 else 0);
            s2 = (if - 1 \<le> len \<and> 0 \<le> len then s ! 2 else 0)
        in apfst ((@)
             [tbl ! unat (drop_bit 2 (s ! 0)), tbl ! unat (push_bit 4 (s ! 0 AND 3) + drop_bit 4 s1),
              tbl ! unat (push_bit 2 (s1 AND 0xf) + drop_bit 6 s2), tbl ! unat (s2 AND 0x3f)])
             (uuencode_loop tbl (drop 3 s) len)
      else ([], len))"
  by pat_completeness auto
termination
  by (relation "measure (\<lambda>(tbl, s, len). nat len)") auto

declare uuencode_loop.simps [simp del]

definition bb_uuencode :: "byte list \<Rightarrow> int \<Rightarrow> byte list \<Rightarrow> byte list" where
  "bb_uuencode src len tbl =
     (case uuencode_loop tbl src len of
        (p, len) \<Rightarrow> take (length p - nat (- len)) p @ replicate (nat (- len)) (tbl ! 64))"

subsection \<open>Decoding base64\<close>

text \<open>\<open>strchr (bb_uuenc_tbl_base64, ch)\<close>; the terminating NUL is a character of the string.\<close>

fun index_in :: "byte list \<Rightarrow> byte \<Rightarrow> nat option" where
  "index_in [] ch = None"
| "index_in (c # cs) ch = (if c = ch then Some 0 else map_option Suc (index_in cs ch))"

datatype b64_char = B64_Return | B64_Die | B64_Char nat

text \<open>The loop that looks for the next character of the table.\<close>

fun b64_next :: "int \<Rightarrow> nat \<Rightarrow> byte list \<Rightarrow> b64_char \<times> byte list" where
  "b64_next exit_char count [] = (if exit_char = - 1 \<and> count = 0 then B64_Return else B64_Die, [])"
| "b64_next exit_char count (ch # src) =
     (if uint ch = exit_char \<and> count = 0 then (B64_Return, src)
      else case index_in bb_uuenc_tbl_base64 ch of
          None \<Rightarrow> b64_next exit_char count src
        | Some i \<Rightarrow> (B64_Char i, src))"

lemma b64_next_shorter: "b64_next exit_char count src = (B64_Char i, rest) \<Longrightarrow> length rest < length src"
  by (induction exit_char count src rule: b64_next.induct) (auto split: if_splits option.splits)

datatype b64_group = Grp_Return | Grp_Die | Grp nat "byte list" nat

text \<open>One group of four characters: the number of them, \<open>translated\<close> and \<open>term_count\<close>.\<close>

function b64_read_group ::
  "int \<Rightarrow> bool \<Rightarrow> nat \<Rightarrow> nat \<Rightarrow> byte list \<Rightarrow> byte list \<Rightarrow> b64_group \<times> byte list" where
  "b64_read_group exit_char uu_style_end term_count count translated src =
     (if 4 \<le> count then (Grp count translated term_count, src)
      else case b64_next exit_char count src of
          (B64_Return, src) \<Rightarrow> (Grp_Return, src)
        | (B64_Die, src) \<Rightarrow> (Grp_Die, src)
        | (B64_Char ch, src) \<Rightarrow>
            if ch = 65 then
              if uu_style_end \<and> term_count = 4 then (Grp_Return, src)
              else b64_read_group exit_char uu_style_end 0 count translated src
            else
              let translated = translated @ [of_nat ch AND 63]
              in if ch = 64 then (Grp count translated (term_count + 1), src)
                 else b64_read_group exit_char uu_style_end 0 (count + 1) translated src)"
  by pat_completeness auto
termination
  by (relation "measure (\<lambda>(exit_char, uu_style_end, term_count, count, translated, src). length src)")
    (auto dest: b64_next_shorter [OF sym])

declare b64_read_group.simps [simp del]

definition b64_bytes :: "nat \<Rightarrow> byte list \<Rightarrow> byte list" where
  "b64_bytes count t =
     (if 1 < count then [push_bit 2 (t ! 0) OR drop_bit 4 (t ! 1)] else []) @
     (if 2 < count then [push_bit 4 (t ! 1) OR drop_bit 2 (t ! 2)] else []) @
     (if 3 < count then [push_bit 6 (t ! 2) OR t ! 3] else [])"

lemma b64_group_shorter:
  "b64_read_group ex uu tc count tr src = (Grp n t tc', rest) \<Longrightarrow> length rest \<le> length src \<and>
    (count < 4 \<longrightarrow> length rest < length src)"
proof (induction ex uu tc count tr src rule: b64_read_group.induct)
  case (1 ex uu tc count tr src)
  show ?case
  proof (cases "4 \<le> count")
    case True
    then show ?thesis using 1(3) by (subst (asm) b64_read_group.simps) simp
  next
    case False
    obtain c src' where c: "b64_next ex count src = (c, src')" by (cases "b64_next ex count src")
    obtain ch where ch: "c = B64_Char ch"
      using 1(3) False c by (subst (asm) b64_read_group.simps) (cases c, auto)
    have sh: "length src' < length src" using b64_next_shorter c ch by simp
    have "b64_read_group ex uu tc count tr src =
        (if ch = 65 then if uu \<and> tc = 4 then (Grp_Return, src') else b64_read_group ex uu 0 count tr src'
         else if ch = 64 then (Grp count (tr @ [of_nat ch AND 63]) (tc + 1), src')
         else b64_read_group ex uu 0 (count + 1) (tr @ [of_nat ch AND 63]) src')"
      using False by (subst b64_read_group.simps) (simp add: c ch Let_def)
    then show ?thesis
      using "1.IH"(1) [OF False c [symmetric] ch] "1.IH"(2) [OF False c [symmetric] ch _ refl] 1(3) sh
      by (auto split: if_splits)
  qed
qed

function b64_loop :: "int \<Rightarrow> bool \<Rightarrow> nat \<Rightarrow> byte list \<Rightarrow> byte list \<Rightarrow> bool \<times> byte list \<times> byte list" where
  "b64_loop exit_char uu_style_end term_count src dst =
     (case b64_read_group exit_char uu_style_end term_count 0 [] src of
        (Grp_Return, src) \<Rightarrow> (True, dst, src)
      | (Grp_Die, src) \<Rightarrow> (False, dst, src)
      | (Grp count translated term_count, src) \<Rightarrow>
          b64_loop exit_char uu_style_end term_count src (dst @ b64_bytes count translated))"
  by pat_completeness auto
termination
  by (relation "measure (\<lambda>(exit_char, uu_style_end, term_count, src, dst). length src)")
    (auto dest: b64_group_shorter [OF sym])

declare b64_loop.simps [simp del]

text \<open>
  \<open>read_base64\<close>: whether it returns (it dies with "truncated base64 input" otherwise), what it has
  written, and the rest of the text.
\<close>

definition read_base64 :: "byte list \<Rightarrow> u32 \<Rightarrow> bool \<times> byte list \<times> byte list" where
  "read_base64 src flags = b64_loop (sint (ucast flags :: byte)) (bit flags 8) 0 src []"

subsection \<open>Decoding the traditional format\<close>

text \<open>
  The loop of \<open>read_stduu\<close> over a line, which it overwrites from its start: \<open>line_ptr\<close> and \<open>dst\<close> are
  indices. The result is the line and \<open>dst\<close>.
\<close>

function stduu_merge :: "byte list \<Rightarrow> nat \<Rightarrow> nat \<Rightarrow> int \<Rightarrow> byte list \<times> nat" where
  "stduu_merge line lp dst encoded_len =
     (let line = line[dst := push_bit 2 (char_at line lp) OR drop_bit 4 (char_at line (lp + 1))];
          encoded_len = encoded_len - 1
      in if encoded_len = 0 then (line, dst + 1)
         else
           let line = line[dst + 1 := push_bit 4 (char_at line (lp + 1)) OR drop_bit 2 (char_at line (lp + 2))];
               encoded_len = encoded_len - 1
           in if encoded_len = 0 then (line, dst + 2)
              else
                let line = line[dst + 2 := push_bit 6 (char_at line (lp + 2)) OR char_at line (lp + 3)];
                    encoded_len = encoded_len - 2
                in if 0 < encoded_len then stduu_merge line (lp + 4) (dst + 3) encoded_len else (line, dst + 3))"
  by pat_completeness auto
termination
  by (relation "measure (\<lambda>(line, lp, dst, encoded_len). nat encoded_len)") auto

declare stduu_merge.simps [simp del]

datatype uu_stop = Uu_Done | Uu_Die "byte list"

function read_stduu :: "byte list \<Rightarrow> byte list \<Rightarrow> uu_stop \<times> byte list" where
  "read_stduu src dst =
     (case xmalloc_fgetline src of
        (None, _) \<Rightarrow> (Uu_Die (bytes_of ''short file''), dst)
      | (Some line, src) \<Rightarrow>
          if line = bytes_of ''end'' then (Uu_Done, dst)
          else
            let line = map (\<lambda>c. (c - 0x20) AND 0x3f) line;
                encoded_len = uint (char_at line 0) * 4 div 3
            in if int (length line) \<le> encoded_len then (Uu_Die (bytes_of ''short file''), dst)
               else if encoded_len \<le> 0 then read_stduu src dst
               else if 60 < encoded_len then (Uu_Die (bytes_of ''line too long''), dst)
               else case stduu_merge line 1 0 encoded_len of (line, n) \<Rightarrow> read_stduu src (dst @ take n line))"
  by pat_completeness auto
termination
  by (relation "measure (\<lambda>(src, dst). length src)") (auto dest: xmalloc_fgetline_shorter [OF sym])

declare read_stduu.simps [simp del]

subsection \<open>The applets\<close>

text \<open>
  The loop of \<open>uuencode_main\<close> and the one of \<open>base64_main\<close> over buffers of \<open>SRC_BUF_SIZE\<close> bytes: the
  text written and whether the input could be read.
\<close>

function uuencode_lines :: "byte list \<Rightarrow> infile \<Rightarrow> byte list \<times> bool" where
  "uuencode_lines tbl fd =
     (case full_read 45 fd of
        (None, fd) \<Rightarrow> ([], False)
      | (Some src_buf, fd) \<Rightarrow>
          if src_buf = [] then ([], True)
          else apfst ((@) ([10] @ (if tbl = bb_uuenc_tbl_std then [tbl ! length src_buf] else []) @
                 bb_uuencode src_buf (int (length src_buf)) tbl))
               (uuencode_lines tbl fd))"
  by pat_completeness auto
termination
  by (relation "measure (\<lambda>(tbl, fd). read_weight fd)") (auto dest: full_read_weight [OF sym])

declare uuencode_lines.simps [simp del]

function base64_lines :: "infile \<Rightarrow> byte list \<times> bool" where
  "base64_lines fd =
     (case full_read 57 fd of
        (None, fd) \<Rightarrow> ([], False)
      | (Some src_buf, fd) \<Rightarrow>
          if src_buf = [] then ([], True)
          else apfst ((@) (bb_uuencode src_buf (int (length src_buf)) bb_uuenc_tbl_base64 @ [10])) (base64_lines fd))"
  by pat_completeness auto
termination
  by (relation "measure read_weight") (auto dest: full_read_weight [OF sym])

declare base64_lines.simps [simp del]

text \<open>
  \<open>uuencode_main\<close> with one argument (the name; the standard input is encoded) or two. \<open>umask\<close> is
  what \<open>umask (0666)\<close> returns, \<open>st_mode\<close> the mode that \<open>fstat\<close> gives.
\<close>

definition uuencode_main :: "bool \<Rightarrow> nat \<Rightarrow> (string \<Rightarrow> nat) \<Rightarrow> string option \<Rightarrow> string \<Rightarrow> bb_io \<Rightarrow> int \<times> bb_io" where
  "uuencode_main m umask st_mode arg name io =
     (let tbl = (if m then bb_uuenc_tbl_base64 else bb_uuenc_tbl_std);
          mode = 438 AND (4095 - take_bit 12 umask)
      in case (case arg of
            None \<Rightarrow> Some (if io_stdin io = [] then [] else hd (io_stdin io), mode)
          | Some f \<Rightarrow> map_option (\<lambda>fd. (fd, st_mode f AND 511)) (io_open io f)) of
          None \<Rightarrow> (1, put_msg (Perror_Msg (bytes_of (''can't open '' @ the arg))) io)
        | Some (src_fd, mode) \<Rightarrow>
            let header = bytes_of ''begin'' @ (if tbl = bb_uuenc_tbl_std then [] else bytes_of ''-base64'') @
                  bytes_of '' '' @ base_digits 8 mode @ bytes_of '' '' @ bytes_of name;
                (lines, ok) = uuencode_lines tbl src_fd
            in if \<not> ok then (1, put_msg (Perror_Msg (bytes_of ''read error'')) (put_msg (Print (header @ lines)) io))
               else (0, put_msg (Print (header @ lines @
                 (if tbl = bb_uuenc_tbl_std then [10, 0x60, 10] @ bytes_of ''end'' @ [10]
                  else [10] @ bytes_of ''===='' @ [10]))) io))"

definition base64_main :: "bool \<Rightarrow> string \<Rightarrow> bb_io \<Rightarrow> int \<times> bb_io" where
  "base64_main d arg io =
     (case open_or_warn_stdin arg io of
        (None, io) \<Rightarrow> (1, io)
      | (Some fd, io) \<Rightarrow>
          if d then
            case read_base64 (input_data fd) 0xff of
              (True, out, _) \<Rightarrow> (0, put_msg (Print out) io)
            | (False, out, _) \<Rightarrow> (1, put_msg (Error_Msg (bytes_of ''truncated base64 input'')) (put_msg (Print out) io))
          else
            case base64_lines fd of
              (out, True) \<Rightarrow> (0, put_msg (Print out) io)
            | (out, False) \<Rightarrow> (1, put_msg (Perror_Msg (bytes_of ''read error'')) (put_msg (Print out) io)))"

text \<open>
  \<open>uudecode_main\<close>: the status, and the file written, if one was opened: its name (\<open>-\<close> is the standard
  output), the mode given to \<open>fchmod\<close> and its content.
\<close>

definition strip_prefix :: "byte list \<Rightarrow> byte list \<Rightarrow> byte list option" where
  "strip_prefix p s = (if take (length p) s = p then Some (drop (length p) s) else None)"

function uudecode_search ::
  "(string \<Rightarrow> bool) \<Rightarrow> string option \<Rightarrow> byte list \<Rightarrow> (int \<times> byte list) \<times> (string \<times> nat \<times> byte list) option" where
  "uudecode_search can_write outname src =
     (case xmalloc_fgetline src of
        (None, _) \<Rightarrow> ((1, bytes_of ''no 'begin' line''), None)
      | (Some line, src) \<Rightarrow>
          case (case strip_prefix (bytes_of ''begin-base64 '') line of
              Some lp \<Rightarrow> Some (True, lp)
            | None \<Rightarrow> map_option (Pair False) (strip_prefix (bytes_of ''begin '') line)) of
            None \<Rightarrow> uudecode_search can_write outname src
          | Some (base64, lp) \<Rightarrow>
              let mode = fst (bb_strtou lp 8);
                  outname = (if outname = None then map_option (\<lambda>i. string_of (drop (i + 1) lp)) (index_in lp 0x20)
                             else outname)
              in case outname of
                  None \<Rightarrow> ((1, bytes_of ''no 'begin' line''), None)
                | Some out \<Rightarrow>
                    if out \<noteq> ''-'' \<and> \<not> can_write out then ((1, bytes_of (''can't open '' @ out)), None)
                    else
                      let mode = unat (mode AND 511)
                      in if base64 then
                           case read_base64 src 0x180 of
                             (True, dst, _) \<Rightarrow> ((0, []), Some (out, mode, dst))
                           | (False, dst, _) \<Rightarrow> ((1, bytes_of ''truncated base64 input''), Some (out, mode, dst))
                         else
                           case read_stduu src [] of
                             (Uu_Done, dst) \<Rightarrow> ((0, []), Some (out, mode, dst))
                           | (Uu_Die msg, dst) \<Rightarrow> ((1, msg), Some (out, mode, dst)))"
  by pat_completeness auto
termination
  by (relation "measure (\<lambda>(can_write, outname, src). length src)") (auto dest: xmalloc_fgetline_shorter [OF sym])

declare uudecode_search.simps [simp del]

definition uudecode_main ::
  "(string \<Rightarrow> bool) \<Rightarrow> string option \<Rightarrow> string \<Rightarrow> bb_io \<Rightarrow> (int \<times> (string \<times> nat \<times> byte list) option) \<times> bb_io" where
  "uudecode_main can_write outname arg io =
     (case open_or_warn_stdin arg io of
        (None, io) \<Rightarrow> ((1, None), io)
      | (Some fd, io) \<Rightarrow>
          case uudecode_search can_write outname (input_data fd) of
            ((status, msg), f) \<Rightarrow> ((status, f), if msg = [] then io else put_msg (Error_Msg msg) io))"

section \<open>The code of three bytes\<close>

definition uu_index :: "byte \<Rightarrow> byte \<Rightarrow> byte \<Rightarrow> byte list" where
  "uu_index a b c =
     [drop_bit 2 a, push_bit 4 (take_bit 2 a) OR drop_bit 4 b, push_bit 2 (take_bit 4 b) OR drop_bit 6 c, take_bit 6 c]"

text \<open>The text that \<open>bb_uuencode\<close> is meant to give.\<close>

fun uu_enc :: "byte list \<Rightarrow> byte list \<Rightarrow> byte list" where
  "uu_enc tbl [] = []"
| "uu_enc tbl [a] = map (\<lambda>i. tbl ! unat i) (take 2 (uu_index a 0 0)) @ [tbl ! 64, tbl ! 64]"
| "uu_enc tbl [a, b] = map (\<lambda>i. tbl ! unat i) (take 3 (uu_index a b 0)) @ [tbl ! 64]"
| "uu_enc tbl (a # b # c # s) = map (\<lambda>i. tbl ! unat i) (uu_index a b c) @ uu_enc tbl s"

lemma byte_bit_eqI: "(\<forall>n \<in> set [0..<8]. bit (a :: byte) n = bit b n) \<Longrightarrow> a = b"
  by (rule bit_eqI) simp

lemma byte_bit_high: "\<not> bit (a :: byte) (Suc (Suc (Suc (Suc (Suc (Suc (Suc (Suc n))))))))"
  using bit_imp_le_length by fastforce

lemmas byte_bit_defs = bit_or_iff bit_and_iff bit_push_bit_iff bit_take_bit_iff bit_drop_bit_eq comp_def

lemmas byte_bit_simps = upt_rec numeral_eq_Suc byte_bit_high

lemma mask_bits: "(a :: byte) AND 3 = take_bit 2 a" "a AND 0xf = take_bit 4 a" "a AND 0x3f = take_bit 6 a"
  by (simp_all add: take_bit_eq_mask mask_eq_exp_minus_1)

lemma uu_sums:
  "push_bit 4 (take_bit 2 (a :: byte)) + drop_bit 4 b = push_bit 4 (take_bit 2 a) OR drop_bit 4 b"
  "push_bit 2 (take_bit 4 (b :: byte)) + drop_bit 6 c = push_bit 2 (take_bit 4 b) OR drop_bit 6 c"
  by (rule disjunctive_add_eq_or; rule bit_eqI;
      auto simp: bit_and_iff bit_push_bit_iff bit_take_bit_iff bit_drop_bit_eq dest: bit_imp_le_length)+

lemma uu_quad:
  "[tbl ! unat (drop_bit 2 a), tbl ! unat (push_bit 4 (a AND 3) + drop_bit 4 b),
    tbl ! unat (push_bit 2 (b AND 0xf) + drop_bit 6 c), tbl ! unat (c AND 0x3f)] = map (\<lambda>i. tbl ! unat i) (uu_index a b c)"
  by (simp add: uu_index_def mask_bits uu_sums)

lemma uu_index_small: "list_all (\<lambda>i. unat i < 64) (uu_index a b c)"
proof -
  have lt: "unat w < 64" if "take_bit 6 w = w" for w :: byte
  proof -
    have "unat w = take_bit 6 (unat w)" using that by (metis unsigned_take_bit_eq)
    then show ?thesis using take_bit_nat_less_exp [of 6 "unat w"] by simp
  qed
  have "take_bit 6 (drop_bit 2 a) = drop_bit 2 a" "take_bit 6 (take_bit 6 c) = take_bit 6 c"
    "take_bit 6 (push_bit 4 (take_bit 2 a) OR drop_bit 4 b) = push_bit 4 (take_bit 2 a) OR drop_bit 4 b"
    "take_bit 6 (push_bit 2 (take_bit 4 b) OR drop_bit 6 c) = push_bit 2 (take_bit 4 b) OR drop_bit 6 c"
    by (rule byte_bit_eqI, unfold byte_bit_defs, simp add: byte_bit_simps)+
  then show ?thesis by (simp add: uu_index_def lt)
qed

lemma uu_index_decode:
  "b64_bytes 4 (uu_index a b c) = [a, b, c]" "b64_bytes 3 (uu_index a b 0) = [a, b]" "b64_bytes 2 (uu_index a 0 0) = [a]"
proof -
  have 1: "push_bit 2 (drop_bit 2 a) OR drop_bit 4 (push_bit 4 (take_bit 2 a) OR drop_bit 4 b) = a" for a b :: byte
    by (rule byte_bit_eqI, unfold byte_bit_defs) (simp add: byte_bit_simps)
  have 2: "push_bit 4 (push_bit 4 (take_bit 2 a) OR drop_bit 4 b) OR drop_bit 2 (push_bit 2 (take_bit 4 b) OR drop_bit 6 c) = b" for a b c :: byte
    by (rule byte_bit_eqI, unfold byte_bit_defs) (simp add: byte_bit_simps)
  have 3: "push_bit 6 (push_bit 2 (take_bit 4 b) OR drop_bit 6 c) OR take_bit 6 c = c" for b c :: byte
    by (rule byte_bit_eqI, unfold byte_bit_defs) (simp add: byte_bit_simps)
  show "b64_bytes 4 (uu_index a b c) = [a, b, c]" "b64_bytes 3 (uu_index a b 0) = [a, b]" "b64_bytes 2 (uu_index a 0 0) = [a]"
    using 1 [of a b] 2 [of a b c] 3 [of b c] 2 [of a b 0] 1 [of a 0] by (simp_all add: b64_bytes_def uu_index_def)
qed

lemma uuencode_loop_enc:
  "\<exists>p l. uuencode_loop tbl s (int (length s)) = (p, l) \<and> nat (- l) \<le> length p \<and>
    take (length p - nat (- l)) p @ replicate (nat (- l)) (tbl ! 64) = uu_enc tbl s"
proof (induction tbl s rule: uu_enc.induct)
  case (4 tbl a b c s)
  then obtain p l where pl: "uuencode_loop tbl s (int (length s)) = (p, l)" "nat (- l) \<le> length p"
    "take (length p - nat (- l)) p @ replicate (nat (- l)) (tbl ! 64) = uu_enc tbl s" by blast
  let ?q = "map (\<lambda>i. tbl ! unat i) (uu_index a b c)"
  have "uuencode_loop tbl (a # b # c # s) (int (length (a # b # c # s))) = (?q @ p, l)"
    by (subst uuencode_loop.simps) (simp add: Let_def pl(1) flip: uu_quad)
  moreover have "length ?q = 4" by (simp add: uu_index_def)
  ultimately show ?case
    using pl(2,3) by (intro exI [of _ "?q @ p"] exI [of _ l]) (simp add: Suc_diff_le)
next
  case (2 tbl a)
  show ?case
    by (subst uuencode_loop.simps, subst uuencode_loop.simps)
      (simp add: Let_def uu_index_def mask_bits uu_sums numeral_2_eq_2)
next
  case (3 tbl a b)
  show ?case
    by (subst uuencode_loop.simps, subst uuencode_loop.simps)
      (simp add: Let_def uu_index_def mask_bits uu_sums)
qed (subst uuencode_loop.simps, simp)

lemma bb_uuencode_enc: "bb_uuencode s (int (length s)) tbl = uu_enc tbl s"
  using uuencode_loop_enc [of tbl s] by (auto simp: bb_uuencode_def)

section \<open>Decoding base64\<close>

lemma table_index: "i < 67 \<Longrightarrow> index_in bb_uuenc_tbl_base64 (bb_uuenc_tbl_base64 ! i) = Some i"
proof -
  have "\<forall>i \<in> set [0..<67]. index_in bb_uuenc_tbl_base64 (bb_uuenc_tbl_base64 ! i) = Some i"
    by (simp add: bb_uuenc_tbl_base64_def bytes_of_def upt_rec)
  then show "i < 67 \<Longrightarrow> ?thesis" by auto
qed

lemma b64_next_table:
  assumes "ex < 0" and "i < 67"
  shows "b64_next ex count (bb_uuenc_tbl_base64 ! i # src) = (B64_Char i, src)"
proof -
  have "uint (bb_uuenc_tbl_base64 ! i) \<noteq> ex"
    using assms(1) by (metis uint_ge_0 not_less)
  then show ?thesis using assms(2) by (simp add: table_index)
qed

lemma index_byte: "unat (i :: byte) < 64 \<Longrightarrow> i AND 63 = i"
proof -
  assume "unat i < 64"
  then have "take_bit 6 i = i"
    by (simp add: word_unat_eq_iff unsigned_take_bit_eq take_bit_nat_eq_self)
  then show ?thesis by (simp add: mask_bits)
qed

text \<open>A character of the alphabet within a group, the character \<open>=\<close>, and a newline.\<close>

lemma group_char:
  assumes "ex < 0" and "unat i < 64" and "count < 4"
  shows "b64_read_group ex uu tc count tr (bb_uuenc_tbl_base64 ! unat i # src) =
    b64_read_group ex uu 0 (Suc count) (tr @ [i]) src"
  using assms by (subst b64_read_group.simps) (simp add: b64_next_table index_byte Let_def del: b64_next.simps)

lemma group_pad:
  assumes "ex < 0" and "count < 4"
  shows "b64_read_group ex uu tc count tr (bb_uuenc_tbl_base64 ! 64 # src) = (Grp count (tr @ [0]) (tc + 1), src)"
  using assms by (subst b64_read_group.simps) (simp add: b64_next_table Let_def del: b64_next.simps)

lemma group_full: "b64_read_group ex uu tc (Suc (Suc (Suc (Suc 0)))) tr src = (Grp 4 tr tc, src)"
  by (subst b64_read_group.simps) simp

lemma group_newline:
  assumes "ex < 0" and "count < 4"
  shows "b64_read_group ex uu tc count tr (10 # src) =
    (if uu \<and> tc = 4 then (Grp_Return, src) else b64_read_group ex uu 0 count tr src)"
proof -
  have "(10 :: byte) = bb_uuenc_tbl_base64 ! 65"
    by (simp add: bb_uuenc_tbl_base64_def bytes_of_def)
  then have "b64_next ex count (10 # src) = (B64_Char 65, src)"
    using b64_next_table [OF assms(1), of 65 count src] by simp
  then show ?thesis
    using assms by (subst b64_read_group.simps) (simp del: b64_next.simps)
qed

lemma b64_bytes_prefix: "b64_bytes 2 ([x, y] @ r) = b64_bytes 2 [x, y]" "b64_bytes 3 ([x, y, z] @ r) = b64_bytes 3 [x, y, z]"
  by (simp_all add: b64_bytes_def)

lemma loop_pad: "ex < 0 \<Longrightarrow> b64_loop ex uu tc (bb_uuenc_tbl_base64 ! 64 # src) dst = b64_loop ex uu (tc + 1) src dst"
  by (subst b64_loop.simps) (simp add: group_pad b64_bytes_def)

lemma loop_newline:
  "ex < 0 \<Longrightarrow> b64_loop ex uu tc (10 # src) dst = (if uu \<and> tc = 4 then (True, dst, src) else b64_loop ex uu 0 src dst)"
  by (subst (1 2) b64_loop.simps) (simp add: group_newline)

lemma loop_quad:
  assumes "ex < 0" and "uu_index a b c = [w, x, y, z]"
  shows "b64_loop ex uu tc (map (\<lambda>i. bb_uuenc_tbl_base64 ! unat i) [w, x, y, z] @ src) dst = b64_loop ex uu 0 src (dst @ [a, b, c])"
proof -
  have sm: "unat w < 64" "unat x < 64" "unat y < 64" "unat z < 64"
    using uu_index_small [of a b c] by (simp_all add: assms(2))
  have "b64_read_group ex uu tc 0 [] (map (\<lambda>i. bb_uuenc_tbl_base64 ! unat i) [w, x, y, z] @ src) = (Grp 4 [w, x, y, z] 0, src)"
    using assms(1) sm by (simp add: group_char group_full)
  then show ?thesis
    using uu_index_decode(1) [of a b c] by (subst b64_loop.simps) (simp add: assms(2))
qed

lemma loop_tail:
  assumes "ex < 0"
  shows "b64_loop ex uu tc (uu_enc bb_uuenc_tbl_base64 [a] @ src) dst = b64_loop ex uu 2 src (dst @ [a])"
    and "b64_loop ex uu tc (uu_enc bb_uuenc_tbl_base64 [a, b] @ src) dst = b64_loop ex uu 1 src (dst @ [a, b])"
proof -
  obtain w x y z where i: "uu_index a b 0 = [w, x, y, z]" by (simp add: uu_index_def)
  obtain w' x' y' z' where i': "uu_index a 0 0 = [w', x', y', z']" by (simp add: uu_index_def)
  have sm: "unat w < 64" "unat x < 64" "unat y < 64" "unat w' < 64" "unat x' < 64"
    using uu_index_small [of a b 0] uu_index_small [of a 0 0] by (simp_all add: i i')
  have d: "b64_bytes 2 [w', x', 0] = [a]" "b64_bytes 3 [w, x, y, 0] = [a, b]"
    using uu_index_decode(2) [of a b] uu_index_decode(3) [of a] by (simp_all add: i i' b64_bytes_def)
  have "b64_read_group ex uu tc 0 [] (bb_uuenc_tbl_base64 ! unat w' # bb_uuenc_tbl_base64 ! unat x' #
      bb_uuenc_tbl_base64 ! 64 # src') = (Grp 2 [w', x', 0] 1, src')" for src'
    using assms sm by (simp add: group_char group_pad)
  then have "b64_loop ex uu tc (uu_enc bb_uuenc_tbl_base64 [a] @ src) dst
      = b64_loop ex uu 1 (bb_uuenc_tbl_base64 ! 64 # src) (dst @ [a])"
    by (subst b64_loop.simps) (simp add: i' d)
  then show "b64_loop ex uu tc (uu_enc bb_uuenc_tbl_base64 [a] @ src) dst = b64_loop ex uu 2 src (dst @ [a])"
    using assms by (simp add: loop_pad numeral_2_eq_2 del: uu_enc.simps(2))
  have "b64_read_group ex uu tc 0 [] (bb_uuenc_tbl_base64 ! unat w # bb_uuenc_tbl_base64 ! unat x #
      bb_uuenc_tbl_base64 ! unat y # bb_uuenc_tbl_base64 ! 64 # src) = (Grp 3 [w, x, y, 0] 1, src)"
    using assms sm by (simp add: group_char group_pad)
  then show "b64_loop ex uu tc (uu_enc bb_uuenc_tbl_base64 [a, b] @ src) dst = b64_loop ex uu 1 src (dst @ [a, b])"
    by (subst b64_loop.simps) (simp add: i d)
qed

lemma loop_enc:
  assumes "ex < 0" and "tc \<le> 2"
  shows "\<exists>tc' \<le> 2. b64_loop ex uu tc (uu_enc bb_uuenc_tbl_base64 bs @ src) dst = b64_loop ex uu tc' src (dst @ bs)"
  using assms(2)
proof (induction bb_uuenc_tbl_base64 bs arbitrary: tc dst rule: uu_enc.induct)
  case (4 a b c s)
  obtain w x y z where i: "uu_index a b c = [w, x, y, z]" by (simp add: uu_index_def)
  obtain tc' where tc': "tc' \<le> 2"
    "b64_loop ex uu 0 (uu_enc bb_uuenc_tbl_base64 s @ src) (dst @ [a, b, c]) = b64_loop ex uu tc' src ((dst @ [a, b, c]) @ s)"
    using "4.hyps" [of 0 "dst @ [a, b, c]"] by auto
  have "b64_loop ex uu tc (uu_enc bb_uuenc_tbl_base64 (a # b # c # s) @ src) dst
      = b64_loop ex uu 0 (uu_enc bb_uuenc_tbl_base64 s @ src) (dst @ [a, b, c])"
    using loop_quad [OF assms(1) i, of uu tc "uu_enc bb_uuenc_tbl_base64 s @ src" dst] by (simp add: i)
  with tc' show ?case by (intro exI [of _ tc']) simp
next
  case (2 a)
  then show ?case
    unfolding loop_tail(1) [OF assms(1)] by (intro exI [of _ 2]) simp
next
  case (3 a b)
  then show ?case
    unfolding loop_tail(2) [OF assms(1)] by (intro exI [of _ 1]) simp
qed auto

section \<open>Lines\<close>

function pieces :: "nat \<Rightarrow> 'a list \<Rightarrow> 'a list list" where
  "pieces n xs = (if n = 0 \<or> xs = [] then [] else take n xs # pieces n (drop n xs))"
  by pat_completeness auto
termination
  by (relation "measure (length \<circ> snd)") auto

declare pieces.simps [simp del]

lemma concat_pieces: "0 < n \<Longrightarrow> concat (pieces n xs) = xs"
  by (induction n xs rule: pieces.induct) (subst pieces.simps, auto)

lemma pieces_lengths: "list_all (\<lambda>c. c \<noteq> [] \<and> length c \<le> n) (pieces n xs)"
  by (induction n xs rule: pieces.induct) (subst pieces.simps, auto)

definition uu_line :: "byte list \<Rightarrow> byte list \<Rightarrow> byte list" where
  "uu_line tbl c = (if tbl = bb_uuenc_tbl_std then [tbl ! length c] else []) @ uu_enc tbl c"

lemma uuencode_lines_text:
  "plain_input fd \<Longrightarrow> uuencode_lines tbl fd = (concat (map (\<lambda>c. 10 # uu_line tbl c) (pieces 45 (input_data fd))), True)"
proof (induction tbl fd rule: uuencode_lines.induct)
  case (1 tbl fd)
  obtain fd' where r: "full_read 45 fd = (Some (take 45 (input_data fd)), fd')" "plain_input fd'"
    "input_data fd' = drop 45 (input_data fd)"
    using full_read_plain [OF 1(2), of 45] by blast
  show ?case
  proof (cases "input_data fd = []")
    case True
    then show ?thesis
      using r by (subst uuencode_lines.simps, subst pieces.simps) simp
  next
    case False
    then have "take 45 (input_data fd) \<noteq> []" by simp
    from "1.IH" [OF r(1) [symmetric] refl this r(2)] show ?thesis
      using False r by (subst uuencode_lines.simps, subst pieces.simps)
        (simp add: uu_line_def bb_uuencode_enc [of "take 45 (input_data fd)", simplified])
  qed
qed

lemma base64_lines_text:
  "plain_input fd \<Longrightarrow> base64_lines fd = (concat (map (\<lambda>c. uu_enc bb_uuenc_tbl_base64 c @ [10]) (pieces 57 (input_data fd))), True)"
proof (induction fd rule: base64_lines.induct)
  case (1 fd)
  obtain fd' where r: "full_read 57 fd = (Some (take 57 (input_data fd)), fd')" "plain_input fd'"
    "input_data fd' = drop 57 (input_data fd)"
    using full_read_plain [OF 1(2), of 57] by blast
  show ?case
  proof (cases "input_data fd = []")
    case True
    then show ?thesis
      using r by (subst base64_lines.simps, subst pieces.simps) simp
  next
    case False
    then have "take 57 (input_data fd) \<noteq> []" by simp
    from "1.IH" [OF r(1) [symmetric] refl this r(2)] show ?thesis
      using False r by (subst base64_lines.simps, subst pieces.simps)
        (simp add: bb_uuencode_enc [of "take 57 (input_data fd)", simplified])
  qed
qed

lemma loop_lines:
  assumes "ex < 0"
  shows "b64_loop ex uu 0 (concat (map (\<lambda>c. uu_enc bb_uuenc_tbl_base64 c @ [10]) cs) @ src) dst
    = b64_loop ex uu 0 src (dst @ concat cs)"
proof (induction cs arbitrary: dst)
  case (Cons c cs)
  let ?src = "concat (map (\<lambda>c. uu_enc bb_uuenc_tbl_base64 c @ [10]) cs) @ src"
  obtain tc' where "tc' \<le> 2" "b64_loop ex uu 0 (uu_enc bb_uuenc_tbl_base64 c @ 10 # ?src) dst
      = b64_loop ex uu tc' (10 # ?src) (dst @ c)"
    using loop_enc [OF assms, of 0 uu c "10 # ?src" dst] by auto
  moreover have "b64_loop ex uu tc' (10 # ?src) (dst @ c) = b64_loop ex uu 0 ?src (dst @ c)" if "tc' \<le> 2" for tc'
    using that assms by (simp add: loop_newline)
  ultimately show ?case
    using Cons.IH [of "dst @ c"] by simp
qed simp

lemma read_base64_lines:
  "read_base64 (concat (map (\<lambda>c. uu_enc bb_uuenc_tbl_base64 c @ [10]) cs)) 0xff = (True, concat cs, [])"
  "read_base64 (concat (map (\<lambda>c. uu_enc bb_uuenc_tbl_base64 c @ [10]) cs) @ bytes_of ''===='' @ [10]) 0x180 = (True, concat cs, [])"
proof -
  have "b64_loop (- 1) False 0 [] dst = (True, dst, [])" for dst
    by (subst b64_loop.simps, subst b64_read_group.simps) simp
  then show "read_base64 (concat (map (\<lambda>c. uu_enc bb_uuenc_tbl_base64 c @ [10]) cs)) 0xff = (True, concat cs, [])"
    using loop_lines [of "- 1" False cs "[]" "[]"] by (simp add: read_base64_def)
  let ?p = "bb_uuenc_tbl_base64 ! 64"
  have eq: "bytes_of ''===='' = [?p, ?p, ?p, ?p]"
    by (simp add: bytes_of_def bb_uuenc_tbl_base64_def)
  have "b64_loop (- 128) True 0 (bytes_of ''===='' @ [10]) dst = (True, dst, [])" for dst
    unfolding eq by (simp add: loop_pad loop_newline)
  moreover have "bit (0x180 :: u32) 8" by simp
  ultimately show "read_base64 (concat (map (\<lambda>c. uu_enc bb_uuenc_tbl_base64 c @ [10]) cs) @ bytes_of ''===='' @ [10]) 0x180
      = (True, concat cs, [])"
    using loop_lines [of "- 128" True cs "bytes_of ''===='' @ [10]" "[]"] by (simp add: read_base64_def)
qed

section \<open>Decoding the traditional format\<close>

fun uu_words :: "byte list \<Rightarrow> byte list" where
  "uu_words [] = []"
| "uu_words [a] = uu_index a 0 0"
| "uu_words [a, b] = uu_index a b 0"
| "uu_words (a # b # c # s) = uu_index a b c @ uu_words s"

lemma std_table: "i < 65 \<Longrightarrow> (bb_uuenc_tbl_std ! i - 0x20) AND 0x3f = of_nat (i mod 64) \<and> 0x21 \<le> bb_uuenc_tbl_std ! i \<and> bb_uuenc_tbl_std ! i \<le> 0x60"
proof -
  have "\<forall>i \<in> set [0..<65]. (bb_uuenc_tbl_std ! i - 0x20) AND 0x3f = of_nat (i mod 64) \<and>
      0x21 \<le> bb_uuenc_tbl_std ! i \<and> bb_uuenc_tbl_std ! i \<le> 0x60"
    by (simp add: bb_uuenc_tbl_std_def bytes_of_def upt_rec)
  then show "i < 65 \<Longrightarrow> ?thesis" by auto
qed

lemma std_decode_chars:
  "map (\<lambda>c. (c - 0x20) AND 0x3f) (uu_enc bb_uuenc_tbl_std s) = uu_words s"
  "list_all (\<lambda>c. 0x21 \<le> c \<and> c \<le> 0x60) (uu_enc bb_uuenc_tbl_std s)"
proof -
  have ix: "(bb_uuenc_tbl_std ! unat i - 0x20) AND 0x3f = i \<and> 0x21 \<le> bb_uuenc_tbl_std ! unat i \<and>
      bb_uuenc_tbl_std ! unat i \<le> 0x60" if "i \<in> set (uu_index a b c)" for i a b c
    using uu_index_small [of a b c] std_table [of "unat i"] that by (auto simp: list_all_iff)
  have dec: "map (\<lambda>i. (bb_uuenc_tbl_std ! unat i - 0x20) AND 0x3f) (take n (uu_index a b c)) = take n (uu_index a b c)" for n a b c
    by (intro map_idI) (use ix in \<open>blast dest: in_set_takeD\<close>)
  have all: "list_all (\<lambda>i. 0x21 \<le> bb_uuenc_tbl_std ! unat i \<and> bb_uuenc_tbl_std ! unat i \<le> 0x60) (take n (uu_index a b c))" for n a b c
    using ix by (auto simp: list_all_iff dest: in_set_takeD)
  have z: "take 2 (uu_index a 0 0) @ [0, 0] = uu_index a 0 0" "take 3 (uu_index a b 0) @ [0] = uu_index a b 0"
    "take 4 (uu_index a b c) = uu_index a b c" for a b c
    by (simp_all add: uu_index_def)
  have pad: "(bb_uuenc_tbl_std ! 64 - 0x20) AND 0x3f = 0" "0x21 \<le> bb_uuenc_tbl_std ! 64" "bb_uuenc_tbl_std ! 64 \<le> 0x60"
    using std_table [of 64] by simp_all
  show "map (\<lambda>c. (c - 0x20) AND 0x3f) (uu_enc bb_uuenc_tbl_std s) = uu_words s"
    by (induction bb_uuenc_tbl_std s rule: uu_enc.induct) (simp_all add: comp_def dec dec [of 4, unfolded z] pad z)
  show "list_all (\<lambda>c. 0x21 \<le> c \<and> c \<le> 0x60) (uu_enc bb_uuenc_tbl_std s)"
    by (induction bb_uuenc_tbl_std s rule: uu_enc.induct) (simp_all add: comp_def list.pred_map all all [of 4, unfolded z] pad)
qed

lemma char_at_drop: "char_at l (i + j) = char_at (drop i l) j"
  by (auto simp: char_at_def)

lemma char_at_update: "i \<noteq> j \<Longrightarrow> char_at (l[i := v]) j = char_at l j"
  by (simp add: char_at_def)

text \<open>Each byte is written in front of the characters that are still to be read.\<close>

lemma stduu_merge_step:
  assumes "drop lp line = [w, x, y, z] @ r" and "dst < lp"
    and "[A, B, C] = [push_bit 2 w OR drop_bit 4 x, push_bit 4 x OR drop_bit 2 y, push_bit 6 y OR z]"
  shows "stduu_merge line lp dst e =
    (if e = 1 then (line[dst := A], dst + 1)
     else if e = 2 then (line[dst := A, dst + 1 := B], dst + 2)
     else if 4 < e then stduu_merge (line[dst := A, dst + 1 := B, dst + 2 := C]) (lp + 4) (dst + 3) (e - 4)
     else (line[dst := A, dst + 1 := B, dst + 2 := C], dst + 3))"
proof -
  have "char_at line lp = w" "char_at line (lp + 1) = x" "char_at line (lp + 2) = y" "char_at line (lp + 3) = z"
    using char_at_drop [of line lp 0] char_at_drop [of line lp 1] char_at_drop [of line lp 2] char_at_drop [of line lp 3]
    by (simp_all add: assms(1) char_at_def)
  then show ?thesis
    using assms(2,3) by (subst stduu_merge.simps) (simp add: Let_def char_at_update)
qed

lemma take_updates:
  "dst < length l \<Longrightarrow> take (dst + 1) (l[dst := a]) = take dst l @ [a]"
  "dst + 1 < length l \<Longrightarrow> take (dst + 2) (l[dst := a, dst + 1 := b]) = take dst l @ [a, b]"
  "dst + 2 < length l \<Longrightarrow> take (dst + 3) (l[dst := a, dst + 1 := b, dst + 2 := c]) = take dst l @ [a, b, c]"
  by (auto simp: list_eq_iff_nth_eq nth_append nth_list_update nth_Cons split: nat.split)

lemma uu_index_bytes:
  assumes "uu_index a b c = [w, x, y, z]"
  shows "[a, b, c] = [push_bit 2 w OR drop_bit 4 x, push_bit 4 x OR drop_bit 2 y, push_bit 6 y OR z]"
  using uu_index_decode(1) [of a b c] by (simp add: assms b64_bytes_def)

lemma stduu_merge_bytes:
  "drop lp line = uu_words s \<Longrightarrow> s \<noteq> [] \<Longrightarrow> dst < lp \<Longrightarrow>
    \<exists>line'. stduu_merge line lp dst (int (length s) * 4 div 3) = (line', dst + length s) \<and>
      take (dst + length s) line' = take dst line @ s"
proof (induction s arbitrary: line lp dst rule: uu_words.induct)
  case (2 a)
  obtain w x y z where i: "uu_index a 0 0 = [w, x, y, z]" by (simp add: uu_index_def)
  have "lp + 4 = length line" using arg_cong [OF 2(1), of length] 2(3) by (simp add: i)
  then show ?case
    using stduu_merge_step [of lp line w x y z "[]" dst, OF _ 2(3) uu_index_bytes [OF i], of 1] 2 take_updates(1) [of dst line a]
    by (simp add: i)
next
  case (3 a b)
  obtain w x y z where i: "uu_index a b 0 = [w, x, y, z]" by (simp add: uu_index_def)
  have "lp + 4 = length line" using arg_cong [OF 3(1), of length] 3(3) by (simp add: i)
  then show ?case
    using stduu_merge_step [of lp line w x y z "[]" dst, OF _ 3(3) uu_index_bytes [OF i], of 2] 3 take_updates(2) [of dst line a b]
    by (simp add: i)
next
  case (4 a b c s)
  obtain w x y z where i: "uu_index a b c = [w, x, y, z]" by (simp add: uu_index_def)
  let ?l = "line[dst := a, dst + 1 := b, dst + 2 := c]"
  have d: "drop lp line = [w, x, y, z] @ uu_words s" using 4(2) by (simp add: i)
  have len: "lp + 4 \<le> length line"
    using arg_cong [OF d, of length] by simp
  have e: "int (length (a # b # c # s)) * 4 div 3 = int (length s) * 4 div 3 + 4" by simp
  have t: "take (dst + 3) ?l = take dst line @ [a, b, c]"
    using len 4(4) by (intro take_updates(3)) simp
  note step = stduu_merge_step [OF d 4(4) uu_index_bytes [OF i], of "int (length (a # b # c # s)) * 4 div 3"]
  show ?case
  proof (cases "s = []")
    case True
    then show ?thesis using step t by (simp add: numeral_3_eq_3)
  next
    case False
    have "drop (lp + 4) line = uu_words s"
      using arg_cong [OF d, of "drop 4"] by (simp add: add.commute)
    then have "drop (lp + 4) ?l = uu_words s"
      using 4(4) by (simp add: drop_update_cancel)
    from "4.IH" [OF this False, of "dst + 3"] 4(4) obtain line' where
      "stduu_merge ?l (lp + 4) (dst + 3) (int (length s) * 4 div 3) = (line', dst + 3 + length s)"
      "take (dst + 3 + length s) line' = take (dst + 3) ?l @ s" by auto
    moreover have "0 < int (length s) * 4 div 3" using False by (cases s) auto
    ultimately show ?thesis
      using step unfolding e t by (simp add: add.assoc numeral_3_eq_3)
  qed
qed simp

lemma uu_words_length: "int (length c) * 4 div 3 \<le> int (length (uu_words c))"
  by (induction c rule: uu_words.induct) (auto simp: uu_index_def)

lemma read_stduu_line:
  assumes "c \<noteq> []" and "length c \<le> 45"
  shows "read_stduu (uu_line bb_uuenc_tbl_std c @ 10 # src) dst = read_stduu src (dst @ c)"
proof -
  let ?l = "uu_line bb_uuenc_tbl_std c" and ?n = "of_nat (length c) :: byte"
  let ?m = "map (\<lambda>c. (c - 0x20) AND 0x3f) ?l"
  have lc: "length c < 65" using assms(2) by simp
  have "list_all (\<lambda>c. 0x21 \<le> c \<and> c \<le> 0x60) ?l"
    using std_decode_chars(2) [of c] std_table [OF lc] by (simp add: uu_line_def)
  then have "list_all (\<lambda>c. c \<noteq> 10 \<and> c \<noteq> 0) ?l" and ne: "?l \<noteq> bytes_of ''end''"
    by (auto simp: bytes_of_def elim!: list.pred_mono_strong)
  then have rd: "xmalloc_fgetline (?l @ 10 # src) = (Some ?l, src)"
    by (intro xmalloc_fgetline_line)
  have m: "?m = ?n # uu_words c"
    using std_table [OF lc] assms(2) by (simp add: uu_line_def std_decode_chars(1))
  have n: "uint (char_at ?m 0) * 4 div 3 = int (length c) * 4 div 3"
    using assms(2) unfolding m by (simp add: char_at_def unsigned_of_nat take_bit_nat_eq_self)
  obtain line' where "stduu_merge ?m 1 0 (int (length c) * 4 div 3) = (line', length c)" "take (length c) line' = c"
    using stduu_merge_bytes [of 1 ?m c 0] assms(1) m by auto
  moreover have "0 < int (length c) * 4 div 3" "int (length c) * 4 div 3 \<le> 60"
    using assms by (cases c, auto)
  moreover have "\<not> int (length ?m) \<le> int (length c) * 4 div 3"
    using uu_words_length [of c] unfolding m by simp
  ultimately show ?thesis
    using ne by (subst read_stduu.simps) (simp add: rd Let_def n)
qed

lemma read_stduu_lines:
  "list_all (\<lambda>c. c \<noteq> [] \<and> length c \<le> 45) cs \<Longrightarrow>
    read_stduu (concat (map (\<lambda>c. uu_line bb_uuenc_tbl_std c @ [10]) cs) @ [0x60, 10] @ bytes_of ''end'' @ [10]) dst = (Uu_Done, dst @ concat cs)"
proof (induction cs arbitrary: dst)
  case Nil
  have "xmalloc_fgetline ([0x60] @ 10 # bytes_of ''end'' @ [10]) = (Some [0x60], bytes_of ''end'' @ [10])"
    "xmalloc_fgetline (bytes_of ''end'' @ 10 # []) = (Some (bytes_of ''end''), [])"
    by (rule xmalloc_fgetline_line; simp add: bytes_of_def)+
  then show ?case
    by (subst read_stduu.simps, subst read_stduu.simps) (simp add: char_at_def bytes_of_def)
qed (simp add: read_stduu_line)

lemma line_shift: "concat (map (\<lambda>c. 10 # f c) cs) @ 10 # t = 10 # concat (map (\<lambda>c. f c @ [10]) cs) @ t"
  by (induction cs) auto

lemma index_in_first: "c \<notin> set xs \<Longrightarrow> index_in (xs @ c # r) c = Some (length xs)"
  by (induction xs) auto

lemma mode_bits: "k AND 511 < (512 :: nat)" "unat (of_nat (k AND 511) AND 511 :: u32) = k AND 511"
proof -
  have m: "k AND 511 = take_bit 9 k" "(w :: u32) AND 511 = take_bit 9 w" for w
    by (simp_all add: take_bit_eq_mask mask_eq_exp_minus_1)
  show "k AND 511 < 512"
    using take_bit_nat_less_exp [of 9 k] by (simp add: m)
  then show "unat (of_nat (k AND 511) AND 511 :: u32) = k AND 511"
    unfolding m by (simp add: unsigned_take_bit_eq unsigned_of_nat)
qed

lemma bb_strtou_mode:
  assumes "n < 512"
  shows "fst (bb_strtou (base_digits 8 n @ bytes_of '' '' @ s) 8) = of_nat n"
proof -
  have c: "\<not> digit_in 8 (char_at (bytes_of '' '' @ s) 0)" "0x20 = char_at (bytes_of '' '' @ s) 0"
    by (simp_all add: char_at_def bytes_of_def digit_in_def c_digit_def)
  have "\<not> is_alnum 0x20" by (simp add: is_alnum_def c_digit_def)
  moreover have "\<not> 2 ^ 32 \<le> n" using assms by simp
  ultimately have "bb_strtou (base_digits 8 n @ bytes_of '' '' @ s) 8 = (of_nat n, EINVAL, Some (bytes_of '' '' @ s))"
    using bb_strtou_digits [OF _ _ c, of n] by simp
  then show ?thesis by simp
qed

lemma uudecode_search_begin:
  assumes "xmalloc_fgetline t = (Some line, src)"
    and "(case strip_prefix (bytes_of ''begin-base64 '') line of Some lp \<Rightarrow> Some (True, lp)
      | None \<Rightarrow> map_option (Pair False) (strip_prefix (bytes_of ''begin '') line)) = Some (m, lp)"
    and "fst (bb_strtou lp 8) = of_nat (k AND 511)" and "index_in lp 0x20 = Some i" and "string_of (drop (i + 1) lp) = name"
    and "m \<Longrightarrow> read_base64 src 0x180 = (True, bs, [])" and "\<not> m \<Longrightarrow> read_stduu src [] = (Uu_Done, bs)" and "can_write name"
  shows "uudecode_search can_write None t = ((0, []), Some (name, k AND 511, bs))"
  using assms(6-8) unfolding uudecode_search.simps [of can_write None t] assms(1) prod.case option.case assms(2)
  by (cases m) (simp_all add: Let_def assms(3,4) assms(5) [simplified] mode_bits(2))

text \<open>Reading a NUL is reading the letter that stands for the number 2.\<close>

definition nul_to_C :: "byte \<Rightarrow> byte" where
  "nul_to_C c = (if c = 0 then 0x43 else c)"

lemma b64_next_nul:
  "ex < 0 \<Longrightarrow> b64_next ex count (map nul_to_C src) =
    (case b64_next ex count src of (c, rest) \<Rightarrow> (if c = B64_Char 66 then B64_Char 2 else c, map nul_to_C rest))"
proof (induction src)
  case (Cons c src)
  have u: "uint c' \<noteq> ex" for c' :: byte
    using Cons.prems by (metis uint_ge_0 not_less)
  have t: "index_in bb_uuenc_tbl_base64 0x43 = Some 2" "index_in bb_uuenc_tbl_base64 0 = Some 66"
    by (simp_all add: bb_uuenc_tbl_base64_def bytes_of_def)
  have n: "index_in bb_uuenc_tbl_base64 c \<noteq> Some 66" if "c \<noteq> 0"
    using that by (auto simp: bb_uuenc_tbl_base64_def bytes_of_def split: if_splits)
  show ?case
    using Cons n by (cases "c = 0"; cases "index_in bb_uuenc_tbl_base64 c") (auto simp: nul_to_C_def u t)
qed auto

lemma b64_group_nul:
  "ex < 0 \<Longrightarrow> b64_read_group ex uu tc count tr (map nul_to_C src) = apsnd (map nul_to_C) (b64_read_group ex uu tc count tr src)"
proof (induction ex uu tc count tr src rule: b64_read_group.induct)
  case (1 ex uu tc count tr src)
  obtain c rest where c: "b64_next ex count src = (c, rest)" by (cases "b64_next ex count src")
  have n: "b64_next ex count (map nul_to_C src) = (if c = B64_Char 66 then B64_Char 2 else c, map nul_to_C rest)"
    using 1(3) by (simp add: b64_next_nul c)
  show ?case
  proof (cases "4 \<le> count")
    case True
    then show ?thesis by (subst (1 2) b64_read_group.simps) simp
  next
    case False
    note IH = "1.IH" [OF False c [symmetric]]
    show ?thesis
      using False 1(3) IH
      by (subst (1 2) b64_read_group.simps) (cases c; auto simp: n c Let_def)
  qed
qed

lemma b64_loop_nul:
  "ex < 0 \<Longrightarrow> b64_loop ex uu tc (map nul_to_C src) dst =
    (case b64_loop ex uu tc src dst of (ok, out, rest) \<Rightarrow> (ok, out, map nul_to_C rest))"
proof (induction ex uu tc src dst rule: b64_loop.induct)
  case (1 ex uu tc src dst)
  obtain g rest where g: "b64_read_group ex uu tc 0 [] src = (g, rest)" by (rule prod.exhaust)
  show ?case
    using 1 g by (subst (1 2) b64_loop.simps) (cases g; simp add: b64_group_nul)
qed

section \<open>Properties\<close>

text \<open>
  \<open>base64\<close> and \<open>base64 -d\<close> are inverse: for every file that can be read, encoding prints a text, and
  decoding that text prints the content of the file; both exit with 0.
\<close>

theorem base64_round_trip:
  assumes "io_open io f = Some fd" and "f \<noteq> ''-''" and "plain_input fd"
    and "base64_main False f io = (st, io1)" and "io_out io1 = io_out io @ [Print t]"
    and "io_open io2 g = Some fd2" and "g \<noteq> ''-''" and "input_data fd2 = t"
  shows "st = 0 \<and> base64_main True g io2 = (0, put_msg (Print (input_data fd)) io2)"
proof -
  let ?t = "concat (map (\<lambda>c. uu_enc bb_uuenc_tbl_base64 c @ [10]) (pieces 57 (input_data fd)))"
  have "base64_main False f io = (0, put_msg (Print ?t) io)"
    using assms(1,2) by (simp add: base64_main_def open_or_warn_stdin_def base64_lines_text [OF assms(3)])
  then have "st = 0" "t = ?t"
    using assms(4,5) by (auto simp: put_msg_def)
  then show ?thesis
    using assms(6-8) by (simp add: base64_main_def open_or_warn_stdin_def read_base64_lines(1) concat_pieces)
qed

definition base64_io :: "(string \<Rightarrow> infile option) \<Rightarrow> bb_io" where
  "base64_io fs = \<lparr>io_open = fs, io_close_ok = (\<lambda>_. True), io_stdin = [], io_stdin_closed = False, io_out = []\<rparr>"

theorem base64_round_trip_witness:
  "base64_main True ''g'' (base64_io [''g'' \<mapsto> [Data (bytes_of ''eQ=='' @ [10])]]) =
     (0, put_msg (Print [0x79]) (base64_io [''g'' \<mapsto> [Data (bytes_of ''eQ=='' @ [10])]]))"
proof -
  let ?io = "base64_io [''f'' \<mapsto> [Data [0x79]]]"
  have "base64_lines [Data [0x79]] = (bytes_of ''eQ=='' @ [10], True)"
    using base64_lines_text [of "[Data [0x79]]"]
    by (simp add: plain_input_def pieces.simps uu_index_def bb_uuenc_tbl_base64_def bytes_of_def)
  then have "base64_main False ''f'' ?io = (0, put_msg (Print (bytes_of ''eQ=='' @ [10])) ?io)"
    by (simp add: base64_main_def open_or_warn_stdin_def base64_io_def)
  from base64_round_trip [OF _ _ _ this, of "[Data [0x79]]" "bytes_of ''eQ=='' @ [10]"
      "base64_io [''g'' \<mapsto> [Data (bytes_of ''eQ=='' @ [10])]]" "''g''" "[Data (bytes_of ''eQ=='' @ [10])]"]
  show ?thesis
    by (simp add: base64_io_def put_msg_def plain_input_def bytes_of_def)
qed

text \<open>
  C29: \<open>uuencode\<close> and \<open>uudecode\<close> are inverse, in the traditional format and in base64: from the text that
  \<open>uuencode\<close> prints for a file, \<open>uudecode\<close> writes the same content to the name given to \<open>uuencode\<close>, with the
  permission bits of the file, and both exit with 0.
\<close>

theorem uuencode_round_trip:
  assumes "io_open io f = Some fd" and "plain_input fd" and "list_all (\<lambda>c. c \<noteq> 10 \<and> c \<noteq> 0) (bytes_of name)"
    and "uuencode_main m umask st_mode (Some f) name io = (st, io1)" and "io_out io1 = io_out io @ [Print t]"
    and "io_open io2 g = Some fd2" and "g \<noteq> ''-''" and "input_data fd2 = t" and "can_write name"
  shows "st = 0 \<and> uudecode_main can_write None g io2 = ((0, Some (name, st_mode f AND 511, input_data fd)), io2)"
proof -
  let ?tbl = "if m then bb_uuenc_tbl_base64 else bb_uuenc_tbl_std"
  let ?md = "base_digits 8 (st_mode f AND 511)"
  let ?ps = "pieces 45 (input_data fd)"
  let ?hd = "bytes_of ''begin'' @ (if m then bytes_of ''-base64'' else []) @ bytes_of '' '' @ ?md @ bytes_of '' '' @ bytes_of name"
  let ?tl = "if m then bytes_of ''===='' @ [10] else [0x60, 10] @ bytes_of ''end'' @ [10]"
  let ?src = "concat (map (\<lambda>c. uu_line ?tbl c @ [10]) ?ps) @ ?tl"
  have tbl: "(?tbl = bb_uuenc_tbl_std) = (\<not> m)"
    by (simp add: bb_uuenc_tbl_std_def bb_uuenc_tbl_base64_def bytes_of_def)
  have "uuencode_main m umask st_mode (Some f) name io = (0, put_msg (Print (?hd @ 10 # ?src)) io)"
    unfolding line_shift [symmetric] using assms(1) tbl
    by (simp add: uuencode_main_def Let_def uuencode_lines_text [OF assms(2)])
  then have st: "st = 0" "t = ?hd @ 10 # ?src"
    using assms(4,5) by (auto simp: put_msg_def)
  let ?lp = "?md @ bytes_of '' '' @ bytes_of name"
  have md: "list_all (\<lambda>c. 0x30 \<le> c \<and> c \<le> 0x39) ?md"
    using base_digits_facts [of 8 "st_mode f AND 511"]
    by (auto simp: digit_in_def c_digit_def elim!: list.pred_mono_strong split: if_splits)
  then have "list_all (\<lambda>c. c \<noteq> 10 \<and> c \<noteq> 0) ?md" and sp: "0x20 \<notin> set ?md"
    by (auto elim!: list.pred_mono_strong simp: list_all_iff)
  then have ln: "xmalloc_fgetline (?hd @ 10 # ?src) = (Some ?hd, ?src)"
    using assms(3) by (intro xmalloc_fgetline_line) (simp add: bytes_of_def)
  have pf: "(case strip_prefix (bytes_of ''begin-base64 '') ?hd of Some lp \<Rightarrow> Some (True, lp)
      | None \<Rightarrow> map_option (Pair False) (strip_prefix (bytes_of ''begin '') ?hd)) = Some (m, ?lp)"
    by (simp add: strip_prefix_def bytes_of_def)
  have md8: "fst (bb_strtou ?lp 8) = of_nat (st_mode f AND 511)"
    by (rule bb_strtou_mode [OF mode_bits(1)])
  have ix: "index_in ?lp 0x20 = Some (length ?md)"
    using index_in_first [OF sp] by (simp add: bytes_of_def)
  have nm: "string_of (drop (length ?md + 1) ?lp) = name"
    by (simp add: bytes_of_def [of "'' ''"])
  have b64: "read_base64 ?src 0x180 = (True, input_data fd, [])" if m
    using that read_base64_lines(2) [of ?ps] tbl by (simp add: uu_line_def concat_pieces)
  have std: "read_stduu ?src [] = (Uu_Done, input_data fd)" if "\<not> m"
    using that read_stduu_lines [of ?ps "[]"] pieces_lengths [of 45 "input_data fd"] by (simp add: concat_pieces)
  have "uudecode_search can_write None t = ((0, []), Some (name, st_mode f AND 511, input_data fd))"
    unfolding st(2) by (rule uudecode_search_begin [where can_write = can_write, OF ln pf md8 ix nm b64 std assms(9)])
  then show ?thesis
    using st(1) assms(6-8) by (simp add: uudecode_main_def open_or_warn_stdin_def)
qed

theorem uuencode_round_trip_witness:
  "\<exists>t. io_out (snd (uuencode_main False 0 (\<lambda>_. 420) (Some ''f'') ''name'' (base64_io [''f'' \<mapsto> [Data [1, 2], Data [3, 4]]]))) = [Print t] \<and>
    uudecode_main (\<lambda>_. True) None ''g'' (base64_io [''g'' \<mapsto> [Data t]]) = ((0, Some (''name'', 420, [1, 2, 3, 4])), base64_io [''g'' \<mapsto> [Data t]])"
proof -
  let ?io = "base64_io [''f'' \<mapsto> [Data [1, 2], Data [3, 4]]]"
  obtain st io1 where e: "uuencode_main False 0 (\<lambda>_. 420) (Some ''f'') ''name'' ?io = (st, io1)" by (rule prod.exhaust)
  have "\<exists>t. io_out (snd (uuencode_main False 0 (\<lambda>_. 420) (Some ''f'') ''name'' ?io)) = [Print t]"
    by (simp add: uuencode_main_def Let_def uuencode_lines_text plain_input_def base64_io_def put_msg_def)
  moreover have io0: "io_out ?io = []" by (simp add: base64_io_def)
  ultimately obtain t where t: "io_out io1 = io_out ?io @ [Print t]"
    unfolding e by auto
  have "st = 0 \<and> uudecode_main (\<lambda>_. True) None ''g'' (base64_io [''g'' \<mapsto> [Data t]]) =
      ((0, Some (''name'', 420 AND 511, input_data [Data [1, 2], Data [3, 4]])), base64_io [''g'' \<mapsto> [Data t]])"
    by (rule uuencode_round_trip [OF _ _ _ e t, where ?fd2.0 = "[Data t]"])
      (simp_all add: base64_io_def plain_input_def bytes_of_def)
  then show ?thesis
    using t by (intro exI [of _ t]) (simp add: e io0)
qed

text \<open>
  The base64 decoder takes a NUL byte for the letter C, since \<open>strchr\<close> finds the NUL that ends the
  table: whenever the flags name no character to stop at, replacing every NUL of the text by C
  changes neither the bytes written nor the way the decoder ends. All other characters outside the
  alphabet are ignored.
\<close>

theorem read_base64_nul:
  assumes "sint (ucast flags :: byte) < 0"
  shows "read_base64 (map (\<lambda>c. if c = 0 then 0x43 else c) src) flags =
    (case read_base64 src flags of (ok, out, rest) \<Rightarrow> (ok, out, map (\<lambda>c. if c = 0 then 0x43 else c) rest))"
  using b64_loop_nul [OF assms, of "bit flags 8" 0 src "[]"]
  by (simp add: read_base64_def nul_to_C_def [abs_def])

theorem read_base64_nul_witness:
  "read_base64 (map (\<lambda>c. if c = 0 then 0x43 else c) [0x51, 0x55, 0x4A, 0]) 0xff =
    (case read_base64 [0x51, 0x55, 0x4A, 0] 0xff of (ok, out, rest) \<Rightarrow> (ok, out, map (\<lambda>c. if c = 0 then 0x43 else c) rest))"
  by (rule read_base64_nul) simp

end
