(* ===== verification/Bb_Expr.thy ===== *)
theory Bb_Expr
  imports Bb_Io Bb_Strtonum "HOL-Library.Signed_Division"
begin

text \<open>
  The applet \<open>expr\<close> (\<open>busybox/coreutils/expr.c\<close>), configured with
  \<open>EXPR_MATH_SUPPORT_64\<close>: a recursive-descent parser that evaluates while it parses.

  The global \<open>G.args\<close> and the messages written so far are the state. \<open>bb_error_msg_and_die\<close> ends
  the run with exit status 2. An \<open>arith_t\<close> is an \<open>int\<close> in the range of \<open>int64_t\<close>; a signed result
  out of this range is undefined behaviour in C and an outcome of its own here. POSIX regular
  expressions (\<open>regcomp\<close>, \<open>regexec\<close>) are not part of the program: a compiler from patterns to
  matchers is a parameter.

  The forward declaration \<open>static VALUE *eval(void)\<close> becomes the parameter \<open>ev\<close> of \<open>eval7\<close> to
  \<open>eval1\<close>; \<open>eval\<close> ties the knot, and its fuel bounds the nesting of parentheses, the nesting of
  keywords and the iterations of a loop. Each of these consumes a token, so that two more than the
  number of tokens is enough, which is proved below.
\<close>

section \<open>Values\<close>

datatype VALUE = INTEGER int | STRING "byte list"

definition arith_range :: "int \<Rightarrow> bool" where
  "arith_range i \<longleftrightarrow> - (2 ^ 63) \<le> i \<and> i < 2 ^ 63"

definition int_value :: "int \<Rightarrow> VALUE" where
  "int_value i = INTEGER i"

definition str_value :: "byte list \<Rightarrow> VALUE" where
  "str_value s = STRING s"

definition null_value :: "VALUE \<Rightarrow> bool" where
  "null_value v = (case v of
       INTEGER i \<Rightarrow> i = 0
     | STRING s \<Rightarrow> char_at s 0 = 0 \<or> char_at s 0 = 0x30 \<and> char_at s 1 = 0)"

text \<open>The string \<open>v->u.s\<close> after \<open>tostring (v)\<close>.\<close>

definition tostring :: "VALUE \<Rightarrow> byte list" where
  "tostring v = (case v of INTEGER i \<Rightarrow> decimal i | STRING s \<Rightarrow> s)"

text \<open>What \<open>toarith (v)\<close> returns, and \<open>v\<close> afterwards.\<close>

definition toarith :: "VALUE \<Rightarrow> bool \<times> VALUE" where
  "toarith v = (case v of
       INTEGER i \<Rightarrow> (True, v)
     | STRING s \<Rightarrow>
         (case strtoll 10 s of (i, e, _) \<Rightarrow> if e = s \<or> e \<noteq> [] then (False, v) else (True, INTEGER (sint i))))"

section \<open>State, errors\<close>

record expr_state =
  G_args :: "byte list list"
  G_msgs :: "bb_msg list"

datatype expr_exit = Die "bb_msg list" | Undefined | Out_Of_Fuel

type_synonym ('s, 'a) expr_m = "'s \<Rightarrow> expr_exit + 'a \<times> 's"

definition ret :: "'a \<Rightarrow> ('s, 'a) expr_m" where
  "ret a = (\<lambda>s. Inr (a, s))"

definition bind :: "('s, 'a) expr_m \<Rightarrow> ('a \<Rightarrow> ('s, 'b) expr_m) \<Rightarrow> ('s, 'b) expr_m" where
  "bind m f = (\<lambda>s. case m s of Inl e \<Rightarrow> Inl e | Inr (a, s') \<Rightarrow> f a s')"

text \<open>A computation that looks at the state.\<close>

definition look :: "('s \<Rightarrow> ('s, 'a) expr_m) \<Rightarrow> ('s, 'a) expr_m" where
  "look f = (\<lambda>s. f s s)"

text \<open>\<open>bb_error_msg_and_die\<close>, and a computation that only writes messages, in the state of the parser.\<close>

definition die :: "byte list \<Rightarrow> (bb_msg list, 'a) expr_m" where
  "die msg = (\<lambda>ms. Inl (Die (ms @ [Error_Msg msg])))"

definition lift_msgs :: "(bb_msg list, 'a) expr_m \<Rightarrow> (expr_state, 'a) expr_m" where
  "lift_msgs m = (\<lambda>st. map_sum id (apsnd (\<lambda>ms. st\<lparr>G_msgs := ms\<rparr>)) (m (G_msgs st)))"

text \<open>\<open>G.args++\<close>.\<close>

definition next_arg :: "(expr_state, unit) expr_m" where
  "next_arg = (\<lambda>st. Inr ((), st\<lparr>G_args := tl (G_args st)\<rparr>))"

section \<open>Operators\<close>

definition nextarg :: "string \<Rightarrow> expr_state \<Rightarrow> nat" where
  "nextarg str st =
     (if G_args st = [] \<or> hd (G_args st) \<noteq> bytes_of str then 0
      else unat (char_at (bytes_of str) 0) + unat (char_at (bytes_of str) 1))"

text \<open>The sign of \<open>strcmp\<close>.\<close>

fun strcmp :: "byte list \<Rightarrow> byte list \<Rightarrow> int" where
  "strcmp [] [] = 0"
| "strcmp [] (_ # _) = - 1"
| "strcmp (_ # _) [] = 1"
| "strcmp (a # as) (b # bs) = (if a = b then strcmp as bs else if a < b then - 1 else 1)"

definition cmp_common :: "VALUE \<Rightarrow> VALUE \<Rightarrow> nat \<Rightarrow> bool" where
  "cmp_common l r opc =
     (let (ll, rr) = (case (l, r) of
            (INTEGER i, INTEGER j) \<Rightarrow> (i, j)
          | _ \<Rightarrow> (strcmp (tostring l) (tostring r), 0))
      in if opc = 60 then ll < rr
         else if opc = 60 + 61 then ll \<le> rr
         else if opc = 61 \<or> opc = 61 + 61 then ll = rr
         else if opc = 33 + 61 then ll \<noteq> rr
         else if opc = 62 then ll > rr
         else ll \<ge> rr)"

definition arith_result :: "int \<Rightarrow> (bb_msg list, int) expr_m" where
  "arith_result i = (if arith_range i then ret i else (\<lambda>_. Inl Undefined))"

definition arithmetic_common :: "VALUE \<Rightarrow> VALUE \<Rightarrow> nat \<Rightarrow> (bb_msg list, int) expr_m" where
  "arithmetic_common l r opc =
     (case (toarith l, toarith r) of
        ((True, INTEGER li), (True, INTEGER ri)) \<Rightarrow>
          if opc = 43 then arith_result (li + ri)
          else if opc = 45 then arith_result (li - ri)
          else if opc = 42 then arith_result (li * ri)
          else if ri = 0 then die (bytes_of ''division by zero'')
          else if opc = 47 then arith_result (li sdiv ri)
          else bind (arith_result (li sdiv ri)) (\<lambda>_. ret (li smod ri))
      | _ \<Rightarrow> die (bytes_of ''non-numeric argument''))"

text \<open>
  A compiled pattern: \<open>re_nsub\<close>, and what \<open>regexec\<close> leaves in \<open>re_regs\<close>, unless it returns
  \<open>REG_NOMATCH\<close>. The parameter \<open>rc\<close> is \<open>regcomp_or_errmsg\<close>.
\<close>

record regex =
  re_nsub :: nat
  re_exec :: "byte list \<Rightarrow> ((int \<times> int) \<times> (int \<times> int)) option"

type_synonym regcomp = "byte list \<Rightarrow> byte list + regex"

definition xregcomp :: "regcomp \<Rightarrow> byte list \<Rightarrow> (bb_msg list, regex) expr_m" where
  "xregcomp rc pat = (case rc pat of
       Inl errmsg \<Rightarrow> die (bytes_of ''bad regex '' @ [0x27] @ pat @ [0x27] @ bytes_of '': '' @ errmsg)
     | Inr re \<Rightarrow> ret re)"

definition caret_warning :: "byte list \<Rightarrow> bb_msg" where
  "caret_warning pat = Error_Msg (bytes_of ''warning: '' @ [0x27] @ pat @ [0x27] @ bytes_of '': using '' @ [0x27] @
     bytes_of ''^'' @ [0x27] @ bytes_of '' as the first character'' @ [10] @
     bytes_of ''of a basic regular expression is not portable; it is ignored'')"

definition docolon :: "regcomp \<Rightarrow> VALUE \<Rightarrow> VALUE \<Rightarrow> (bb_msg list, VALUE) expr_m" where
  "docolon rc sv pv =
     (let s = tostring sv; pat = tostring pv
      in bind (\<lambda>ms. Inr ((), if char_at pat 0 = 0x5E then ms @ [caret_warning pat] else ms)) (\<lambda>_.
         bind (xregcomp rc pat) (\<lambda>re.
         ret (case re_exec re s of
              Some ((so0, eo0), (so1, eo1)) \<Rightarrow>
                if so0 = 0 then
                  if 0 < re_nsub re \<and> 0 \<le> so1 then str_value (drop (nat so1) (take (nat eo1) s))
                  else int_value eo0
                else if 0 < re_nsub re then str_value [] else int_value 0
            | None \<Rightarrow> if 0 < re_nsub re then str_value [] else int_value 0))))"

section \<open>The parser\<close>

definition syntax_error :: "(expr_state, 'a) expr_m" where
  "syntax_error = lift_msgs (die (bytes_of ''syntax error''))"

definition take_arg :: "(expr_state, VALUE) expr_m" where
  "take_arg = look (\<lambda>st. bind next_arg (\<lambda>_. ret (str_value (hd (G_args st)))))"

definition eval7 :: "(expr_state, VALUE) expr_m \<Rightarrow> (expr_state, VALUE) expr_m" where
  "eval7 ev = look (\<lambda>st.
     if G_args st = [] then syntax_error
     else if nextarg ''('' st \<noteq> 0 then
       bind next_arg (\<lambda>_. bind ev (\<lambda>v. look (\<lambda>st.
         if nextarg '')'' st = 0 then syntax_error else bind next_arg (\<lambda>_. ret v))))
     else if nextarg '')'' st \<noteq> 0 then syntax_error
     else take_arg)"

fun index_in_strings :: "string list \<Rightarrow> byte list \<Rightarrow> int" where
  "index_in_strings [] key = - 1"
| "index_in_strings (s # ss) key =
     (if bytes_of s = key then 0
      else let i = index_in_strings ss key in if i < 0 then - 1 else i + 1)"

definition expr_keywords :: "string list" where
  "expr_keywords = [''quote'', ''length'', ''match'', ''index'', ''substr'']"

text \<open>\<open>strcspn\<close>, and \<open>xstrndup\<close> with its \<open>int n\<close>: a negative \<open>n\<close> copies the whole string.\<close>

definition strcspn :: "byte list \<Rightarrow> byte list \<Rightarrow> nat" where
  "strcspn s reject = length (takeWhile (\<lambda>c. c \<notin> set reject) s)"

definition xstrndup :: "byte list \<Rightarrow> int \<Rightarrow> byte list" where
  "xstrndup s n = (if to_int32 n < 0 then s else take (nat (to_int32 n)) s)"

definition length_value :: "VALUE \<Rightarrow> VALUE" where
  "length_value r = int_value (int (length (tostring r)))"

definition index_value :: "VALUE \<Rightarrow> VALUE \<Rightarrow> VALUE" where
  "index_value l r =
     (let v = strcspn (tostring l) (tostring r) + 1
      in if v = length (tostring l) + 1 then int_value 0 else int_value (int v))"

definition substr_value :: "VALUE \<Rightarrow> VALUE \<Rightarrow> VALUE \<Rightarrow> VALUE" where
  "substr_value l v1 v2 =
     (case (toarith v1, toarith v2) of
        ((True, INTEGER i1), (True, INTEGER i2)) \<Rightarrow>
          if int (length (tostring l)) < i1 \<or> i1 \<le> 0 \<or> i2 \<le> 0 then str_value []
          else STRING (xstrndup (drop (nat (i1 - 1)) (tostring l)) i2)
      | _ \<Rightarrow> str_value [])"

fun eval6 :: "regcomp \<Rightarrow> (expr_state, VALUE) expr_m \<Rightarrow> nat \<Rightarrow> (expr_state, VALUE) expr_m" where
  "eval6 rc ev 0 = (\<lambda>_. Inl Out_Of_Fuel)"
| "eval6 rc ev (Suc n) = look (\<lambda>st.
     let key = (if G_args st \<noteq> [] then index_in_strings expr_keywords (hd (G_args st)) + 1 else 0)
     in if key = 0 then eval7 ev
        else bind next_arg (\<lambda>_.
          if key = 1 then look (\<lambda>st. if G_args st = [] then syntax_error else take_arg)
          else if key = 2 then bind (eval6 rc ev n) (\<lambda>r. ret (length_value r))
          else bind (eval6 rc ev n) (\<lambda>l.
            if key = 3 then bind (eval6 rc ev n) (\<lambda>r. lift_msgs (docolon rc l r))
            else if key = 4 then bind (eval6 rc ev n) (\<lambda>r. ret (index_value l r))
            else bind (eval6 rc ev n) (\<lambda>i1. bind (eval6 rc ev n) (\<lambda>i2. ret (substr_value l i1 i2))))))"

text \<open>
  The loop of \<open>eval5\<close> to \<open>eval\<close>: while \<open>next_op\<close> sees an operator, skip it, read an operand and
  combine.
\<close>

fun op_loop :: "(expr_state \<Rightarrow> nat) \<Rightarrow> (expr_state, VALUE) expr_m
    \<Rightarrow> (VALUE \<Rightarrow> VALUE \<Rightarrow> nat \<Rightarrow> (bb_msg list, VALUE) expr_m) \<Rightarrow> nat \<Rightarrow> VALUE \<Rightarrow> (expr_state, VALUE) expr_m" where
  "op_loop next_op operand combine 0 l = (\<lambda>_. Inl Out_Of_Fuel)"
| "op_loop next_op operand combine (Suc n) l = look (\<lambda>st.
     if next_op st = 0 then ret l
     else bind next_arg (\<lambda>_. bind operand (\<lambda>r. bind (lift_msgs (combine l r (next_op st)))
            (op_loop next_op operand combine n))))"

text \<open>The operator of the next token, of those in \<open>ops\<close>.\<close>

fun first_op :: "string list \<Rightarrow> expr_state \<Rightarrow> nat" where
  "first_op [] st = 0"
| "first_op (s # ss) st = (if nextarg s st \<noteq> 0 then nextarg s st else first_op ss st)"

definition arith_value :: "VALUE \<Rightarrow> VALUE \<Rightarrow> nat \<Rightarrow> (bb_msg list, VALUE) expr_m" where
  "arith_value l r opc = bind (arithmetic_common l r opc) (\<lambda>v. ret (int_value v))"

definition cmp_value :: "VALUE \<Rightarrow> VALUE \<Rightarrow> nat \<Rightarrow> VALUE" where
  "cmp_value l r opc = int_value (if cmp_common (snd (toarith l)) (snd (toarith r)) opc then 1 else 0)"

definition and_value :: "VALUE \<Rightarrow> VALUE \<Rightarrow> VALUE" where
  "and_value l r = (if null_value l \<or> null_value r then int_value 0 else l)"

definition or_value :: "VALUE \<Rightarrow> VALUE \<Rightarrow> VALUE" where
  "or_value l r = (if null_value l then r else l)"

definition eval5 :: "regcomp \<Rightarrow> (expr_state, VALUE) expr_m \<Rightarrow> nat \<Rightarrow> (expr_state, VALUE) expr_m" where
  "eval5 rc ev n = bind (eval6 rc ev n)
     (op_loop (nextarg '':'') (eval6 rc ev n) (\<lambda>l r _. docolon rc l r) n)"

definition eval4 :: "regcomp \<Rightarrow> (expr_state, VALUE) expr_m \<Rightarrow> nat \<Rightarrow> (expr_state, VALUE) expr_m" where
  "eval4 rc ev n = bind (eval5 rc ev n) (op_loop (first_op [''*'', ''/'', ''%'']) (eval5 rc ev n) arith_value n)"

definition eval3 :: "regcomp \<Rightarrow> (expr_state, VALUE) expr_m \<Rightarrow> nat \<Rightarrow> (expr_state, VALUE) expr_m" where
  "eval3 rc ev n = bind (eval4 rc ev n) (op_loop (first_op [''+'', ''-'']) (eval4 rc ev n) arith_value n)"

definition eval2 :: "regcomp \<Rightarrow> (expr_state, VALUE) expr_m \<Rightarrow> nat \<Rightarrow> (expr_state, VALUE) expr_m" where
  "eval2 rc ev n = bind (eval3 rc ev n)
     (op_loop (first_op [''<'', ''<='', ''='', ''=='', ''!='', ''>='', ''>'']) (eval3 rc ev n)
        (\<lambda>l r opc. ret (cmp_value l r opc)) n)"

definition eval1 :: "regcomp \<Rightarrow> (expr_state, VALUE) expr_m \<Rightarrow> nat \<Rightarrow> (expr_state, VALUE) expr_m" where
  "eval1 rc ev n = bind (eval2 rc ev n)
     (op_loop (nextarg ''&'') (eval2 rc ev n) (\<lambda>l r _. ret (and_value l r)) n)"

fun eval :: "regcomp \<Rightarrow> nat \<Rightarrow> (expr_state, VALUE) expr_m" where
  "eval rc 0 = (\<lambda>_. Inl Out_Of_Fuel)"
| "eval rc (Suc n) = bind (eval1 rc (eval rc n) n)
     (op_loop (nextarg ''|'') (eval1 rc (eval rc n) n) (\<lambda>l r _. ret (or_value l r)) n)"

text \<open>The outcome of the program: exit status and messages.\<close>

datatype expr_outcome = Exit int "bb_msg list" | Undefined_Behaviour | No_Fuel

definition expr_main :: "regcomp \<Rightarrow> byte list list \<Rightarrow> expr_outcome" where
  "expr_main rc argv =
     (if argv = [] then Exit 2 [Error_Msg (bytes_of ''too few arguments'')]
      else case bind (eval rc (length argv + 2))
             (\<lambda>v. look (\<lambda>st. if G_args st \<noteq> [] then syntax_error else ret v)) \<lparr>G_args = argv, G_msgs = []\<rparr>
        of Inl (Die ms) \<Rightarrow> Exit 2 ms
         | Inl Undefined \<Rightarrow> Undefined_Behaviour
         | Inl Out_Of_Fuel \<Rightarrow> No_Fuel
         | Inr (v, st) \<Rightarrow> Exit (if null_value v then 1 else 0) (G_msgs st @ [Print (tostring v @ [10])]))"

declare eval.simps [simp del] eval6.simps [simp del] op_loop.simps [simp del]

section \<open>Every run ends\<close>

lemmas run_defs = look_def ret_def bind_def die_def lift_msgs_def next_arg_def syntax_error_def take_arg_def

text \<open>The run does not want for fuel, and its result, if there is one, satisfies \<open>P\<close>.\<close>

definition ends :: "('s, 'a) expr_m \<Rightarrow> 's \<Rightarrow> ('a \<Rightarrow> 's \<Rightarrow> bool) \<Rightarrow> bool" where
  "ends m st P \<longleftrightarrow> (case m st of Inl e \<Rightarrow> e \<noteq> Out_Of_Fuel | Inr (v, st') \<Rightarrow> P v st')"

named_theorems ends_simps \<open>what the primitive computations do\<close>

lemma ends_bind [ends_simps]: "ends (bind m f) st P \<longleftrightarrow> ends m st (\<lambda>a s. ends (f a) s P)"
  by (auto simp: ends_def bind_def split: sum.splits)

lemma ends_ret [ends_simps]: "ends (ret a) st P \<longleftrightarrow> P a st"
  by (simp add: ends_def ret_def)

lemma ends_next_arg [ends_simps]: "ends next_arg st P \<longleftrightarrow> P () (st\<lparr>G_args := tl (G_args st)\<rparr>)"
  by (simp add: ends_def next_arg_def)

lemma ends_syntax_error [ends_simps]: "ends syntax_error st P"
  by (simp add: ends_def syntax_error_def lift_msgs_def die_def)

lemma ends_take_arg [ends_simps]:
  "ends take_arg st P \<longleftrightarrow> P (str_value (hd (G_args st))) (st\<lparr>G_args := tl (G_args st)\<rparr>)"
  by (simp add: ends_def run_defs)

lemma ends_look [ends_simps]: "ends (look f) st P \<longleftrightarrow> ends (f st) st P"
  by (simp add: ends_def look_def)

lemma ends_mono: "ends m st Q \<Longrightarrow> (\<And>v s. Q v s \<Longrightarrow> P v s) \<Longrightarrow> ends m st P"
  by (auto simp: ends_def split: sum.splits)

lemma ends_lift_msgs:
  assumes "\<And>ms. m ms \<noteq> Inl Out_Of_Fuel" and "\<And>v ms. P v (st\<lparr>G_msgs := ms\<rparr>)"
  shows "ends (lift_msgs m) st P"
  using assms(1) [of "G_msgs st"] assms(2) by (cases "m (G_msgs st)") (auto simp: ends_def lift_msgs_def)

text \<open>On at most \<open>k\<close> tokens the computation has fuel enough, and it uses up a token.\<close>

definition progress :: "(expr_state, 'a) expr_m \<Rightarrow> nat \<Rightarrow> bool" where
  "progress m k \<longleftrightarrow> (\<forall>st. length (G_args st) \<le> k \<longrightarrow> ends m st (\<lambda>_ s. length (G_args s) < length (G_args st)))"

lemma progressD:
  assumes "progress m k" and "length (G_args st) \<le> k"
    and "\<And>v s. length (G_args s) < length (G_args st) \<Longrightarrow> P v s"
  shows "ends m st P"
  using assms by (auto simp: progress_def intro: ends_mono)

text \<open>
  A level of binary operators: \<open>next_op\<close> sees an operator only if there is a token, and combining
  two values needs no fuel.
\<close>

locale op_level =
  fixes next_op :: "expr_state \<Rightarrow> nat"
    and combine :: "VALUE \<Rightarrow> VALUE \<Rightarrow> nat \<Rightarrow> (bb_msg list, VALUE) expr_m"
  assumes op_token: "next_op st \<noteq> 0 \<Longrightarrow> G_args st \<noteq> []"
    and combine_fuel: "combine l r opc ms \<noteq> Inl Out_Of_Fuel"
begin

lemma op_loop_ends:
  assumes "progress operand k"
  shows "length (G_args st) \<le> k \<Longrightarrow> length (G_args st) < n \<Longrightarrow>
    (\<And>v s. length (G_args s) \<le> length (G_args st) \<Longrightarrow> P v s) \<Longrightarrow>
    ends (op_loop next_op operand combine n l) st P"
proof (induction n arbitrary: l st)
  case 0
  then show ?case by simp
next
  case (Suc n)
  let ?st = "st\<lparr>G_args := tl (G_args st)\<rparr>"
  have "ends operand ?st (\<lambda>r s. ends (bind (lift_msgs (combine l r (next_op st))) (op_loop next_op operand combine n)) s P)"
    if "next_op st \<noteq> 0"
  proof (rule progressD [OF assms])
    show "length (G_args ?st) \<le> k" using Suc.prems by simp
    show "ends (bind (lift_msgs (combine l r (next_op st))) (op_loop next_op operand combine n)) s P"
      if "length (G_args s) < length (G_args ?st)" for r s
      unfolding ends_bind using that Suc.prems combine_fuel
      by (intro ends_lift_msgs Suc.IH) auto
  qed
  then show ?case
    using Suc.prems by (simp add: op_loop.simps ends_simps)
qed

lemma level_progress:
  assumes "progress operand k" and "k < n"
  shows "progress (bind operand (op_loop next_op operand combine n)) k"
  unfolding progress_def ends_bind
  using assms by (auto intro!: progressD [OF assms(1)] op_loop_ends [OF assms(1)])

end

lemma nextarg_token: "nextarg s st \<noteq> 0 \<Longrightarrow> G_args st \<noteq> []"
  by (auto simp: nextarg_def)

lemma first_op_token: "first_op ss st \<noteq> 0 \<Longrightarrow> G_args st \<noteq> []"
  by (induction ss) (auto simp: nextarg_def split: if_splits)

lemma docolon_fuel: "docolon rc l r ms \<noteq> Inl Out_Of_Fuel"
  by (auto simp: docolon_def xregcomp_def run_defs Let_def split: sum.splits)

lemma arith_value_fuel: "arith_value l r opc ms \<noteq> Inl Out_Of_Fuel"
  by (auto simp: arith_value_def arithmetic_common_def arith_result_def run_defs
      split: VALUE.splits bool.splits prod.splits sum.splits if_splits)

interpretation colon: op_level "nextarg '':''" "\<lambda>l r _. docolon rc l r" for rc
  by unfold_locales (simp_all add: nextarg_token docolon_fuel)

interpretation factors: op_level "first_op [''*'', ''/'', ''%'']" arith_value
  by unfold_locales (simp_all add: first_op_token arith_value_fuel del: first_op.simps)

interpretation terms: op_level "first_op [''+'', ''-'']" arith_value
  by unfold_locales (simp_all add: first_op_token arith_value_fuel del: first_op.simps)

interpretation comparisons: op_level "first_op [''<'', ''<='', ''='', ''=='', ''!='', ''>='', ''>'']"
    "\<lambda>l r opc. ret (cmp_value l r opc)"
  by unfold_locales (simp_all add: first_op_token ret_def del: first_op.simps)

interpretation conjunction: op_level "nextarg ''&''" "\<lambda>l r _. ret (and_value l r)"
  by unfold_locales (simp_all add: nextarg_token ret_def)

interpretation disjunction: op_level "nextarg ''|''" "\<lambda>l r _. ret (or_value l r)"
  by unfold_locales (simp_all add: nextarg_token ret_def)

lemma token_used: "xs \<noteq> [] \<Longrightarrow> length xs \<le> k \<Longrightarrow> 0 < k \<and> length xs - Suc 0 < k"
  by (cases xs) auto

lemma eval7_progress:
  assumes "\<And>i. i < k \<Longrightarrow> progress ev i"
  shows "progress (eval7 ev) k"
proof -
  have sub: "ends ev (st\<lparr>G_args := tl (G_args st)\<rparr>) P"
    if "length (G_args st) \<le> k" "G_args st \<noteq> []" "\<And>v s. length (G_args s) < length (G_args st) \<Longrightarrow> P v s" for st P
    using that by (intro progressD [OF assms, of "length (G_args st) - 1"]) (auto dest: token_used)
  show ?thesis
    unfolding progress_def eval7_def ends_simps by (auto simp: ends_simps intro!: sub)
qed

lemma eval6_progress:
  assumes "\<And>i. i < k \<Longrightarrow> progress ev i" and "k < n"
  shows "progress (eval6 rc ev n) k"
  using assms
proof (induction n arbitrary: k)
  case 0
  then show ?case by simp
next
  case (Suc n)
  have sub: "ends (eval6 rc ev n) s P"
    if "length (G_args s) < k" "\<And>v s'. length (G_args s') < length (G_args s) \<Longrightarrow> P v s'" for s P
    using that Suc.prems by (intro progressD [OF Suc.IH, of "length (G_args s)"]) auto
  have e7: "ends (eval7 ev) s P"
    if "length (G_args s) \<le> k" "\<And>v s'. length (G_args s') < length (G_args s) \<Longrightarrow> P v s'" for s P
    using that by (intro progressD [OF eval7_progress, of k]) (auto intro: Suc.prems)
  show ?case
    unfolding progress_def eval6.simps ends_simps Let_def
    by (auto simp: ends_simps docolon_fuel dest: token_used intro!: e7 sub ends_lift_msgs)
qed

lemma eval_progress: "k + 2 \<le> n \<Longrightarrow> progress (eval rc n) k"
proof (induction n arbitrary: k)
  case 0
  then show ?case by simp
next
  case (Suc n)
  have "progress (eval6 rc (eval rc n) n) k"
    using Suc by (intro eval6_progress) auto
  then have "progress (eval1 rc (eval rc n) n) k"
    using Suc.prems unfolding eval1_def eval2_def eval3_def eval4_def eval5_def
    by (intro conjunction.level_progress comparisons.level_progress terms.level_progress
        factors.level_progress colon.level_progress) auto
  then show ?case
    using Suc.prems unfolding eval.simps by (intro disjunction.level_progress) auto
qed

section \<open>Expressions and their trees\<close>

datatype binop = Or | And | Lt | Le | Eq | EqEq | Ne | Ge | Gt | Add | Sub | Mul | Div | Mod | Colon

primrec op_str :: "binop \<Rightarrow> string" where
  "op_str Or = ''|''" | "op_str And = ''&''"
| "op_str Lt = ''<''" | "op_str Le = ''<=''" | "op_str Eq = ''=''" | "op_str EqEq = ''==''"
| "op_str Ne = ''!=''" | "op_str Ge = ''>=''" | "op_str Gt = ''>''"
| "op_str Add = ''+''" | "op_str Sub = ''-''"
| "op_str Mul = ''*''" | "op_str Div = ''/''" | "op_str Mod = ''%''" | "op_str Colon = '':''"

text \<open>How tightly the operator binds.\<close>

primrec op_prec :: "binop \<Rightarrow> nat" where
  "op_prec Or = 0" | "op_prec And = 1"
| "op_prec Lt = 2" | "op_prec Le = 2" | "op_prec Eq = 2" | "op_prec EqEq = 2"
| "op_prec Ne = 2" | "op_prec Ge = 2" | "op_prec Gt = 2"
| "op_prec Add = 3" | "op_prec Sub = 3"
| "op_prec Mul = 4" | "op_prec Div = 4" | "op_prec Mod = 4" | "op_prec Colon = 5"

datatype expr = Tok "byte list" | Quote "byte list" | Length expr | Match expr expr | Index expr expr
  | Substr expr expr expr | Op binop expr expr

text \<open>A token that stands for itself is neither a parenthesis nor a keyword.\<close>

fun wf_expr :: "expr \<Rightarrow> bool" where
  "wf_expr (Tok s) \<longleftrightarrow> s \<notin> set (map bytes_of [''('', '')'', ''quote'', ''length'', ''match'', ''index'', ''substr''])"
| "wf_expr (Quote s) \<longleftrightarrow> True"
| "wf_expr (Length x) \<longleftrightarrow> wf_expr x"
| "wf_expr (Match x y) \<longleftrightarrow> wf_expr x \<and> wf_expr y"
| "wf_expr (Index x y) \<longleftrightarrow> wf_expr x \<and> wf_expr y"
| "wf_expr (Substr x y z) \<longleftrightarrow> wf_expr x \<and> wf_expr y \<and> wf_expr z"
| "wf_expr (Op b x y) \<longleftrightarrow> wf_expr x \<and> wf_expr y"

text \<open>
  The tokens of an expression in a place for operators that bind at least as tightly as \<open>k\<close>.
  Operators associate to the left; parentheses are written where they are needed only.
\<close>

fun toks :: "nat \<Rightarrow> expr \<Rightarrow> byte list list" where
  "toks k (Tok s) = [s]"
| "toks k (Quote s) = [bytes_of ''quote'', s]"
| "toks k (Length x) = bytes_of ''length'' # toks 6 x"
| "toks k (Match x y) = bytes_of ''match'' # toks 6 x @ toks 6 y"
| "toks k (Index x y) = bytes_of ''index'' # toks 6 x @ toks 6 y"
| "toks k (Substr x y z) = bytes_of ''substr'' # toks 6 x @ toks 6 y @ toks 6 z"
| "toks k (Op b x y) =
     (let ts = toks (op_prec b) x @ bytes_of (op_str b) # toks (Suc (op_prec b)) y
      in if op_prec b < k then bytes_of ''('' # ts @ [bytes_of '')''] else ts)"

text \<open>Numbers: the operands of an arithmetic operator; a comparison is of numbers if both operands are.\<close>

definition number :: "VALUE \<Rightarrow> int option" where
  "number v = (case snd (toarith v) of INTEGER i \<Rightarrow> Some i | STRING _ \<Rightarrow> None)"

definition numbers :: "(int \<Rightarrow> int \<Rightarrow> (bb_msg list, int) expr_m) \<Rightarrow> VALUE \<Rightarrow> VALUE \<Rightarrow> (bb_msg list, VALUE) expr_m" where
  "numbers f l r = (case (number l, number r) of
       (Some i, Some j) \<Rightarrow> bind (f i j) (\<lambda>v. ret (INTEGER v))
     | _ \<Rightarrow> die (bytes_of ''non-numeric argument''))"

definition divides :: "(int \<Rightarrow> int \<Rightarrow> int) \<Rightarrow> int \<Rightarrow> int \<Rightarrow> (bb_msg list, int) expr_m" where
  "divides f i j =
     (if j = 0 then die (bytes_of ''division by zero'')
      else if arith_range (i sdiv j) then ret (f i j) else (\<lambda>_. Inl Undefined))"

definition compares :: "(int \<Rightarrow> int \<Rightarrow> bool) \<Rightarrow> VALUE \<Rightarrow> VALUE \<Rightarrow> (bb_msg list, VALUE) expr_m" where
  "compares f l r = ret (INTEGER (if (case (number l, number r) of
       (Some i, Some j) \<Rightarrow> f i j
     | _ \<Rightarrow> f (strcmp (tostring (snd (toarith l))) (tostring (snd (toarith r)))) 0) then 1 else 0))"

primrec op_value :: "regcomp \<Rightarrow> binop \<Rightarrow> VALUE \<Rightarrow> VALUE \<Rightarrow> (bb_msg list, VALUE) expr_m" where
  "op_value rc Or = (\<lambda>l r. ret (if null_value l then r else l))"
| "op_value rc And = (\<lambda>l r. ret (if null_value l \<or> null_value r then INTEGER 0 else l))"
| "op_value rc Lt = compares (<)"
| "op_value rc Le = compares (\<le>)"
| "op_value rc Eq = compares (=)"
| "op_value rc EqEq = compares (=)"
| "op_value rc Ne = compares (\<noteq>)"
| "op_value rc Ge = compares (\<ge>)"
| "op_value rc Gt = compares (>)"
| "op_value rc Add = numbers (\<lambda>i j. arith_result (i + j))"
| "op_value rc Sub = numbers (\<lambda>i j. arith_result (i - j))"
| "op_value rc Mul = numbers (\<lambda>i j. arith_result (i * j))"
| "op_value rc Div = numbers (divides (\<lambda>i j. i sdiv j))"
| "op_value rc Mod = numbers (divides (\<lambda>i j. i smod j))"
| "op_value rc Colon = docolon rc"

text \<open>The value of a tree, with the operations of the program, operands from left to right.\<close>

primrec tree_value :: "regcomp \<Rightarrow> expr \<Rightarrow> (bb_msg list, VALUE) expr_m" where
  "tree_value rc (Tok s) = ret (STRING s)"
| "tree_value rc (Quote s) = ret (STRING s)"
| "tree_value rc (Length x) = bind (tree_value rc x) (\<lambda>v. ret (length_value v))"
| "tree_value rc (Match x y) = bind (tree_value rc x) (\<lambda>l. bind (tree_value rc y) (\<lambda>r. docolon rc l r))"
| "tree_value rc (Index x y) = bind (tree_value rc x) (\<lambda>l. bind (tree_value rc y) (\<lambda>r. ret (index_value l r)))"
| "tree_value rc (Substr x y z) =
     bind (tree_value rc x) (\<lambda>l. bind (tree_value rc y) (\<lambda>i1. bind (tree_value rc z) (\<lambda>i2. ret (substr_value l i1 i2))))"
| "tree_value rc (Op b x y) = bind (tree_value rc x) (\<lambda>l. bind (tree_value rc y) (\<lambda>r. op_value rc b l r))"

section \<open>Parsing what has been printed\<close>

text \<open>The levels of the parser, as a family.\<close>

definition level_strs :: "nat \<Rightarrow> string list" where
  "level_strs k = [[''|''], [''&''], [''<'', ''<='', ''='', ''=='', ''!='', ''>='', ''>''], [''+'', ''-''],
     [''*'', ''/'', ''%''], ['':'']] ! k"

definition level_op :: "regcomp \<Rightarrow> nat \<Rightarrow> VALUE \<Rightarrow> VALUE \<Rightarrow> nat \<Rightarrow> (bb_msg list, VALUE) expr_m" where
  "level_op rc k = [\<lambda>l r _. ret (or_value l r), \<lambda>l r _. ret (and_value l r), \<lambda>l r opc. ret (cmp_value l r opc),
     arith_value, arith_value, \<lambda>l r _. docolon rc l r] ! k"

definition eval_at :: "regcomp \<Rightarrow> (expr_state, VALUE) expr_m \<Rightarrow> nat \<Rightarrow> nat \<Rightarrow> (expr_state, VALUE) expr_m" where
  "eval_at rc ev n k = [bind (eval1 rc ev n)
     (op_loop (nextarg ''|'') (eval1 rc ev n) (\<lambda>l r _. ret (or_value l r)) n),
     eval1 rc ev n, eval2 rc ev n, eval3 rc ev n, eval4 rc ev n, eval5 rc ev n, eval6 rc ev n] ! k"

definition loop_at :: "regcomp \<Rightarrow> (expr_state, VALUE) expr_m \<Rightarrow> nat \<Rightarrow> nat \<Rightarrow> nat \<Rightarrow> VALUE \<Rightarrow> (expr_state, VALUE) expr_m" where
  "loop_at rc ev n k m = (if k = 6 then ret else op_loop (first_op (level_strs k)) (eval_at rc ev n (Suc k)) (level_op rc k) m)"

lemma bytes_of_eq [simp]: "bytes_of s = bytes_of t \<longleftrightarrow> s = t"
  by (metis string_of_bytes)

lemma first_op_one: "first_op [s] = nextarg s"
  by (simp add: fun_eq_iff)

lemma level_cases:
  fixes k :: nat
  assumes "k < 6"
  obtains "k = 0" | "k = 1" | "k = 2" | "k = 3" | "k = 4" | "k = 5"
  using assms by linarith

lemma eval_at_level:
  assumes "k < 6"
  shows "eval_at rc ev n k = bind (eval_at rc ev n (Suc k)) (loop_at rc ev n k n)"
  using assms
  by (cases rule: level_cases)
    (simp_all add: eval_at_def loop_at_def level_strs_def level_op_def first_op_one eval1_def eval2_def eval3_def
      eval4_def eval5_def numeral_eq_Suc del: first_op.simps)

lemma toarith_number:
  obtains i where "toarith v = (True, INTEGER i)" and "number v = Some i"
  | s where "toarith v = (False, STRING s)" and "number v = None"
proof (cases v)
  case (INTEGER i)
  then show thesis using that(1) [of i] by (simp add: toarith_def number_def)
next
  case (STRING s)
  then show thesis
    using that(1) [of "sint (fst (strtoll 10 s))"] that(2) [of s]
    by (cases "strtoll 10 s"; cases "fst (snd (strtoll 10 s)) = s \<or> fst (snd (strtoll 10 s)) \<noteq> []")
      (auto simp: toarith_def number_def)
qed

lemma toarith_of_number: "number v = Some i \<Longrightarrow> toarith v = (True, INTEGER i)"
  by (cases v rule: toarith_number) simp_all

definition op_code :: "binop \<Rightarrow> nat" where
  "op_code b = nextarg (op_str b) \<lparr>G_args = [bytes_of (op_str b)], G_msgs = []\<rparr>"

lemma op_codes [simp]:
  "op_code Or = 124" "op_code And = 38" "op_code Lt = 60" "op_code Le = 121" "op_code Eq = 61"
  "op_code EqEq = 122" "op_code Ne = 94" "op_code Ge = 123" "op_code Gt = 62" "op_code Add = 43"
  "op_code Sub = 45" "op_code Mul = 42" "op_code Div = 47" "op_code Mod = 37" "op_code Colon = 58"
  by (simp_all add: op_code_def nextarg_def char_at_def bytes_of_def)

lemma op_code_pos [simp]: "op_code b \<noteq> 0"
  by (cases b) simp_all

lemma cmp_value_op:
  assumes "op_prec b = 2"
  shows "ret (cmp_value l r (op_code b)) = op_value rc b l r"
proof (cases l rule: toarith_number)
  case l: (1 i)
  then show ?thesis
    using assms by (cases r rule: toarith_number; cases b)
      (auto simp: cmp_value_def cmp_common_def compares_def int_value_def)
next
  case l: (2 s)
  then show ?thesis
    using assms by (cases r rule: toarith_number; cases b)
      (auto simp: cmp_value_def cmp_common_def compares_def int_value_def)
qed

lemma arith_value_op:
  assumes "op_prec b = 3 \<or> op_prec b = 4"
  shows "arith_value l r (op_code b) = op_value rc b l r"
proof (cases l rule: toarith_number)
  case l: (1 i)
  then show ?thesis
    using assms by (cases r rule: toarith_number; cases b)
      (auto simp: arith_value_def arithmetic_common_def numbers_def divides_def int_value_def
        arith_result_def bind_def ret_def die_def fun_eq_iff)
next
  case l: (2 s)
  then show ?thesis
    using assms by (cases r rule: toarith_number; cases b)
      (auto simp: arith_value_def arithmetic_common_def numbers_def bind_def die_def fun_eq_iff)
qed

lemma level_value: "level_op rc (op_prec b) l r (op_code b) = op_value rc b l r"
  using cmp_value_op [of b l r rc] arith_value_op [of b l r rc]
  by (cases b) (simp_all add: level_op_def or_value_def and_value_def int_value_def numeral_eq_Suc)

lemma nextarg_str: "nextarg s \<lparr>G_args = bytes_of t # ts, G_msgs = ms\<rparr> =
    (if s = t then nextarg t \<lparr>G_args = [bytes_of t], G_msgs = []\<rparr> else 0)"
  by (simp add: nextarg_def)

lemma first_op_level:
  assumes "k < 6"
  shows "first_op (level_strs k) \<lparr>G_args = bytes_of (op_str b) # ts, G_msgs = ms\<rparr> = (if op_prec b = k then op_code b else 0)"
  unfolding op_code_def using assms op_code_pos [of b, unfolded op_code_def]
  by (cases rule: level_cases; cases b) (simp_all add: level_strs_def nextarg_str [of _ _ ts])

text \<open>What follows an expression must not go on with an operator that binds tighter.\<close>

definition stops :: "nat \<Rightarrow> byte list list \<Rightarrow> bool" where
  "stops k ts \<longleftrightarrow> (\<forall>j < 6. k \<le> j \<longrightarrow> (\<forall>ms. first_op (level_strs j) \<lparr>G_args = ts, G_msgs = ms\<rparr> = 0))"

definition parses :: "regcomp \<Rightarrow> expr \<Rightarrow> nat \<Rightarrow> bool" where
  "parses rc x k \<longleftrightarrow> (\<forall>ts n j ms. stops (Suc k) ts \<longrightarrow> length (toks k x @ ts) < n \<longrightarrow> length (toks k x @ ts) < j \<longrightarrow>
     (\<exists>m > length ts. eval_at rc (eval rc n) j k \<lparr>G_args = toks k x @ ts, G_msgs = ms\<rparr> =
       (case tree_value rc x ms of
          Inl e \<Rightarrow> Inl e
        | Inr (v, ms') \<Rightarrow> loop_at rc (eval rc n) j k m v \<lparr>G_args = ts, G_msgs = ms'\<rparr>)))"

lemma parsesI:
  assumes "\<And>ts n j ms. stops (Suc k) ts \<Longrightarrow> length (toks k x @ ts) < n \<Longrightarrow> length (toks k x @ ts) < j \<Longrightarrow>
     \<exists>m > length ts. eval_at rc (eval rc n) j k \<lparr>G_args = toks k x @ ts, G_msgs = ms\<rparr> =
       (case tree_value rc x ms of
          Inl e \<Rightarrow> Inl e
        | Inr (v, ms') \<Rightarrow> loop_at rc (eval rc n) j k m v \<lparr>G_args = ts, G_msgs = ms'\<rparr>)"
  shows "parses rc x k"
  using assms by (simp add: parses_def)

lemma loop_stops:
  assumes "stops k ts" and "0 < m" and "k \<le> 6"
  shows "loop_at rc ev j k m v \<lparr>G_args = ts, G_msgs = ms\<rparr> = Inr (v, \<lparr>G_args = ts, G_msgs = ms\<rparr>)"
  using assms by (cases m) (auto simp: loop_at_def op_loop.simps look_def ret_def stops_def)

lemma parsesD:
  assumes "parses rc x k" and "stops k ts" and "k \<le> 6" and "length (toks k x @ ts) < n" and "length (toks k x @ ts) < j"
  shows "eval_at rc (eval rc n) j k \<lparr>G_args = toks k x @ ts, G_msgs = ms\<rparr> =
       (case tree_value rc x ms of
          Inl e \<Rightarrow> Inl e
        | Inr (v, ms') \<Rightarrow> Inr (v, \<lparr>G_args = ts, G_msgs = ms'\<rparr>))"
proof -
  have "stops (Suc k) ts" using assms(2) by (auto simp: stops_def)
  then obtain m where "m > length ts" "eval_at rc (eval rc n) j k \<lparr>G_args = toks k x @ ts, G_msgs = ms\<rparr> =
       (case tree_value rc x ms of
          Inl e \<Rightarrow> Inl e
        | Inr (v, ms') \<Rightarrow> loop_at rc (eval rc n) j k m v \<lparr>G_args = ts, G_msgs = ms'\<rparr>)"
    using assms unfolding parses_def by blast
  then show ?thesis
    using loop_stops [OF assms(2) _ assms(3), of m] by (simp split: sum.splits prod.splits)
qed

lemma parses_down:
  assumes "parses rc x (Suc k)" and "k < 6" and "toks k x = toks (Suc k) x"
  shows "parses rc x k"
proof (rule parsesI)
  fix ts n j ms
  assume "stops (Suc k) ts" and "length (toks k x @ ts) < n" and j: "length (toks k x @ ts) < j"
  then have "eval_at rc (eval rc n) j (Suc k) \<lparr>G_args = toks k x @ ts, G_msgs = ms\<rparr> =
       (case tree_value rc x ms of
          Inl e \<Rightarrow> Inl e
        | Inr (v, ms') \<Rightarrow> Inr (v, \<lparr>G_args = ts, G_msgs = ms'\<rparr>))"
    using parsesD [OF assms(1), of ts n j ms] assms(2,3) by simp
  then have "eval_at rc (eval rc n) j k \<lparr>G_args = toks k x @ ts, G_msgs = ms\<rparr> =
       (case tree_value rc x ms of
          Inl e \<Rightarrow> Inl e
        | Inr (v, ms') \<Rightarrow> loop_at rc (eval rc n) j k j v \<lparr>G_args = ts, G_msgs = ms'\<rparr>)"
    by (simp add: eval_at_level [OF assms(2)] bind_def split: sum.splits prod.splits)
  then show "\<exists>m > length ts. eval_at rc (eval rc n) j k \<lparr>G_args = toks k x @ ts, G_msgs = ms\<rparr> =
       (case tree_value rc x ms of
          Inl e \<Rightarrow> Inl e
        | Inr (v, ms') \<Rightarrow> loop_at rc (eval rc n) j k m v \<lparr>G_args = ts, G_msgs = ms'\<rparr>)"
    using j by (intro exI [of _ j]) simp
qed

lemma stops_op: "op_prec b = k \<Longrightarrow> stops (Suc k) (bytes_of (op_str b) # ts)"
  by (simp add: stops_def first_op_level)

lemma parses_op:
  assumes "parses rc x (op_prec b)" and "parses rc y (Suc (op_prec b))"
  shows "parses rc (Op b x y) (op_prec b)"
proof (rule parsesI)
  let ?k = "op_prec b"
  fix ts n j ms
  let ?ts = "bytes_of (op_str b) # toks (Suc ?k) y @ ts"
  assume stop: "stops (Suc ?k) ts" and len: "length (toks ?k (Op b x y) @ ts) < n" "length (toks ?k (Op b x y) @ ts) < j"
  have k: "?k < 6" by (cases b) simp_all
  let ?ev = "eval rc n"
  obtain m where m: "m > length ?ts" "eval_at rc ?ev j ?k \<lparr>G_args = toks ?k x @ ?ts, G_msgs = ms\<rparr> =
       (case tree_value rc x ms of
          Inl e \<Rightarrow> Inl e
        | Inr (v, ms') \<Rightarrow> loop_at rc ?ev j ?k m v \<lparr>G_args = ?ts, G_msgs = ms'\<rparr>)"
    using assms(1) stops_op [of b ?k "toks (Suc ?k) y @ ts"] len unfolding parses_def by fastforce
  obtain m' where m': "m = Suc m'" using m(1) by (cases m) auto
  have y: "eval_at rc ?ev j (Suc ?k) \<lparr>G_args = toks (Suc ?k) y @ ts, G_msgs = ms'\<rparr> =
       (case tree_value rc y ms' of
          Inl e \<Rightarrow> Inl e
        | Inr (v, ms') \<Rightarrow> Inr (v, \<lparr>G_args = ts, G_msgs = ms'\<rparr>))" for ms'
    using k len by (intro parsesD [OF assms(2) stop]) auto
  have "loop_at rc ?ev j ?k m v \<lparr>G_args = ?ts, G_msgs = ms'\<rparr> =
      (case bind (tree_value rc y) (op_value rc b v) ms' of
          Inl e \<Rightarrow> Inl e
        | Inr (v, ms') \<Rightarrow> loop_at rc ?ev j ?k m' v \<lparr>G_args = ts, G_msgs = ms'\<rparr>)" for v ms'
    using k by (simp add: m' loop_at_def op_loop.simps look_def first_op_level bind_def next_arg_def y lift_msgs_def level_value
        split: sum.splits prod.splits)
  then show "\<exists>m > length ts. eval_at rc ?ev j ?k \<lparr>G_args = toks ?k (Op b x y) @ ts, G_msgs = ms\<rparr> =
       (case tree_value rc (Op b x y) ms of
          Inl e \<Rightarrow> Inl e
        | Inr (v, ms') \<Rightarrow> loop_at rc ?ev j ?k m v \<lparr>G_args = ts, G_msgs = ms'\<rparr>)"
    using m m' by (intro exI [of _ m']) (simp add: bind_def split: sum.splits prod.splits)
qed


lemma nextarg_paren:
  "nextarg ''('' \<lparr>G_args = bytes_of ''('' # ts, G_msgs = ms\<rparr> \<noteq> 0"
  "nextarg '')'' \<lparr>G_args = bytes_of '')'' # ts, G_msgs = ms\<rparr> \<noteq> 0"
  by (simp_all add: nextarg_def char_at_def bytes_of_def)

lemma stops_paren: "stops k (bytes_of '')'' # ts)"
proof -
  have "first_op (level_strs j) \<lparr>G_args = bytes_of '')'' # ts, G_msgs = ms\<rparr> = 0" if "j < 6" for j ms
    using that by (cases rule: level_cases) (simp_all add: level_strs_def nextarg_def)
  then show ?thesis by (simp add: stops_def)
qed

lemma keyword_index:
  "index_in_strings expr_keywords (bytes_of ''('') = - 1"
  "index_in_strings expr_keywords (bytes_of ''quote'') = 0"
  "index_in_strings expr_keywords (bytes_of ''length'') = 1"
  "index_in_strings expr_keywords (bytes_of ''match'') = 2"
  "index_in_strings expr_keywords (bytes_of ''index'') = 3"
  "index_in_strings expr_keywords (bytes_of ''substr'') = 4"
  by (simp_all add: expr_keywords_def Let_def)

lemma no_keyword: "s \<notin> set (map bytes_of ss) \<Longrightarrow> index_in_strings ss s = - 1"
  by (induction ss) auto

text \<open>At the level of \<open>eval6\<close>, which has no loop.\<close>

lemma eval_at_6: "eval_at rc ev j 6 = eval6 rc ev j"
  by (simp add: eval_at_def)

lemma parses_6I:
  assumes "\<And>ts n j ms. length (toks 6 x @ ts) < n \<Longrightarrow> length (toks 6 x @ ts) \<le> j \<Longrightarrow>
     eval6 rc (eval rc n) (Suc j) \<lparr>G_args = toks 6 x @ ts, G_msgs = ms\<rparr> =
       (case tree_value rc x ms of Inl e \<Rightarrow> Inl e | Inr (v, ms') \<Rightarrow> Inr (v, \<lparr>G_args = ts, G_msgs = ms'\<rparr>))"
  shows "parses rc x 6"
proof (rule parsesI)
  fix ts n j ms
  assume "length (toks 6 x @ ts) < n" and j: "length (toks 6 x @ ts) < j"
  then show "\<exists>m > length ts. eval_at rc (eval rc n) j 6 \<lparr>G_args = toks 6 x @ ts, G_msgs = ms\<rparr> =
       (case tree_value rc x ms of
          Inl e \<Rightarrow> Inl e
        | Inr (v, ms') \<Rightarrow> loop_at rc (eval rc n) j 6 m v \<lparr>G_args = ts, G_msgs = ms'\<rparr>)"
    using assms [of ts n "j - 1" ms]
    by (intro exI [of _ j]) (simp add: eval_at_6 loop_at_def ret_def split: sum.splits)
qed

lemma parses_6D:
  assumes "parses rc x 6" and "length (toks 6 x @ ts) < n" and "length (toks 6 x @ ts) < j"
  shows "eval6 rc (eval rc n) j \<lparr>G_args = toks 6 x @ ts, G_msgs = ms\<rparr> =
    (case tree_value rc x ms of Inl e \<Rightarrow> Inl e | Inr (v, ms') \<Rightarrow> Inr (v, \<lparr>G_args = ts, G_msgs = ms'\<rparr>))"
  using parsesD [OF assms(1) _ _ assms(2,3), of ms] by (simp add: stops_def eval_at_6)

lemma parses_tok:
  assumes "wf_expr (Tok s)"
  shows "parses rc (Tok s) 6"
  using assms no_keyword [of s expr_keywords]
  by (intro parses_6I) (auto simp: expr_keywords_def eval6.simps eval7_def look_def take_arg_def bind_def next_arg_def ret_def nextarg_def str_value_def)

lemma parses_quote: "parses rc (Quote s) 6"
  by (intro parses_6I) (auto simp: eval6.simps keyword_index look_def take_arg_def bind_def next_arg_def ret_def str_value_def)

lemmas keyword_step = eval6.simps keyword_index look_def bind_def next_arg_def ret_def lift_msgs_def

lemma parses_length:
  assumes "parses rc x 6"
  shows "parses rc (Length x) 6"
proof (rule parses_6I)
  fix ts n j ms
  assume len: "length (toks 6 (Length x) @ ts) < n" "length (toks 6 (Length x) @ ts) \<le> j"
  show "eval6 rc (eval rc n) (Suc j) \<lparr>G_args = toks 6 (Length x) @ ts, G_msgs = ms\<rparr> =
       (case tree_value rc (Length x) ms of Inl e \<Rightarrow> Inl e | Inr (v, ms') \<Rightarrow> Inr (v, \<lparr>G_args = ts, G_msgs = ms'\<rparr>))"
    using len by (simp add: keyword_step parses_6D [OF assms] split: sum.splits prod.splits)
qed

lemma parses_binary:
  assumes "parses rc x 6" and "parses rc y 6"
  shows "parses rc (Match x y) 6" and "parses rc (Index x y) 6"
proof (goal_cases)
  case 1
  show ?case
    by (rule parses_6I) (simp add: keyword_step parses_6D [OF assms(1)] parses_6D [OF assms(2)] split: sum.splits prod.splits)
next
  case 2
  show ?case
    by (rule parses_6I) (simp add: keyword_step parses_6D [OF assms(1)] parses_6D [OF assms(2)] split: sum.splits prod.splits)
qed

lemma parses_substr:
  assumes "parses rc x 6" and "parses rc y 6" and "parses rc z 6"
  shows "parses rc (Substr x y z) 6"
  by (rule parses_6I)
    (simp add: keyword_step parses_6D [OF assms(1)] parses_6D [OF assms(2)] parses_6D [OF assms(3)]
      split: sum.splits prod.splits)

text \<open>An expression in parentheses.\<close>

lemma parses_paren:
  assumes "parses rc (Op b x y) 0"
  shows "parses rc (Op b x y) 6"
proof (rule parses_6I)
  fix ts n j ms
  let ?e = "Op b x y"
  assume len: "length (toks 6 ?e @ ts) < n"
  have "op_prec b < 6" by (cases b) simp_all
  then have toks: "toks 6 ?e = bytes_of ''('' # toks 0 ?e @ [bytes_of '')'']"
    by (simp add: Let_def)
  obtain n' where n: "n = Suc n'" using len by (cases n) auto
  have "eval rc n \<lparr>G_args = toks 0 ?e @ bytes_of '')'' # ts, G_msgs = ms\<rparr> =
      (case tree_value rc ?e ms of Inl e \<Rightarrow> Inl e | Inr (v, ms') \<Rightarrow> Inr (v, \<lparr>G_args = bytes_of '')'' # ts, G_msgs = ms'\<rparr>))"
    using parsesD [OF assms stops_paren, of ts n' n' ms] len
    by (simp add: n toks eval_at_def eval.simps del: toks.simps tree_value.simps)
  then show "eval6 rc (eval rc n) (Suc j) \<lparr>G_args = toks 6 ?e @ ts, G_msgs = ms\<rparr> =
      (case tree_value rc ?e ms of Inl e \<Rightarrow> Inl e | Inr (v, ms') \<Rightarrow> Inr (v, \<lparr>G_args = ts, G_msgs = ms'\<rparr>))"
    by (simp add: toks keyword_step eval7_def nextarg_paren del: toks.simps tree_value.simps split: sum.splits prod.splits)
qed

lemma parses_below:
  assumes "parses rc x l" and "k \<le> l" and "l \<le> 6" and "\<And>i. k \<le> i \<Longrightarrow> i < l \<Longrightarrow> toks i x = toks (Suc i) x"
  shows "parses rc x k"
  using assms(2)
proof (induction rule: inc_induct)
  case base
  show ?case by (rule assms(1))
next
  case (step i)
  then show ?case using assms(3,4) by (intro parses_down [of rc x i]) auto
qed

lemma parses_all: "wf_expr x \<Longrightarrow> k \<le> 6 \<Longrightarrow> parses rc x k"
proof (induction x arbitrary: k)
  case (Op b x y)
  have b: "op_prec b < 6" by (cases b) simp_all
  have own: "parses rc (Op b x y) (op_prec b)"
    using Op b by (intro parses_op) auto
  have low: "parses rc (Op b x y) i" if "i \<le> op_prec b" for i
    using that b by (intro parses_below [OF own]) (auto simp: Let_def)
  show ?case
  proof (cases "k \<le> op_prec b")
    case False
    with Op.prems show ?thesis
      by (intro parses_below [OF parses_paren [OF low]]) (auto simp: Let_def)
  qed (rule low)
qed (auto intro: parses_below [OF parses_tok] parses_below [OF parses_quote] parses_below [OF parses_length]
    parses_below [OF parses_binary(1)] parses_below [OF parses_binary(2)] parses_below [OF parses_substr])

lemma toks_not_empty: "toks k x \<noteq> []"
  by (cases x) (simp_all add: Let_def)

lemma eval_toks:
  assumes "wf_expr x"
  shows "eval rc (Suc (Suc (length (toks 0 x)))) \<lparr>G_args = toks 0 x, G_msgs = []\<rparr> =
    (case tree_value rc x [] of Inl e \<Rightarrow> Inl e | Inr (v, ms) \<Rightarrow> Inr (v, \<lparr>G_args = [], G_msgs = ms\<rparr>))"
proof -
  let ?n = "Suc (length (toks 0 x))"
  have "eval rc (Suc ?n) = eval_at rc (eval rc ?n) ?n 0"
    by (simp add: eval_at_def eval.simps)
  moreover have "stops 0 []"
    using first_op_token by (fastforce simp: stops_def)
  ultimately show ?thesis
    using parsesD [OF parses_all [OF assms], of 0 "[]" ?n ?n rc "[]"] by simp
qed

section \<open>Integer expressions\<close>

lemma nat_digits_base: "nat_digits n = base_digits 10 n"
  by (induction n rule: nat_digits.induct) (subst nat_digits.simps, subst base_digits.simps, simp)

lemma strto_parse_decimal: "strto_parse 10 (decimal v) = Some (v < 0, nat \<bar>v\<bar>, [])"
proof -
  have stop: "\<not> digit_in 10 (char_at [] 0)" by (simp add: char_at_def digit_in_def c_digit_def)
  note pos = strto_parse_digits [OF _ _ stop, where n = "nat \<bar>v\<bar>", simplified]
  have d: "list_all (digit_in 10) (base_digits 10 n)" "digits_in 10 0 (base_digits 10 n) = (n, [])" "base_digits 10 n \<noteq> []" for n
    using base_digits_facts [of 10 n] by simp_all
  have "digit_in 10 (base_digits 10 n ! 0)" for n
    using d(1,3) [of n] by (cases "base_digits 10 n") auto
  then have "strto_parse 10 (0x2D # base_digits 10 n) = Some (True, n, [])" for n
    using d(2,3) [of n] by (simp add: strto_parse_def Let_def char_at_def is_space_def)
  then show ?thesis
    using pos(1) by (cases "v < 0") (simp_all add: decimal_def nat_digits_base)
qed

lemma number_decimal:
  assumes "arith_range v"
  shows "number (STRING (decimal v)) = Some v"
proof -
  have "decimal v \<noteq> []" using nat_digits_facts by (simp add: decimal_def)
  moreover have "sint (of_int v :: u64) = v"
    using assms by (simp add: arith_range_def signed_of_int signed_take_bit_int_eq_self)
  moreover have "fst (strtoll 10 (decimal v)) = of_int v" "fst (snd (strtoll 10 (decimal v))) = []"
    using assms by (auto simp: strtoll_def strto_parse_decimal arith_range_def)
  ultimately show ?thesis
    by (cases "strtoll 10 (decimal v)") (simp add: number_def toarith_def)
qed

lemma null_decimal: "null_value (STRING (decimal v)) \<longleftrightarrow> v = 0"
proof (cases "v < 0")
  case True
  then show ?thesis by (simp add: null_value_def decimal_def char_at_def)
next
  case False
  define ds where "ds = nat_digits (nat v)"
  have ds: "list_all is_digit ds" "ds \<noteq> []" "digits_val 0 ds = v"
    using nat_digits_facts [of "nat v"] False by (simp_all add: ds_def)
  then have nz: "char_at ds i \<noteq> 0" if "i < length ds" for i
    using that by (auto simp: char_at_def list_all_length is_digit_def word_le_nat_alt)
  have "v = 0" if "char_at ds 0 = 0x30" "char_at ds 1 = 0"
  proof -
    have "length ds = 1" using nz [of 1] that(2) ds(2) by (cases ds; cases "tl ds") auto
    then have "ds = [0x30]" using that(1) by (cases ds) (auto simp: char_at_def)
    then show "v = 0" using ds(3) by (simp add: is_digit_def)
  qed
  moreover have "char_at ds 0 \<noteq> 0" using nz [of 0] ds(2) by simp
  ultimately have "v = 0" if "null_value (STRING ds)"
    using that by (simp add: null_value_def)
  moreover have "nat_digits 0 = [0x30]" by (subst nat_digits.simps) simp
  then have "null_value (STRING ds)" if "v = 0"
    using that by (simp add: null_value_def ds_def char_at_def)
  moreover have "decimal v = ds" using False by (simp add: decimal_def ds_def)
  ultimately show ?thesis by metis
qed

text \<open>
  Expressions over integers with the usual operators, and their values: \<open>None\<close> if an integer is
  divided by zero or a value does not fit into 64 bits. \<open>sdiv\<close> and \<open>smod\<close> round towards zero.
\<close>

datatype iexpr = Num int | Bin binop iexpr iexpr

primrec expr_of :: "iexpr \<Rightarrow> expr" where
  "expr_of (Num i) = Tok (decimal i)"
| "expr_of (Bin b x y) = Op b (expr_of x) (expr_of y)"

definition in_range :: "int \<Rightarrow> int option" where
  "in_range i = (if arith_range i then Some i else None)"

primrec int_op :: "binop \<Rightarrow> int \<Rightarrow> int \<Rightarrow> int option" where
  "int_op Or = (\<lambda>i j. Some (if i = 0 then j else i))"
| "int_op And = (\<lambda>i j. Some (if i = 0 \<or> j = 0 then 0 else i))"
| "int_op Lt = (\<lambda>i j. Some (if i < j then 1 else 0))"
| "int_op Le = (\<lambda>i j. Some (if i \<le> j then 1 else 0))"
| "int_op Eq = (\<lambda>i j. Some (if i = j then 1 else 0))"
| "int_op EqEq = (\<lambda>i j. Some (if i = j then 1 else 0))"
| "int_op Ne = (\<lambda>i j. Some (if i \<noteq> j then 1 else 0))"
| "int_op Ge = (\<lambda>i j. Some (if i \<ge> j then 1 else 0))"
| "int_op Gt = (\<lambda>i j. Some (if i > j then 1 else 0))"
| "int_op Add = (\<lambda>i j. in_range (i + j))"
| "int_op Sub = (\<lambda>i j. in_range (i - j))"
| "int_op Mul = (\<lambda>i j. in_range (i * j))"
| "int_op Div = (\<lambda>i j. if j = 0 then None else in_range (i sdiv j))"
| "int_op Mod = (\<lambda>i j. if j = 0 \<or> \<not> arith_range (i sdiv j) then None else Some (i smod j))"
| "int_op Colon = (\<lambda>i j. None)"

primrec ival :: "iexpr \<Rightarrow> int option" where
  "ival (Num i) = in_range i"
| "ival (Bin b x y) = Option.bind (ival x) (\<lambda>i. Option.bind (ival y) (int_op b i))"

text \<open>A value that stands for the integer \<open>i\<close>.\<close>

definition is_int :: "VALUE \<Rightarrow> int \<Rightarrow> bool" where
  "is_int v i \<longleftrightarrow> v = INTEGER i \<or> arith_range i \<and> v = STRING (decimal i)"

lemma is_int_facts:
  assumes "is_int v i"
  shows "number v = Some i" and "tostring v = decimal i" and "null_value v \<longleftrightarrow> i = 0"
  using assms null_decimal [of i] number_decimal [of i]
  by (auto simp: is_int_def number_def toarith_def tostring_def null_value_def)

lemma op_value_int:
  assumes "is_int l i" and "is_int r j" and "int_op b i j = Some k"
  shows "\<exists>v. op_value rc b l r ms = Inr (v, ms) \<and> is_int v k"
  using assms(3) is_int_facts [OF assms(1)] is_int_facts [OF assms(2)] assms(1,2)
  by (cases b)
    (auto simp: numbers_def compares_def divides_def ret_def bind_def arith_result_def in_range_def is_int_def
      split: if_splits)

lemma tree_value_int:
  "ival x = Some k \<Longrightarrow> \<exists>v. tree_value rc (expr_of x) ms = Inr (v, ms) \<and> is_int v k"
proof (induction x arbitrary: k ms)
  case (Num i)
  then show ?case by (auto simp: in_range_def is_int_def ret_def split: if_splits)
next
  case (Bin b x y)
  then obtain i j where ij: "ival x = Some i" "ival y = Some j" "int_op b i j = Some k"
    by (auto simp: bind_eq_Some_conv)
  obtain l where l: "tree_value rc (expr_of x) ms = Inr (l, ms)" "is_int l i"
    using Bin.IH(1) [OF ij(1)] by blast
  obtain r where r: "tree_value rc (expr_of y) ms = Inr (r, ms)" "is_int r j"
    using Bin.IH(2) [OF ij(2)] by blast
  show ?case
    using op_value_int [OF l(2) r(2) ij(3), of rc ms] by (simp add: bind_def l(1) r(1))
qed

lemma wf_expr_of: "wf_expr (expr_of x)"
proof (induction x)
  case (Num i)
  have "hd (decimal i) = 0x2D \<or> is_digit (hd (decimal i))"
    using nat_digits_facts [of "nat i"] by (cases "nat_digits (nat i)") (auto simp: decimal_def)
  moreover have "\<not> is_digit (hd (bytes_of s)) \<and> hd (bytes_of s) \<noteq> 0x2D" if "s \<in> set [''('', '')'', ''quote'', ''length'', ''match'', ''index'', ''substr'']" for s
    using that by (auto simp: bytes_of_def is_digit_def word_le_nat_alt)
  ultimately show ?case by fastforce
qed simp

section \<open>Properties\<close>

text \<open>On the tokens of an expression, the program gives the value of its tree.\<close>

lemma expr_main_tree:
  assumes "wf_expr x"
  shows "expr_main rc (toks 0 x) =
    (case tree_value rc x [] of
       Inl (Die ms) \<Rightarrow> Exit 2 ms
     | Inl Undefined \<Rightarrow> Undefined_Behaviour
     | Inl Out_Of_Fuel \<Rightarrow> No_Fuel
     | Inr (v, ms) \<Rightarrow> Exit (if null_value v then 1 else 0) (ms @ [Print (tostring v @ [10])]))"
  using toks_not_empty [of 0 x]
  by (auto simp: expr_main_def eval_toks [OF assms] bind_def look_def ret_def split: sum.splits)

text \<open>
  \<open>expr_main\<close> computes integers: if no division by zero occurs and every number fits into 64
  bits, the tokens of an expression over integers, written in decimal, with arithmetic,
  comparisons, \<open>&\<close> and \<open>|\<close>, make it print the decimal value and exit with status 1 if this is 0.
\<close>

theorem expr_main_integers:
  assumes "ival x = Some v"
  shows "expr_main rc (toks 0 (expr_of x)) = Exit (if v = 0 then 1 else 0) [Print (decimal v @ [10])]"
proof -
  obtain r where "tree_value rc (expr_of x) [] = Inr (r, [])" "is_int r v"
    using tree_value_int [OF assms] by blast
  then show ?thesis
    using toks_not_empty [of 0 "expr_of x"] is_int_facts [of r v]
    by (simp add: expr_main_def eval_toks [OF wf_expr_of] bind_def look_def ret_def)
qed

theorem expr_main_integers_witness:
  "expr_main (\<lambda>_. Inl []) (map bytes_of [''('', ''7'', ''-'', ''9'', '')'', ''*'', ''3'', ''<'', ''0'']) =
   Exit 0 [Print (bytes_of ''1'' @ [10])]"
proof -
  define x where "x = Bin Lt (Bin Mul (Bin Sub (Num 7) (Num 9)) (Num 3)) (Num 0)"
  have dec: "decimal i = [of_int (48 + i)]" if "0 \<le> i" "i < 10" for i
    using that by (simp add: decimal_def, subst nat_digits.simps, simp add: nat_less_iff)
  have "ival x = Some 1" by (simp add: x_def in_range_def arith_range_def)
  moreover have "toks 0 (expr_of x) = map bytes_of [''('', ''7'', ''-'', ''9'', '')'', ''*'', ''3'', ''<'', ''0'']"
    by (simp add: x_def dec bytes_of_def)
  ultimately show ?thesis using expr_main_integers [of x 1 "\<lambda>_. Inl []"] by (simp add: dec bytes_of_def)
qed

text \<open>
  C33: \<open>expr_main\<close> ends on every list of arguments: the parser needs as much fuel as there are
  tokens and two more, whatever the tokens are.
\<close>

theorem expr_main_terminates: "expr_main rc argv \<noteq> No_Fuel"
proof -
  have "ends (bind (eval rc (length argv + 2)) (\<lambda>v. look (\<lambda>st. if G_args st \<noteq> [] then syntax_error else ret v)))
    \<lparr>G_args = argv, G_msgs = []\<rparr> (\<lambda>_ _. True)"
    unfolding ends_bind by (rule progressD [OF eval_progress [of "length argv"]]) (auto simp: ends_simps)
  then show ?thesis
    by (auto simp: expr_main_def ends_def split: sum.splits expr_exit.splits)
qed

section \<open>Where the program differs from what it means\<close>

text \<open>
  \<open>substr STRING POS LENGTH\<close> passes its 64-bit length to the \<open>int n\<close> of \<open>xstrndup\<close>: a length
  that is a multiple of \<open>2 ^ 32\<close> gives the empty string, and exit status 1, for every string, where
  any length that is at least that of the string should give the whole string.
\<close>

lemma expr_substr_truncates:
  assumes "wf_expr (Tok s)" and "s \<noteq> []" and "0 < k" and "k < 2 ^ 31"
  shows "expr_main rc [bytes_of ''substr'', s, decimal 1, decimal (k * 2 ^ 32)] = Exit 1 [Print [10]]"
proof -
  let ?x = "Substr (Tok s) (expr_of (Num 1)) (expr_of (Num (k * 2 ^ 32)))"
  have wf: "wf_expr ?x" using assms(1) wf_expr_of [of "Num 1"] wf_expr_of [of "Num (k * 2 ^ 32)"] by simp
  have "arith_range (k * 2 ^ 32)" using assms(3,4) by (simp add: arith_range_def)
  then have n: "number (STRING (decimal (k * 2 ^ 32))) = Some (k * 2 ^ 32)" "number (STRING (decimal 1)) = Some 1"
    by (intro number_decimal; simp add: arith_range_def)+
  have "to_int32 (k * 2 ^ 32) = 0"
    by (simp add: to_int32_def signed_take_bit_eq_take_bit_shift take_bit_eq_mod)
  then have "substr_value (STRING s) (STRING (decimal 1)) (STRING (decimal (k * 2 ^ 32))) = STRING []"
    using n [THEN toarith_of_number] assms(3)
    by (simp add: substr_value_def xstrndup_def str_value_def tostring_def)
  then show ?thesis
    using toks_not_empty [of 0 ?x] eval_toks [OF wf, of rc]
    by (simp add: expr_main_def bind_def look_def ret_def null_value_def tostring_def char_at_def)
qed

end
