(* ===== verification/Expr_Meaning.thy ===== *)
theory Expr_Meaning
  imports Bb_Expr
begin

text \<open>
  What an expression means, written from the usage text of \<open>expr\<close> (\<open>busybox/include/usage.src.h\<close>) and
  without the operations of the program, and the proof that the program computes it.

  Where the program departs from the usage text, or where the result of the C library departs from
  exact arithmetic, nothing is claimed: a length of \<open>substr\<close> of \<open>2 ^ 31\<close> or more, a number that does not
  fit into 64 bits (\<open>strtoll\<close> gives the nearest one that does), a comparison of a number that is not in
  canonical form with a string (the program rewrites the number first), and a pattern whose group takes
  no part in the match.
\<close>

section \<open>Meaning\<close>

text \<open>
  An expression has a value, or ends in an error, after the messages so far; or a result of an
  operator does not fit into 64 bits, which is undefined in C; or nothing is claimed.
\<close>

datatype answer = Answer VALUE "bb_msg list" | Fails "bb_msg list" | Overflows | No_Claim

fun and_then :: "answer \<Rightarrow> (VALUE \<Rightarrow> bb_msg list \<Rightarrow> answer) \<Rightarrow> answer" where
  "and_then (Answer v ms) f = f v ms"
| "and_then (Fails ms) f = Fails ms"
| "and_then Overflows f = Overflows"
| "and_then No_Claim f = No_Claim"

definition failure :: "byte list \<Rightarrow> bb_msg list \<Rightarrow> answer" where
  "failure msg ms = Fails (ms @ [Error_Msg msg])"

text \<open>The text of a value, and whether it is null or 0.\<close>

primrec text_of :: "VALUE \<Rightarrow> byte list" where
  "text_of (INTEGER i) = decimal i"
| "text_of (STRING s) = s"

primrec null_or_zero :: "VALUE \<Rightarrow> bool" where
  "null_or_zero (INTEGER i) \<longleftrightarrow> i = 0"
| "null_or_zero (STRING s) \<longleftrightarrow> takeWhile (\<lambda>c. c \<noteq> 0) s \<in> {[], bytes_of ''0''}"

text \<open>Numbers: decimal digits behind blanks and a sign, of any size.\<close>

definition decimal_number :: "byte list \<Rightarrow> int option" where
  "decimal_number s =
     (let t = dropWhile (\<lambda>c. c = 0x20 \<or> 9 \<le> c \<and> c \<le> 13) s;
          ds = (if t \<noteq> [] \<and> (hd t = 0x2D \<or> hd t = 0x2B) then tl t else t);
          n = foldl (\<lambda>a c. 10 * a + (uint c - 48)) 0 ds
      in if ds \<noteq> [] \<and> list_all (\<lambda>c. 0x30 \<le> c \<and> c \<le> 0x39) ds
         then Some (if hd t = 0x2D then - n else n) else None)"

primrec number_of :: "VALUE \<Rightarrow> int option" where
  "number_of (INTEGER i) = Some i"
| "number_of (STRING s) = decimal_number s"

definition in_64_bits :: "int \<Rightarrow> bool" where
  "in_64_bits i \<longleftrightarrow> - 9223372036854775808 \<le> i \<and> i \<le> 9223372036854775807"

definition integer :: "int \<Rightarrow> bb_msg list \<Rightarrow> answer" where
  "integer i ms = (if in_64_bits i then Answer (INTEGER i) ms else Overflows)"

definition arithmetic :: "(int \<Rightarrow> int \<Rightarrow> bb_msg list \<Rightarrow> answer) \<Rightarrow> VALUE \<Rightarrow> VALUE \<Rightarrow> bb_msg list \<Rightarrow> answer" where
  "arithmetic f l r ms = (case (number_of l, number_of r) of
       (Some i, Some j) \<Rightarrow> if in_64_bits i \<and> in_64_bits j then f i j ms else No_Claim
     | _ \<Rightarrow> failure (bytes_of ''non-numeric argument'') ms)"

definition quotient :: "int \<Rightarrow> int \<Rightarrow> int" where
  "quotient i j = sgn i * sgn j * (\<bar>i\<bar> div \<bar>j\<bar>)"

definition division :: "(int \<Rightarrow> int \<Rightarrow> int) \<Rightarrow> int \<Rightarrow> int \<Rightarrow> bb_msg list \<Rightarrow> answer" where
  "division f i j ms =
     (if j = 0 then failure (bytes_of ''division by zero'') ms
      else if in_64_bits (quotient i j) then Answer (INTEGER (f i j)) ms else Overflows)"

text \<open>Comparisons are arithmetic if both are numbers, or else lexicographical.\<close>

definition canonical :: "VALUE \<Rightarrow> bool" where
  "canonical v \<longleftrightarrow> (case number_of v of None \<Rightarrow> True | Some i \<Rightarrow> in_64_bits i \<and> text_of v = decimal i)"

definition comparison :: "(int \<Rightarrow> int \<Rightarrow> bool) \<Rightarrow> (byte list \<Rightarrow> byte list \<Rightarrow> bool) \<Rightarrow> VALUE \<Rightarrow> VALUE \<Rightarrow> bb_msg list \<Rightarrow> answer" where
  "comparison f g l r ms =
     (case (number_of l, number_of r) of
        (Some i, Some j) \<Rightarrow> if in_64_bits i \<and> in_64_bits j then Answer (INTEGER (of_bool (f i j))) ms else No_Claim
      | _ \<Rightarrow> if canonical l \<and> canonical r then Answer (INTEGER (of_bool (g (text_of l) (text_of r)))) ms else No_Claim)"

definition before :: "byte list \<Rightarrow> byte list \<Rightarrow> bool" where
  "before = ord_class.lexordp"

text \<open>The match of a pattern at the start of a string.\<close>

definition quoted :: "byte list \<Rightarrow> byte list" where
  "quoted s = [0x27] @ s @ [0x27]"

definition anchored :: "regcomp \<Rightarrow> VALUE \<Rightarrow> VALUE \<Rightarrow> bb_msg list \<Rightarrow> answer" where
  "anchored rc l r ms =
     (let s = text_of l; pat = text_of r;
          ms = ms @ (if pat \<noteq> [] \<and> hd pat = 0x5E then [Error_Msg (bytes_of ''warning: '' @ quoted pat @ bytes_of '': using '' @
             quoted (bytes_of ''^'') @ bytes_of '' as the first character'' @ [10] @
             bytes_of ''of a basic regular expression is not portable; it is ignored'')] else [])
      in case rc pat of
           Inl errmsg \<Rightarrow> failure (bytes_of ''bad regex '' @ quoted pat @ bytes_of '': '' @ errmsg) ms
         | Inr re \<Rightarrow>
             (case re_exec re s of
                Some ((k, n), (i, j)) \<Rightarrow>
                  if k \<noteq> 0 then Answer (if re_nsub re = 0 then INTEGER 0 else STRING []) ms
                  else if re_nsub re = 0 then Answer (INTEGER n) ms
                  else if i < 0 then No_Claim
                  else Answer (STRING (take (nat j - nat i) (drop (nat i) s))) ms
              | None \<Rightarrow> Answer (if re_nsub re = 0 then INTEGER 0 else STRING []) ms))"

text \<open>\<open>index\<close>, counted from 1, and \<open>substr\<close>.\<close>

definition index_answer :: "VALUE \<Rightarrow> VALUE \<Rightarrow> VALUE" where
  "index_answer l r =
     (case filter (\<lambda>i. text_of l ! i \<in> set (text_of r)) [0..<length (text_of l)] of
        [] \<Rightarrow> INTEGER 0
      | i # _ \<Rightarrow> INTEGER (int i + 1))"

definition substr_answer :: "VALUE \<Rightarrow> VALUE \<Rightarrow> VALUE \<Rightarrow> bb_msg list \<Rightarrow> answer" where
  "substr_answer l p n ms =
     (case (number_of p, number_of n) of
        (Some p, Some n) \<Rightarrow>
          if \<not> in_64_bits p \<or> 2 ^ 31 \<le> n \<or> \<not> in_64_bits n then No_Claim
          else if p < 1 then Answer (STRING []) ms
          else Answer (STRING (map (\<lambda>i. text_of l ! i)
            (filter (\<lambda>i. p \<le> int i + 1 \<and> int i + 1 < p + n) [0..<length (text_of l)]))) ms
      | _ \<Rightarrow> Answer (STRING []) ms)"

primrec op_meaning :: "regcomp \<Rightarrow> binop \<Rightarrow> VALUE \<Rightarrow> VALUE \<Rightarrow> bb_msg list \<Rightarrow> answer" where
  "op_meaning rc Or = (\<lambda>l r. Answer (if null_or_zero l then r else l))"
| "op_meaning rc And = (\<lambda>l r. Answer (if null_or_zero l \<or> null_or_zero r then INTEGER 0 else l))"
| "op_meaning rc Lt = comparison (<) before"
| "op_meaning rc Le = comparison (\<le>) (\<lambda>s t. s = t \<or> before s t)"
| "op_meaning rc Eq = comparison (=) (=)"
| "op_meaning rc EqEq = comparison (=) (=)"
| "op_meaning rc Ne = comparison (\<noteq>) (\<noteq>)"
| "op_meaning rc Ge = comparison (\<ge>) (\<lambda>s t. s = t \<or> before t s)"
| "op_meaning rc Gt = comparison (>) (\<lambda>s t. before t s)"
| "op_meaning rc Add = arithmetic (\<lambda>i j. integer (i + j))"
| "op_meaning rc Sub = arithmetic (\<lambda>i j. integer (i - j))"
| "op_meaning rc Mul = arithmetic (\<lambda>i j. integer (i * j))"
| "op_meaning rc Div = arithmetic (division quotient)"
| "op_meaning rc Mod = arithmetic (division (\<lambda>i j. i - j * quotient i j))"
| "op_meaning rc Colon = anchored rc"

text \<open>The operands are evaluated from left to right, all of them.\<close>

primrec meaning :: "regcomp \<Rightarrow> expr \<Rightarrow> bb_msg list \<Rightarrow> answer" where
  "meaning rc (Tok s) ms = Answer (STRING s) ms"
| "meaning rc (Quote s) ms = Answer (STRING s) ms"
| "meaning rc (Length x) ms = and_then (meaning rc x ms) (\<lambda>v. Answer (INTEGER (int (length (text_of v)))))"
| "meaning rc (Match x y) ms = and_then (meaning rc x ms) (\<lambda>l ms. and_then (meaning rc y ms) (anchored rc l))"
| "meaning rc (Index x y) ms = and_then (meaning rc x ms) (\<lambda>l ms. and_then (meaning rc y ms) (\<lambda>r. Answer (index_answer l r)))"
| "meaning rc (Substr x y z) ms = and_then (meaning rc x ms) (\<lambda>l ms. and_then (meaning rc y ms) (\<lambda>p ms.
     and_then (meaning rc z ms) (substr_answer l p)))"
| "meaning rc (Op b x y) ms = and_then (meaning rc x ms) (\<lambda>l ms. and_then (meaning rc y ms) (op_meaning rc b l))"

section \<open>The program computes the meaning\<close>

fun agrees :: "answer \<Rightarrow> expr_exit + VALUE \<times> bb_msg list \<Rightarrow> bool" where
  "agrees (Answer v ms) r \<longleftrightarrow> r = Inr (v, ms)"
| "agrees (Fails ms) r \<longleftrightarrow> r = Inl (Die ms)"
| "agrees Overflows r \<longleftrightarrow> r = Inl Undefined"
| "agrees No_Claim r \<longleftrightarrow> True"

lemma agrees_and_then:
  assumes "agrees a (t ms)" and "\<And>v ms. agrees (f v ms) (g v ms)"
  shows "agrees (and_then a f) (bind t g ms)"
  using assms by (cases a) (auto simp: bind_def)

lemma tostring_text: "tostring v = text_of v"
  by (cases v) (simp_all add: tostring_def)

lemma null_value_zero: "null_value v \<longleftrightarrow> null_or_zero v"
proof (cases v)
  case (STRING s)
  show ?thesis
  proof (cases s)
    case (Cons c t)
    have zero: "bytes_of ''0'' = [0x30]" by (simp add: bytes_of_def)
    show ?thesis
    proof (cases "c = 0")
      case False
      then show ?thesis using STRING Cons by (cases t) (simp_all add: null_value_def char_at_def zero)
    qed (simp add: STRING Cons null_value_def char_at_def)
  qed (simp add: STRING null_value_def char_at_def)
qed (simp add: null_value_def)

lemma in_64_bits_range: "in_64_bits i \<longleftrightarrow> arith_range i"
  by (auto simp: in_64_bits_def arith_range_def)

text \<open>Numbers.\<close>

lemma digit_in_10: "digit_in 10 c \<longleftrightarrow> 0x30 \<le> c \<and> c \<le> 0x39"
  by (auto simp: digit_in_def c_digit_def word_le_nat_alt)

lemma the_c_digit:
  assumes "0x30 \<le> c" and "c \<le> 0x39"
  shows "int (the (c_digit c)) = uint c - 48"
proof -
  from assms have "48 \<le> unat c" "the (c_digit c) = unat c - 48" by (simp_all add: c_digit_def word_le_nat_alt)
  then show ?thesis by simp
qed

lemma digits_in_all:
  "list_all (\<lambda>c. 0x30 \<le> c \<and> c \<le> 0x39) ds \<Longrightarrow>
     snd (digits_in 10 acc ds) = [] \<and> int (fst (digits_in 10 acc ds)) = foldl (\<lambda>a c. 10 * a + (uint c - 48)) (int acc) ds"
proof (induction ds arbitrary: acc)
  case (Cons c ds)
  then show ?case
    using Cons.IH [of "acc * 10 + the (c_digit c)"] the_c_digit [of c] by (simp add: digit_in_10 mult.commute)
qed simp

lemma digits_in_rest: "snd (digits_in 10 acc ds) = [] \<Longrightarrow> list_all (\<lambda>c. 0x30 \<le> c \<and> c \<le> 0x39) ds"
  by (induction "10 :: nat" acc ds rule: digits_in.induct) (auto simp: digit_in_10 split: if_splits)

lemma toarith_decimal:
  "case decimal_number s of
     None \<Rightarrow> toarith (STRING s) = (False, STRING s)
   | Some i \<Rightarrow> \<exists>j. toarith (STRING s) = (True, INTEGER j) \<and> (in_64_bits i \<longrightarrow> j = i)"
proof -
  define t where "t = dropWhile is_space s"
  define neg where "neg \<longleftrightarrow> char_at t 0 = 0x2D"
  define ds where "ds = (if char_at t 0 = 0x2D \<or> char_at t 0 = 0x2B then tl t else t)"
  define n where "n = foldl (\<lambda>a c. 10 * a + (uint c - 48)) 0 ds"
  let ?all = "ds \<noteq> [] \<and> list_all (\<lambda>c. 0x30 \<le> c \<and> c \<le> 0x39) ds"
  have space: "is_space = (\<lambda>c. c = 0x20 \<or> 9 \<le> c \<and> c \<le> 13)"
    by (rule ext) (simp add: is_space_def)
  have head: "char_at t 0 = c \<longleftrightarrow> t \<noteq> [] \<and> hd t = c" if "c \<noteq> 0" for c
    using that by (cases t) (auto simp: char_at_def)
  have number: "decimal_number s = (if ?all then Some (if neg then - n else n) else None)"
    using head [of "0x2D"] head [of "0x2B"]
    by (auto simp: decimal_number_def Let_def t_def [symmetric, unfolded space] neg_def ds_def n_def)
  have parse: "strto_parse 10 s = (if digit_in 10 (char_at ds 0) then Some (neg, digits_in 10 0 ds) else None)"
    by (simp add: strto_parse_def Let_def t_def neg_def ds_def)
  have first: "digit_in 10 (char_at ds 0) \<longleftrightarrow> ds \<noteq> [] \<and> 0x30 \<le> hd ds \<and> hd ds \<le> 0x39"
    by (cases ds) (auto simp: digit_in_10 char_at_def)
  show ?thesis
  proof (cases ?all)
    case True
    obtain m where m: "digits_in 10 0 ds = (m, [])" "int m = n"
      using digits_in_all [of ds 0] True by (cases "digits_in 10 0 ds") (auto simp: n_def)
    have "digit_in 10 (char_at ds 0)" using True first by (cases ds) auto
    then have "strto_parse 10 s = Some (neg, m, [])" using parse m(1) by simp
    moreover have "s \<noteq> []" using True by (auto simp: ds_def t_def char_at_def)
    moreover have "sint (of_int i :: u64) = i" if "in_64_bits i" for i
      using that by (simp add: in_64_bits_def signed_of_int signed_take_bit_int_eq_self)
    then have "in_64_bits i \<Longrightarrow> of_int i = w \<Longrightarrow> sint w = i" for i and w :: u64 by blast
    then have "in_64_bits (if neg then - n else n) \<longrightarrow> sint (fst (strtoll 10 s)) = (if neg then - n else n)"
      if "fst (snd (strtoll 10 s)) = []"
      using calculation(1) m(2) by (auto simp: strtoll_def in_64_bits_def)
    ultimately show ?thesis
      using number True by (auto simp: toarith_def strtoll_def)
  next
    case False
    then have "decimal_number s = None" using number by simp
    moreover have "fst (snd (strtoll 10 s)) = s \<or> fst (snd (strtoll 10 s)) \<noteq> []"
    proof (cases "digit_in 10 (char_at ds 0)")
      case True
      then have "snd (digits_in 10 0 ds) \<noteq> []" using False first digits_in_rest [of 0 ds] by auto
      then show ?thesis using parse True by (cases "digits_in 10 0 ds") (auto simp: strtoll_def)
    qed (simp add: parse strtoll_def)
    ultimately show ?thesis by (cases "strtoll 10 s") (auto simp: toarith_def)
  qed
qed

lemma toarith_cases:
  obtains i j where "number_of v = Some i" and "toarith v = (True, INTEGER j)" and "number v = Some j" and "in_64_bits i \<Longrightarrow> j = i"
  | "number_of v = None" and "toarith v = (False, v)" and "number v = None"
proof (cases v)
  case (INTEGER i)
  then show thesis using that(1) [of i i] by (simp add: toarith_def number_def)
next
  case (STRING s)
  then show thesis
    using that toarith_decimal [of s] by (auto simp: number_def split: option.splits)
qed

text \<open>Strings.\<close>

lemma strcmp_order: "strcmp s t = (if s = t then 0 else if before s t then - 1 else 1)"
  by (induction s t rule: strcmp.induct) (auto simp: before_def)

lemma before_facts: "\<not> before s s" "before s t \<Longrightarrow> \<not> before t s" "before s t \<or> s = t \<or> before t s"
  unfolding before_def using lexordp_irreflexive' lexordp_trans linorder_class.lexordp_linear by metis+

lemma strcmp_sign:
  "strcmp s t = 0 \<longleftrightarrow> s = t" "strcmp s t < 0 \<longleftrightarrow> before s t" "0 < strcmp s t \<longleftrightarrow> before t s"
  "strcmp s t \<le> 0 \<longleftrightarrow> s = t \<or> before s t" "0 \<le> strcmp s t \<longleftrightarrow> s = t \<or> before t s"
  unfolding strcmp_order using before_facts(1) before_facts(2,3) [of s t] by auto

text \<open>Operators.\<close>

lemma text_of_number: "toarith v = (b, w) \<Longrightarrow> canonical v \<Longrightarrow> text_of w = text_of v"
  by (cases v rule: toarith_cases) (auto simp: canonical_def)

lemma compares_comparison:
  assumes "\<And>s t. g s t \<longleftrightarrow> f (strcmp s t) 0"
  shows "agrees (comparison f g l r ms) (compares f l r ms)"
proof (cases l rule: toarith_cases)
  case l: (1 i i')
  show ?thesis
    by (cases r rule: toarith_cases)
      (use l assms in \<open>auto simp: comparison_def compares_def ret_def tostring_text canonical_def\<close>)
next
  case l: 2
  show ?thesis
    by (cases r rule: toarith_cases)
      (use l assms in \<open>auto simp: comparison_def compares_def ret_def tostring_text canonical_def\<close>)
qed

lemma numbers_arithmetic:
  assumes "\<And>i j. in_64_bits i \<Longrightarrow> in_64_bits j \<Longrightarrow> agrees (f i j ms) (bind (g i j) (\<lambda>v. ret (INTEGER v)) ms)"
  shows "agrees (arithmetic f l r ms) (numbers g l r ms)"
proof (cases l rule: toarith_cases)
  case l: (1 i i')
  show ?thesis
    by (cases r rule: toarith_cases) (use l assms in \<open>auto simp: arithmetic_def numbers_def failure_def die_def\<close>)
next
  case l: 2
  show ?thesis
    by (cases r rule: toarith_cases) (use l in \<open>auto simp: arithmetic_def numbers_def failure_def die_def\<close>)
qed

lemma quotient_sdiv: "quotient i j = i sdiv j"
  by (simp add: quotient_def signed_divide_int_def)

lemma remainder_smod: "i - j * quotient i j = i smod j"
  by (simp add: quotient_sdiv minus_mult_sdiv_eq_smod)

lemma integer_result: "agrees (integer i ms) (bind (arith_result i) (\<lambda>v. ret (INTEGER v)) ms)"
  by (simp add: integer_def in_64_bits_range arith_result_def bind_def ret_def)

lemma division_divides:
  assumes "\<And>i j. f i j = g i j"
  shows "agrees (division f i j ms) (bind (divides g i j) (\<lambda>v. ret (INTEGER v)) ms)"
  by (simp add: division_def divides_def in_64_bits_range quotient_sdiv failure_def die_def bind_def ret_def assms)

lemma anchored_docolon: "agrees (anchored rc l r ms) (docolon rc l r ms)"
proof -
  have "char_at s 0 = 0x5E \<longleftrightarrow> s \<noteq> [] \<and> hd s = 0x5E" for s
    by (cases s) (simp_all add: char_at_def)
  then show ?thesis
    by (auto simp: anchored_def docolon_def Let_def xregcomp_def tostring_text bind_def ret_def die_def failure_def
        caret_warning_def quoted_def int_value_def str_value_def drop_take split: sum.splits option.splits)
qed

lemma index_found: "index_value l r = index_answer l r"
proof -
  let ?s = "text_of l" and ?P = "\<lambda>c. c \<notin> set (text_of r)"
  have "(case filter (\<lambda>i. \<not> P (s ! i)) [0..<length s] of [] \<Rightarrow> length (takeWhile P s) = length s
      | i # _ \<Rightarrow> length (takeWhile P s) = i \<and> i < length s)" for P and s :: "byte list"
  proof (induction s)
    case (Cons c s)
    have "filter (\<lambda>i. \<not> P ((c # s) ! i)) [0..<length (c # s)] =
        (if P c then [] else [0]) @ map Suc (filter (\<lambda>i. \<not> P (s ! i)) [0..<length s])"
      by (simp only: list.size add_0_right add_Suc_right upt_conv_Cons [of 0] zero_less_Suc map_Suc_upt [symmetric]
          filter.simps filter_map) (simp add: o_def)
    then show ?case using Cons.IH by (auto split: list.splits)
  qed simp
  from this [of ?P ?s] show ?thesis
    by (auto simp: index_value_def index_answer_def strcspn_def tostring_text int_value_def split: list.splits)
qed

lemma filter_window:
  "filter (\<lambda>i. p \<le> int i + 1 \<and> int i + 1 < p + n) [0..<m] = [nat (p - 1)..<min m (nat (p - 1 + n))]" if "1 \<le> p"
proof (induction m)
  case (Suc m)
  have "m < nat (p - 1 + n) \<longleftrightarrow> int m + 1 < p + n" and "nat (p - 1) \<le> m \<longleftrightarrow> p \<le> int m + 1"
    using that by auto
  moreover have "min (Suc m) k = (if m < k then Suc m else min m k)" "m < k \<longrightarrow> min m k = m" for k :: nat
    by auto
  ultimately show ?case using Suc that by simp
qed simp

lemma substr_copied: "agrees (substr_answer l p n ms) (ret (substr_value l p n) ms)"
proof -
  let ?s = "text_of l"
  have cut: "map (\<lambda>i. ?s ! i) [k..<min (length ?s) (k + m)] = take m (drop k ?s)" for k m
    by (rule nth_equalityI) (auto simp: min_def split: if_splits)
  have "agrees (substr_answer l p n ms) (ret (substr_value l p n) ms)"
    if p: "number_of p = Some a" "toarith p = (True, INTEGER a)" and n: "number_of n = Some b" "toarith n = (True, INTEGER b)"
      and "in_64_bits a" "in_64_bits b" "b < 2 ^ 31" for a b
  proof (cases "1 \<le> a \<and> 1 \<le> b")
    case True
    have small: "to_int32 b = b" using True that(7) by (simp add: to_int32_id)
    have "nat (a - 1 + b) = nat (a - 1) + nat b" using True by (simp flip: nat_add_distrib)
    then have "map (\<lambda>i. ?s ! i) (filter (\<lambda>i. a \<le> int i + 1 \<and> int i + 1 < a + b) [0..<length ?s]) =
        take (nat b) (drop (nat (a - 1)) ?s)"
      using True filter_window [of a b "length ?s"] cut [of "nat (a - 1)" "nat b"] by simp
    then show ?thesis
      using True that small by (auto simp: substr_answer_def substr_value_def tostring_text str_value_def xstrndup_def ret_def)
  next
    case False
    then have "a < 1 \<or> filter (\<lambda>i. a \<le> int i + 1 \<and> int i + 1 < a + b) [0..<length ?s] = []"
      by (auto simp: filter_empty_conv)
    then show ?thesis
      using False that by (auto simp: substr_answer_def substr_value_def tostring_text str_value_def ret_def)
  qed
  then show ?thesis
    by (cases p rule: toarith_cases; cases n rule: toarith_cases)
      (auto simp: substr_answer_def substr_value_def str_value_def ret_def)
qed

lemma op_agrees: "agrees (op_meaning rc b l r ms) (op_value rc b l r ms)"
  by (cases b)
    (auto simp: ret_def null_value_zero anchored_docolon strcmp_sign quotient_sdiv minus_mult_sdiv_eq_smod
      intro!: compares_comparison numbers_arithmetic integer_result division_divides)

lemma meaning_agrees: "agrees (meaning rc x ms) (tree_value rc x ms)"
proof (induction x arbitrary: ms)
  case (Length x)
  then show ?case
    by (auto simp: length_value_def tostring_text int_value_def ret_def intro!: agrees_and_then)
qed (auto simp: ret_def anchored_docolon index_found op_agrees substr_copied [unfolded ret_def] intro!: agrees_and_then)

section \<open>Properties\<close>

text \<open>
  C30: \<open>expr_main\<close> on the tokens of an expression, with parentheses only where the precedence and the
  associativity to the left of the operators need them, gives what the expression means by the usage
  text: its operands are evaluated from left to right, with the messages in this order; the value is
  printed and the exit status is 1 if it is null or 0, and 0 otherwise; an error is reported with exit
  status 2; and a result that does not fit into 64 bits is undefined. This holds for every
  implementation of regular expressions. Nothing is claimed where \<^term>\<open>meaning\<close> is \<^term>\<open>No_Claim\<close>.
\<close>

theorem expr_main_meaning:
  assumes "wf_expr x"
  shows "case meaning rc x [] of
       Answer v ms \<Rightarrow> expr_main rc (toks 0 x) = Exit (if null_or_zero v then 1 else 0) (ms @ [Print (text_of v @ [10])])
     | Fails ms \<Rightarrow> expr_main rc (toks 0 x) = Exit 2 ms
     | Overflows \<Rightarrow> expr_main rc (toks 0 x) = Undefined_Behaviour
     | No_Claim \<Rightarrow> True"
  using meaning_agrees [of rc x "[]"] expr_main_tree [OF assms, of rc]
  by (cases "meaning rc x []") (auto simp: null_value_zero tostring_text)

theorem expr_main_meaning_witness:
  "expr_main (\<lambda>_. Inl []) (map bytes_of [''index'', ''abcd'', ''dc'', ''*'', ''('', ''2'', ''+'', ''x'', '')'']) =
     Exit 2 [Error_Msg (bytes_of ''non-numeric argument'')] \<and>
   expr_main (\<lambda>_. Inl []) (map bytes_of [''index'', ''abcd'', ''dc'', ''<'', ''1'']) = Exit 1 [Print [0x30, 10]]"
proof -
  let ?index = "Index (Tok (bytes_of ''abcd'')) (Tok (bytes_of ''dc''))"
  define x where "x = Op Mul ?index (Op Add (Tok (bytes_of ''2'')) (Tok (bytes_of ''x'')))"
  define y where "y = Op Lt ?index (Tok (bytes_of ''1''))"
  have "meaning (\<lambda>_. Inl []) x [] = Fails [Error_Msg (bytes_of ''non-numeric argument'')]"
    by (simp add: x_def arithmetic_def failure_def decimal_number_def bytes_of_def)
  moreover have "meaning (\<lambda>_. Inl []) y [] = Answer (INTEGER 0) []"
    by (simp add: y_def comparison_def decimal_number_def bytes_of_def index_answer_def in_64_bits_def)
  moreover have "wf_expr x" "wf_expr y" by (simp_all add: x_def y_def)
  moreover have "decimal 0 = [0x30]" by (simp add: decimal_def) (subst nat_digits.simps, simp)
  moreover have "toks 0 x = map bytes_of [''index'', ''abcd'', ''dc'', ''*'', ''('', ''2'', ''+'', ''x'', '')'']"
      "toks 0 y = map bytes_of [''index'', ''abcd'', ''dc'', ''<'', ''1'']"
    by (simp_all add: x_def y_def)
  ultimately show ?thesis
    using expr_main_meaning [of x "\<lambda>_. Inl []"] expr_main_meaning [of y "\<lambda>_. Inl []"] by simp
qed

end
