(* ===== verification/Bb_Tr.thy ===== *)
theory Bb_Tr
  imports Bb_Io Bb_Strtonum
begin

text \<open>
  The applet \<open>tr\<close> (\<open>busybox/coreutils/tr.c\<close>) with character and equivalence classes, and the
  escape sequences it uses (\<open>libbb/process_escape_sequence.c\<close>).

  The buffer that \<open>expand\<close> fills is the list of the bytes written to it together with its size; a
  write behind the size is the outcome \<open>Overrun\<close>. \<open>bb_show_usage\<close> ends the program.
\<close>

section \<open>Escape sequences\<close>

text \<open>\<open>d\<close>: the value of a digit, or a number that is too great. The arithmetic is \<open>unsigned\<close>.\<close>

definition esc_digit :: "byte \<Rightarrow> u32" where
  "esc_digit q = (let d = ucast (q OR 0x20) - 48 in if 10 \<le> d then d + (48 - 97 + 10) else d)"

text \<open>
  The loop over the digits, entered with \<open>num_digits < 3\<close>: \<open>None\<close> for the early return of
  \<open>'\\'\<close>, else \<open>n\<close>, \<open>num_digits\<close> and \<open>q\<close> behind the loop.
\<close>

function esc_loop :: "u32 \<Rightarrow> nat \<Rightarrow> u32 \<Rightarrow> byte list \<Rightarrow> (u32 \<times> nat \<times> byte list) option" where
  "esc_loop base num_digits n q =
     (let d = esc_digit (char_at q 0)
      in if base \<le> d then
           if base = 16 then if num_digits - 1 = 0 then None else Some (n, num_digits - 1, q)
           else Some (n, num_digits, q)
         else let r = n * base + d
              in if 255 < r then Some (n, num_digits, q)
                 else if num_digits + 1 < 3 then esc_loop base (num_digits + 1) r (tl q)
                 else Some (r, num_digits + 1, tl q))"
  by pat_completeness auto
termination
  by (relation "measure (\<lambda>(b, k, n, q). 3 - k)") auto

declare esc_loop.simps [simp del]

definition charmap :: "(byte \<times> byte) list" where
  "charmap = [(97, 7), (98, 8), (101, 27), (102, 12), (110, 10), (114, 13), (116, 9), (118, 11), (92, 92)]"

text \<open>The character, and \<open>*ptr\<close> afterwards.\<close>

definition bb_process_escape_sequence :: "byte list \<Rightarrow> byte \<times> byte list" where
  "bb_process_escape_sequence ptr =
     (let hex = (char_at ptr 0 = 0x78)
      in case esc_loop (if hex then 16 else 8) (if hex then 1 else 0) 0 (if hex then tl ptr else ptr) of
          None \<Rightarrow> (0x5C, ptr)
        | Some (n, num_digits, q) \<Rightarrow>
            if num_digits = 0 then
              (case map_of charmap (char_at q 0) of Some c \<Rightarrow> (c, tl q) | None \<Rightarrow> (0x5C, q))
            else (ucast n, q))"

section \<open>Expanding a set\<close>

definition ASCII :: nat where "ASCII = 256"

definition TR_BUFSIZ :: nat where "TR_BUFSIZ = 8192"

text \<open>\<open>for (i = lo; i <= hi; i++) buffer[pos++] = i\<close>.\<close>

definition byte_range :: "byte \<Rightarrow> byte \<Rightarrow> byte list" where
  "byte_range lo hi = map of_nat [unat lo..<Suc (unat hi)]"

definition isprint_asciionly :: "byte \<Rightarrow> bool" where
  "isprint_asciionly a \<longleftrightarrow> ucast a - (0x20 :: u32) \<le> 0x7e - 0x20"

definition iscntrl :: "byte \<Rightarrow> bool" where
  "iscntrl a \<longleftrightarrow> a < 0x20 \<or> a = 0x7f"

definition tr_classes :: "string list" where
  "tr_classes = [''alpha:]'', ''alnum:]'', ''digit:]'', ''lower:]'', ''upper:]'', ''space:]'', ''blank:]'',
     ''punct:]'', ''cntrl:]'', ''xdigit:]'']"

text \<open>What the class with the number \<open>j\<close> writes.\<close>

definition class_bytes :: "nat \<Rightarrow> byte list" where
  "class_bytes j =
     (if j = 2 \<or> j = 3 \<or> j = 10 then byte_range 0x30 0x39 else []) @
     (if j = 1 \<or> j = 2 \<or> j = 5 then byte_range 0x41 0x5A else []) @
     (if j = 1 \<or> j = 2 \<or> j = 4 then byte_range 0x61 0x7A else []) @
     (if j = 6 \<or> j = 7 then [9] @ (if j = 6 then [10, 11, 12, 13] else []) @ [0x20] else []) @
     (if j = 8 \<or> j = 9 then
        filter (\<lambda>i. j = 8 \<and> isprint_asciionly i \<and> \<not> is_alnum i \<and> \<not> is_space i \<or> j = 9 \<and> iscntrl i)
          (map of_nat [0..<ASCII])
      else []) @
     (if j = 10 then byte_range 0x41 0x46 @ map (\<lambda>i. i OR 0x20) (byte_range 0x41 0x46) else [])"

fun index_of_str :: "string list \<Rightarrow> byte list \<Rightarrow> nat option" where
  "index_of_str [] key = None"
| "index_of_str (s # ss) key = (if bytes_of s = key then Some 0 else map_option Suc (index_of_str ss key))"

datatype expand_result = Expanded "byte list" nat | Usage | Overrun

lemma esc_loop_shorter: "esc_loop b k n q = Some (n', k', q') \<Longrightarrow> length q' \<le> length q"
proof (induction b k n q rule: esc_loop.induct)
  case (1 b k n q)
  have "length q' \<le> length (tl q) \<or> q' = q"
    using "1.prems" "1.IH" by (subst (asm) (1) esc_loop.simps) (auto simp: Let_def split: if_splits)
  then show ?case by auto
qed

lemma escape_shorter: "length (snd (bb_process_escape_sequence ptr)) \<le> length ptr"
  by (auto simp: bb_process_escape_sequence_def Let_def split: option.splits dest!: esc_loop_shorter)

text \<open>One turn of the loop of \<open>expand\<close>: what it writes and where \<open>arg\<close> points to then, unless it ends with the usage.\<close>

definition expand_item :: "byte list \<Rightarrow> byte list \<times> byte list option" where
  "expand_item arg =
     (if char_at arg 0 = 0x5C then
        (case bb_process_escape_sequence (tl arg) of (c, arg) \<Rightarrow> ([c], Some arg))
      else if char_at arg 1 = 0x2D then
        if char_at arg 2 = 0 then ([char_at arg 0], Some (tl arg))
        else (byte_range (char_at arg 0) (char_at arg 2), Some (drop 3 arg))
      else if char_at arg 0 = 0x5B \<and> char_at arg 1 = 0x3A then
        let i = (if char_at arg 2 = 0x78 then 8 else 7)
        in case index_of_str tr_classes (take i (drop 2 arg)) of
             None \<Rightarrow> ([char_at arg 0], Some (tl arg))
           | Some j \<Rightarrow> (class_bytes (j + 1), Some (drop (2 + i) arg))
      else if char_at arg 0 = 0x5B \<and> char_at arg 1 = 0x3D then
        ([char_at arg 2],
         if char_at arg 2 = 0 \<or> char_at arg 3 \<noteq> 0x3D \<or> char_at arg 4 \<noteq> 0x5D then None else Some (drop 5 arg))
      else ([char_at arg 0], Some (tl arg)))"

lemma expand_item_shorter:
  assumes "arg \<noteq> []" and "expand_item arg = (cs, Some arg')"
  shows "length arg' < length arg"
proof -
  have "length (snd (bb_process_escape_sequence (tl arg))) < length arg"
    using escape_shorter [of "tl arg"] assms(1) by (cases arg) auto
  then show ?thesis
    using assms by (auto simp: expand_item_def Let_def split: if_splits option.splits prod.splits)
qed

text \<open>The loop, with \<open>buffer\<close> and \<open>size\<close>.\<close>

function expand_loop :: "byte list \<Rightarrow> byte list \<Rightarrow> nat \<Rightarrow> expand_result" where
  "expand_loop arg buf sz =
     (if arg = [] then Expanded buf sz
      else
        let sz = (if length buf + ASCII > sz then sz + ASCII else sz)
        in case expand_item arg of
            (cs, rest) \<Rightarrow>
              if length buf + length cs > sz then Overrun
              else (case rest of None \<Rightarrow> Usage | Some arg \<Rightarrow> expand_loop arg (buf @ cs) sz))"
  by pat_completeness auto
termination
  by (relation "measure (\<lambda>(arg, buf, sz). length arg)") (auto dest: expand_item_shorter [OF _ sym])

declare expand_loop.simps [simp del]

definition expand_tr :: "byte list \<Rightarrow> expand_result" where
  "expand_tr arg = expand_loop arg [] TR_BUFSIZ"

section \<open>The program\<close>

fun tr_map :: "byte list \<Rightarrow> byte \<Rightarrow> byte list \<Rightarrow> byte list \<Rightarrow> byte list" where
  "tr_map pvector last1 [] string2 = pvector"
| "tr_map pvector last1 (c # string1) [] = tr_map (pvector[unat c := last1]) last1 string1 []"
| "tr_map pvector last1 (c # string1) (d # string2) = tr_map (pvector[unat c := d]) d string1 string2"

definition complement :: "byte list \<Rightarrow> byte list" where
  "complement buffer = filter (\<lambda>ch. ch \<notin> set buffer) (map of_nat [0..<256])"

definition mark_all :: "byte list \<Rightarrow> bool list" where
  "mark_all str = foldl (\<lambda>v c. v[unat c := True]) (replicate ASCII False) str"

text \<open>One byte of input: \<open>last\<close> and what has been written.\<close>

definition tr_step :: "nat \<Rightarrow> byte list \<Rightarrow> bool list \<Rightarrow> bool list \<Rightarrow> nat \<times> byte list \<Rightarrow> byte \<Rightarrow> nat \<times> byte list" where
  "tr_step opts vec invec outvec st c =
     (case st of (last1, out) \<Rightarrow>
        if bit opts 2 \<and> invec ! unat c then st
        else let coded = vec ! unat c
             in if bit opts 3 \<and> last1 = unat coded \<and> (invec ! unat c \<or> outvec ! unat coded) then st
                else (unat coded, out @ [coded]))"

definition tr_chunk :: "nat \<Rightarrow> byte list \<Rightarrow> bool list \<Rightarrow> bool list \<Rightarrow> nat \<times> byte list \<Rightarrow> byte list \<Rightarrow> nat \<times> byte list" where
  "tr_chunk opts vec invec outvec = foldl (tr_step opts vec invec outvec)"

datatype tr_outcome = Tr_Exit int "byte list" "bb_msg list" | Tr_Usage | Tr_Overrun

text \<open>From the marking of \<open>invec\<close> and \<open>outvec\<close> to the end.\<close>

definition tr_loop :: "nat \<Rightarrow> byte list \<Rightarrow> byte list \<Rightarrow> byte list \<Rightarrow> infile \<Rightarrow> tr_outcome" where
  "tr_loop opts vector str1 str2 stdin =
     (case read_each TR_BUFSIZ (tr_chunk opts vector (mark_all str1) (mark_all str2)) (256, []) stdin of
        ((_, out), ok, _) \<Rightarrow>
          if ok then Tr_Exit 0 out [] else Tr_Exit 1 out [Perror_Msg (bytes_of ''read error'')])"

text \<open>
  \<open>tr_main\<close> behind \<open>getopt32\<close>, which leaves the options \<open>-C\<close>, \<open>-c\<close>, \<open>-d\<close> and \<open>-s\<close> in the bits 0
  to 3 of \<open>opts\<close> and at least one argument.
\<close>

definition tr_main :: "nat \<Rightarrow> byte list list \<Rightarrow> infile \<Rightarrow> tr_outcome" where
  "tr_main opts argv stdin =
     (case expand_tr (hd argv) of
        Usage \<Rightarrow> Tr_Usage
      | Overrun \<Rightarrow> Tr_Overrun
      | Expanded str1 _ \<Rightarrow>
          (let vector = map of_nat [0..<ASCII];
               str1 = (if bit opts 0 \<or> bit opts 1 then complement str1 else str1)
           in if tl argv = [] then tr_loop opts vector str1 [] stdin
              else if argv ! 1 = [] then Tr_Exit 1 [] [Error_Msg (bytes_of ''STRING2 cannot be empty'')]
              else (case expand_tr (argv ! 1) of
                  Usage \<Rightarrow> Tr_Usage
                | Overrun \<Rightarrow> Tr_Overrun
                | Expanded str2 _ \<Rightarrow> tr_loop opts (tr_map vector 0x30 str1 str2) str1 str2 stdin)))"

section \<open>The buffer is never overrun\<close>

lemma byte_range_length: "length (byte_range lo hi) \<le> ASCII"
  using unsigned_less [of hi, where ?'a = nat] by (auto simp: byte_range_def ASCII_def)

lemma class_bytes_length: "length (class_bytes j) \<le> ASCII"
proof (cases "j = 8 \<or> j = 9")
  case True
  then have "class_bytes j = filter (\<lambda>i. j = 8 \<and> isprint_asciionly i \<and> \<not> is_alnum i \<and> \<not> is_space i \<or> j = 9 \<and> iscntrl i)
      (map of_nat [0..<ASCII])"
    by (auto simp: class_bytes_def)
  then show ?thesis using length_filter_le [of _ "map of_nat [0..<ASCII]"] by simp
qed (simp add: class_bytes_def byte_range_def ASCII_def)

lemma expand_item_length: "length (fst (expand_item arg)) \<le> ASCII"
proof -
  have "Suc 0 \<le> ASCII" by (simp add: ASCII_def)
  then show ?thesis
    using byte_range_length class_bytes_length
    by (simp add: expand_item_def Let_def split: option.splits prod.splits)
qed

lemma expand_loop_result:
  assumes "length buf \<le> sz"
  shows "expand_loop arg buf sz = Usage \<or> (\<exists>cs sz'. expand_loop arg buf sz = Expanded (buf @ cs) sz' \<and>
    length (buf @ cs) \<le> sz' \<and> sz \<le> sz')"
  using assms
proof (induction arg buf sz rule: expand_loop.induct)
  case (1 arg buf sz)
  define sz' where "sz' = (if length buf + ASCII > sz then sz + ASCII else sz)"
  obtain cs rest where item: "expand_item arg = (cs, rest)" by (cases "expand_item arg")
  have len: "length buf + length cs \<le> sz'"
    using "1.prems" expand_item_length [of arg] by (simp add: sz'_def item)
  show ?case
  proof (cases "arg = []")
    case True
    then show ?thesis using "1.prems" by (simp add: expand_loop.simps [of "[]"])
  next
    case False
    show ?thesis
    proof (cases rest)
      case None
      then show ?thesis
        using False len by (simp add: expand_loop.simps [of arg] item Let_def flip: sz'_def)
    next
      case (Some arg')
      have step: "expand_loop arg buf sz = expand_loop arg' (buf @ cs) sz'"
        using False len by (subst expand_loop.simps) (simp add: item Some Let_def flip: sz'_def)
      have "expand_loop arg' (buf @ cs) sz' = Usage \<or> (\<exists>ds s. expand_loop arg' (buf @ cs) sz' = Expanded ((buf @ cs) @ ds) s \<and>
          length ((buf @ cs) @ ds) \<le> s \<and> sz' \<le> s)"
        using len by (intro "1.IH" [OF False sz'_def item [symmetric] _ Some]) auto
      moreover have "sz \<le> sz'" by (simp add: sz'_def)
      ultimately show ?thesis unfolding step by fastforce
    qed
  qed
qed

section \<open>What a set stands for\<close>

datatype tr_item = Plain byte | Octal byte | Range byte byte | Class nat | Equiv byte

text \<open>The character classes of POSIX, in the order of their numbers.\<close>

definition upper :: "byte \<Rightarrow> bool" where "upper c \<longleftrightarrow> 0x41 \<le> c \<and> c \<le> 0x5A"
definition lower :: "byte \<Rightarrow> bool" where "lower c \<longleftrightarrow> 0x61 \<le> c \<and> c \<le> 0x7A"

definition class_pred :: "nat \<Rightarrow> byte \<Rightarrow> bool" where
  "class_pred j = [\<lambda>c. upper c \<or> lower c, \<lambda>c. upper c \<or> lower c \<or> is_digit c, is_digit, lower, upper,
     \<lambda>c. c = 0x20 \<or> 9 \<le> c \<and> c \<le> 13, \<lambda>c. c = 0x20 \<or> c = 9,
     \<lambda>c. 0x21 \<le> c \<and> c \<le> 0x7E \<and> \<not> (upper c \<or> lower c \<or> is_digit c), \<lambda>c. c < 0x20 \<or> c = 0x7F,
     \<lambda>c. is_digit c \<or> 0x41 \<le> c \<and> c \<le> 0x46 \<or> 0x61 \<le> c \<and> c \<le> 0x66] ! (j - 1)"

definition class_name :: "nat \<Rightarrow> string" where
  "class_name j = [''alpha'', ''alnum'', ''digit'', ''lower'', ''upper'', ''space'', ''blank'', ''punct'', ''cntrl'', ''xdigit''] ! (j - 1)"

definition bytes_where :: "(byte \<Rightarrow> bool) \<Rightarrow> byte list" where
  "bytes_where P = filter P (map of_nat [0..<256])"

primrec item_bytes :: "tr_item \<Rightarrow> byte list" where
  "item_bytes (Plain c) = [c]"
| "item_bytes (Octal c) = [c]"
| "item_bytes (Range a b) = bytes_where (\<lambda>c. a \<le> c \<and> c \<le> b)"
| "item_bytes (Class j) = bytes_where (class_pred j)"
| "item_bytes (Equiv c) = [c]"

primrec item_text :: "tr_item \<Rightarrow> byte list" where
  "item_text (Plain c) = [c]"
| "item_text (Octal c) = [0x5C, of_nat (48 + unat c div 64), of_nat (48 + unat c div 8 mod 8), of_nat (48 + unat c mod 8)]"
| "item_text (Range a b) = [a, 0x2D, b]"
| "item_text (Class j) = [0x5B, 0x3A] @ bytes_of (class_name j) @ [0x3A, 0x5D]"
| "item_text (Equiv c) = [0x5B, 0x3D, c, 0x3D, 0x5D]"

text \<open>
  The constructs that the comment in front of \<open>expand\<close> names as supported. A plain byte is not a bracket, so
  that \<open>[x*]\<close> and \<open>[x*N]\<close> are not among them, and the ends of a range are plain bytes in ascending order,
  so that octal ranges are not.
\<close>

primrec wf_item :: "tr_item \<Rightarrow> bool" where
  "wf_item (Plain c) \<longleftrightarrow> c \<notin> {0, 0x5C, 0x5B, 0x2D}"
| "wf_item (Octal c) \<longleftrightarrow> True"
| "wf_item (Range a b) \<longleftrightarrow> a \<notin> {0, 0x5C, 0x5B, 0x2D} \<and> b \<notin> {0, 0x5C, 0x5B} \<and> a \<le> b"
| "wf_item (Class j) \<longleftrightarrow> 1 \<le> j \<and> j \<le> 10"
| "wf_item (Equiv c) \<longleftrightarrow> c \<notin> {0, 0x5C}"

lemma byte_range_where: "byte_range a b = bytes_where (\<lambda>c. a \<le> c \<and> c \<le> b)"
proof -
  have "filter (\<lambda>i. unat a \<le> i \<and> i \<le> unat b) [0..<256] = [unat a..<Suc (unat b)]"
    using unsigned_less [of b, where ?'a = nat]
    by (intro sorted_distinct_set_unique) (auto simp: sorted_wrt_filter simp del: upt_Suc)
  moreover have "bytes_where (\<lambda>c. a \<le> c \<and> c \<le> b) = map of_nat (filter (\<lambda>i. unat a \<le> i \<and> i \<le> unat b) [0..<256])"
    unfolding bytes_where_def filter_map o_def
    by (intro arg_cong [where f = "map of_nat"] filter_cong) (auto simp: word_le_nat_alt unat_of_nat)
  ultimately show ?thesis by (simp add: byte_range_def)
qed

lemma bytes_where_facts [simp]:
  "sorted (bytes_where P)" "distinct (bytes_where P)" "set (bytes_where P) = {c. P c}"
proof -
  let ?bs = "map of_nat [0..<256] :: byte list"
  have nat: "unat (of_nat i :: byte) = i" if "i < 256" for i
    using that by (subst unat_of_nat) simp
  have "sorted ?bs"
    by (auto simp: sorted_iff_nth_mono word_le_nat_alt nat)
  then show "sorted (bytes_where P)" by (simp add: bytes_where_def sorted_wrt_filter)
  have "distinct ?bs"
    by (auto simp: distinct_map inj_on_def dest!: arg_cong [where f = unat]) (metis nat)
  then show "distinct (bytes_where P)" by (simp add: bytes_where_def)
  have "c \<in> set ?bs" for c
  proof -
    have "c = of_nat (unat c)" "unat c \<in> set [0..<256]"
      using unsigned_less [of c, where ?'a = nat] by simp_all
    then show ?thesis by (metis image_eqI set_map)
  qed
  then show "set (bytes_where P) = {c. P c}" by (auto simp: bytes_where_def)
qed

lemma bytes_whereI:
  assumes "sorted xs" and "distinct xs" and "\<And>c. c \<in> set xs \<longleftrightarrow> P c"
  shows "xs = bytes_where P"
  using assms by (intro sorted_distinct_set_unique) auto

lemma isprint_range: "isprint_asciionly c \<longleftrightarrow> 0x20 \<le> c \<and> c \<le> 0x7E"
  using unsigned_less [of c, where ?'a = nat]
  by (auto simp: isprint_asciionly_def word_le_nat_alt unat_sub_if' unsigned_ucast_eq take_bit_nat_eq_self)

lemma is_alnum_classes: "is_alnum c \<longleftrightarrow> upper c \<or> lower c \<or> is_digit c"
  by (auto simp: is_alnum_def c_digit_def upper_def lower_def is_digit_def)

text \<open>Ascending ranges behind each other.\<close>

lemma bytes_where_append:
  assumes "\<And>x y. P x \<Longrightarrow> Q y \<Longrightarrow> x < y"
  shows "bytes_where P @ bytes_where Q = bytes_where (\<lambda>c. P c \<or> Q c)"
proof (rule bytes_whereI)
  show "sorted (bytes_where P @ bytes_where Q)"
    using assms by (fastforce simp: sorted_append)
  show "distinct (bytes_where P @ bytes_where Q)"
    using assms by fastforce
qed auto

lemma two_ranges:
  assumes "b < c"
  shows "byte_range a b @ byte_range c d = bytes_where (\<lambda>x. a \<le> x \<and> x \<le> b \<or> c \<le> x \<and> x \<le> d)"
  unfolding byte_range_where using assms by (intro bytes_where_append) auto

lemma three_ranges:
  assumes "b < c" and "b < e" and "d < e"
  shows "byte_range a b @ byte_range c d @ byte_range e f =
    bytes_where (\<lambda>x. a \<le> x \<and> x \<le> b \<or> c \<le> x \<and> x \<le> d \<or> e \<le> x \<and> x \<le> f)"
  unfolding two_ranges [OF assms(3)] unfolding byte_range_where using assms(1,2) by (intro bytes_where_append) auto

lemma class_bytes_ranges:
  "class_bytes 1 = byte_range 0x41 0x5A @ byte_range 0x61 0x7A"
  "class_bytes 2 = byte_range 0x30 0x39 @ byte_range 0x41 0x5A @ byte_range 0x61 0x7A"
  "class_bytes 3 = byte_range 0x30 0x39"
  "class_bytes 4 = byte_range 0x61 0x7A"
  "class_bytes 5 = byte_range 0x41 0x5A"
  by (simp_all add: class_bytes_def)

lemma class_bytes_lists:
  "class_bytes 6 = byte_range 9 13 @ byte_range 0x20 0x20"
  "class_bytes 7 = byte_range 9 9 @ byte_range 0x20 0x20"
  "class_bytes 10 = byte_range 0x30 0x39 @ byte_range 0x41 0x46 @ byte_range 0x61 0x66"
  by (simp_all add: class_bytes_def byte_range_def upt_rec)

lemma class_bytes_filters:
  "class_bytes 8 = bytes_where (\<lambda>i. isprint_asciionly i \<and> \<not> is_alnum i \<and> \<not> is_space i)"
  "class_bytes 9 = bytes_where iscntrl"
  by (simp_all add: class_bytes_def bytes_where_def ASCII_def)

lemma bytes_where_cong: "(\<And>c. P c \<longleftrightarrow> Q c) \<Longrightarrow> bytes_where P = bytes_where Q"
  by (intro arg_cong [where f = bytes_where] ext)

lemma class_bytes_where:
  assumes "1 \<le> j" and "j \<le> 10"
  shows "class_bytes j = bytes_where (class_pred j)"
proof -
  note preds = class_pred_def upper_def lower_def is_digit_def is_space_def isprint_range is_alnum_classes iscntrl_def
  have "class_bytes 3 = bytes_where (class_pred 3)" "class_bytes 4 = bytes_where (class_pred 4)"
    "class_bytes 5 = bytes_where (class_pred 5)"
    unfolding class_bytes_ranges byte_range_where by (auto simp: preds intro!: bytes_where_cong)
  moreover have "class_bytes 1 = bytes_where (class_pred 1)" "class_bytes 6 = bytes_where (class_pred 6)"
    "class_bytes 7 = bytes_where (class_pred 7)"
    unfolding class_bytes_ranges class_bytes_lists
    by (rule trans [OF two_ranges bytes_where_cong]; auto simp: preds)+
  moreover have "class_bytes 2 = bytes_where (class_pred 2)" "class_bytes 10 = bytes_where (class_pred 10)"
    unfolding class_bytes_ranges class_bytes_lists
    by (rule trans [OF three_ranges bytes_where_cong]; auto simp: preds)+
  moreover have "class_bytes 8 = bytes_where (class_pred 8)" "class_bytes 9 = bytes_where (class_pred 9)"
    unfolding class_bytes_filters
    by (auto simp: preds word_le_nat_alt word_unat_eq_iff intro!: bytes_where_cong)
  moreover have "j = 1 \<or> j = 2 \<or> j = 3 \<or> j = 4 \<or> j = 5 \<or> j = 6 \<or> j = 7 \<or> j = 8 \<or> j = 9 \<or> j = 10"
    using assms by presburger
  ultimately show ?thesis by (elim disjE) simp_all
qed

lemma esc_digit_octal:
  assumes "d < 8"
  shows "esc_digit (of_nat (48 + d)) = of_nat d"
proof -
  have "list_all (\<lambda>d. esc_digit (of_nat (48 + d)) = of_nat d) [0..<8]" by code_simp
  then show ?thesis using assms by (simp add: list_all_iff)
qed

text \<open>A turn of the digit loop on an octal digit.\<close>

lemma esc_loop_octal:
  assumes "d < 8" and "n * 8 + d < 256"
  shows "esc_loop 8 k (of_nat n) (of_nat (48 + d) # q) =
    (if k + 1 < 3 then esc_loop 8 (k + 1) (of_nat (n * 8 + d)) q else Some (of_nat (n * 8 + d), k + 1, q))"
proof -
  have "\<not> (8 :: u32) \<le> of_nat d" using assms(1) by (simp add: word_le_nat_alt unat_of_nat)
  moreover have "\<not> (255 :: u32) < of_nat (n * 8 + d)" using assms(2)
    by (simp add: word_less_nat_alt unat_of_nat del: of_nat_add of_nat_mult)
  ultimately show ?thesis
    using esc_digit_octal [OF assms(1)] by (subst esc_loop.simps) (simp add: char_at_def Let_def)
qed

lemma escape_octal: "bb_process_escape_sequence (tl (item_text (Octal c)) @ s) = (c, s)"
proof -
  define n where "n = unat c"
  have n: "n < 256" using unsigned_less [of c, where ?'a = nat] by (simp add: n_def)
  have digits: "n div 64 < 8" "n div 8 mod 8 < 8" "n mod 8 < 8" using n by auto
  have sums: "n div 64 * 8 + n div 8 mod 8 = n div 8" "n div 8 * 8 + n mod 8 = n"
    by (simp_all add: div_mult2_eq [of n 8 8, simplified])
  have "esc_loop 8 0 0 (of_nat (48 + n div 64) # of_nat (48 + n div 8 mod 8) # of_nat (48 + n mod 8) # s) = Some (of_nat n, 3, s)"
    using esc_loop_octal [OF digits(1), of 0 0] esc_loop_octal [OF digits(2), of "n div 64" 1]
      esc_loop_octal [OF digits(3), of "n div 8" 2] n sums
    by (simp add: numeral_2_eq_2)
  moreover have "of_nat (48 + n div 64) \<noteq> (0x78 :: byte)"
  proof -
    have "unat (of_nat (48 + n div 64) :: byte) = 48 + n div 64"
      using digits(1) by (subst unat_of_nat) simp
    then show ?thesis using digits(1) by auto
  qed
  moreover have "ucast (of_nat n :: u32) = c"
    unfolding n_def by (simp add: ucast_up_ucast_id is_up)
  ultimately show ?thesis
    by (simp add: bb_process_escape_sequence_def char_at_def n_def del: of_nat_add)
qed

lemma expand_item_item:
  assumes "wf_item it" and "char_at s 0 \<noteq> 0x2D"
  shows "expand_item (item_text it @ s) = (item_bytes it, Some s)"
proof (cases it)
  case (Class j)
  have "list_all (\<lambda>j. expand_item ([0x5B, 0x3A] @ bytes_of (class_name j) @ [0x3A, 0x5D] @ s) =
      (class_bytes j, Some s)) [1..<11]"
    by (simp add: upt_rec expand_item_def char_at_def tr_classes_def class_name_def bytes_of_def)
  then show ?thesis using assms Class class_bytes_where [of j] by (simp add: list_all_iff)
next
  case (Octal c)
  then show ?thesis using escape_octal [of c s] by (simp add: expand_item_def char_at_def)
next
  case (Plain c)
  then show ?thesis using assms by (cases s) (auto simp: expand_item_def char_at_def)
next
  case (Range a b)
  then show ?thesis using assms by (auto simp: expand_item_def char_at_def byte_range_where)
next
  case (Equiv c)
  then show ?thesis using assms by (auto simp: expand_item_def char_at_def)
qed

lemma item_text_start: "wf_item it \<Longrightarrow> item_text it \<noteq> [] \<and> char_at (item_text it @ s) 0 \<noteq> 0x2D"
  by (cases it) (auto simp: char_at_def)

lemma items_text_start: "list_all wf_item its \<Longrightarrow> char_at (concat (map item_text its)) 0 \<noteq> 0x2D"
  using item_text_start [of "hd its" "concat (map item_text (tl its))"]
  by (cases its) (auto simp: char_at_def [of "[]"])

lemma expand_items:
  assumes "list_all wf_item its" and "length buf \<le> sz"
  shows "\<exists>sz'. expand_loop (concat (map item_text its)) buf sz = Expanded (buf @ concat (map item_bytes its)) sz'"
  using assms
proof (induction its arbitrary: buf sz)
  case Nil
  then show ?case by (simp add: expand_loop.simps)
next
  case (Cons it its)
  let ?s = "concat (map item_text its)"
  define sz' where "sz' = (if length buf + ASCII > sz then sz + ASCII else sz)"
  have it: "expand_item (item_text it @ ?s) = (item_bytes it, Some ?s)"
    using Cons.prems items_text_start [of its] by (intro expand_item_item) auto
  have len: "length buf + length (item_bytes it) \<le> sz'"
    using Cons.prems(2) expand_item_length [of "item_text it @ ?s"] by (simp add: it sz'_def)
  have "expand_loop (item_text it @ ?s) buf sz = expand_loop ?s (buf @ item_bytes it) sz'"
    using len item_text_start [of it] Cons.prems(1)
    by (subst expand_loop.simps) (simp add: it Let_def flip: sz'_def)
  then show ?case
    using Cons.IH [of "buf @ item_bytes it" sz'] Cons.prems len by simp
qed

section \<open>What the program does\<close>

text \<open>
  The second string is extended by its last byte; of several entries for a byte the last counts.
\<close>

definition translate :: "byte list \<Rightarrow> byte list \<Rightarrow> byte \<Rightarrow> byte" where
  "translate s1 s2 c = (case map_of (rev (zip s1 (s2 @ replicate (length s1) (last s2)))) c of Some d \<Rightarrow> d | None \<Rightarrow> c)"

text \<open>Runs of equal bytes of a set become one byte.\<close>

fun squeeze :: "byte set \<Rightarrow> byte list \<Rightarrow> byte list" where
  "squeeze S (c # d # cs) = (if c = d \<and> c \<in> S then squeeze S (d # cs) else c # squeeze S (d # cs))"
| "squeeze S cs = cs"

definition tr_spec :: "bool \<Rightarrow> bool \<Rightarrow> byte list \<Rightarrow> byte list option \<Rightarrow> byte list \<Rightarrow> byte list" where
  "tr_spec del squ s1 s2 inp =
     (let kept = (if del then filter (\<lambda>c. c \<notin> set s1) inp else inp);
          coded = (case s2 of None \<Rightarrow> kept | Some s2 \<Rightarrow> map (translate s1 s2) kept)
      in if squ then squeeze (case s2 of None \<Rightarrow> set s1 | Some s2 \<Rightarrow> set s2) coded else coded)"

lemma tr_map_length [simp]: "length (tr_map v l s1 s2) = length v"
  by (induction v l s1 s2 rule: tr_map.induct) simp_all

lemma zip_pad:
  "length xs \<le> n \<Longrightarrow> zip xs (ys @ replicate (Suc n) x) = zip xs (ys @ replicate n x)"
proof (induction xs arbitrary: ys n)
  case (Cons a xs)
  then obtain m where n: "n = Suc m" by (cases n) auto
  show ?case
    using Cons.IH [of m "[]"] Cons.IH [of n "tl ys"] Cons.prems by (cases ys) (auto simp: n)
qed simp

lemma tr_map_nth:
  assumes "length v = 256"
  shows "tr_map v l s1 s2 ! unat c =
    (case map_of (rev (zip s1 (s2 @ replicate (length s1) (last (l # s2))))) c of Some d \<Rightarrow> d | None \<Rightarrow> v ! unat c)"
  using assms
proof (induction v l s1 s2 rule: tr_map.induct)
  case (2 v l b s1)
  have "v[unat b := l] ! unat c = (if b = c then l else v ! unat c)"
    using 2(2) unsigned_less [of b, where ?'a = nat] by (simp add: nth_list_update word_unat_eq_iff)
  with 2 show ?case by (auto simp: map_add_def split: option.splits)
next
  case (3 v l b s1 d s2)
  have "v[unat b := d] ! unat c = (if b = c then d else v ! unat c)"
    using 3(2) unsigned_less [of b, where ?'a = nat] by (simp add: nth_list_update word_unat_eq_iff)
  with 3 zip_pad [of s1 "length s1" s2 "last (d # s2)"] show ?case
    by (auto simp: map_add_def split: option.splits if_splits)
qed simp

lemma mark_all_nth: "mark_all s ! unat c \<longleftrightarrow> c \<in> set s"
proof -
  have "length v = 256 \<Longrightarrow> foldl (\<lambda>v c. v[unat c := True]) v s ! unat c \<longleftrightarrow> c \<in> set s \<or> v ! unat c" for v
  proof (induction s arbitrary: v)
    case (Cons b s)
    have "unat b < length v" using Cons.prems unsigned_less [of b, where ?'a = nat] by simp
    with Cons show ?case by (auto simp: nth_list_update word_unat_eq_iff)
  qed simp
  then show ?thesis
    using unsigned_less [of c, where ?'a = nat] by (simp add: mark_all_def ASCII_def)
qed

lemma identity_nth: "map of_nat [0..<ASCII] ! unat c = (c :: byte)"
  using unsigned_less [of c, where ?'a = nat] by (simp add: ASCII_def)

text \<open>The loop over the input, as deletion, translation and squeezing.\<close>

definition squeeze_behind :: "byte option \<Rightarrow> byte set \<Rightarrow> byte list \<Rightarrow> byte list" where
  "squeeze_behind l S cs = (case l of None \<Rightarrow> squeeze S cs | Some c \<Rightarrow> tl (squeeze S (c # cs)))"

lemma squeeze_hd: "\<exists>ds. squeeze S (c # cs) = c # ds"
  by (induction cs arbitrary: c) auto

lemma squeeze_behind_step:
  "squeeze_behind l S (c # cs) =
    (if l = Some c \<and> c \<in> S then squeeze_behind l S cs else c # squeeze_behind (Some c) S cs)"
proof -
  obtain ds where "squeeze S (c # cs) = c # ds" using squeeze_hd by blast
  then show ?thesis by (cases l) (auto simp: squeeze_behind_def)
qed

lemma tr_chunk_result:
  assumes vec: "\<And>c. vec ! unat c = f c" and inv: "\<And>c. invec ! unat c \<longleftrightarrow> c \<in> S1"
    and outv: "\<And>c. outvec ! unat c \<longleftrightarrow> c \<in> S2"
    and S: "\<And>c. (bit opts 2 \<longrightarrow> c \<notin> S1) \<Longrightarrow> c \<in> S1 \<or> f c \<in> S2 \<longleftrightarrow> f c \<in> S"
    and l: "\<And>c. last1 = unat c \<longleftrightarrow> l = Some c"
  shows "snd (tr_chunk opts vec invec outvec (last1, out) cs) =
    out @ (let coded = map f (if bit opts 2 then filter (\<lambda>c. c \<notin> S1) cs else cs)
           in if bit opts 3 then squeeze_behind l S coded else coded)"
  using l
proof (induction cs arbitrary: last1 l out)
  case Nil
  then show ?case by (cases l) (simp_all add: tr_chunk_def squeeze_behind_def)
next
  case (Cons c cs)
  have l': "unat (f c) = unat d \<longleftrightarrow> Some (f c) = Some d" for d by (simp add: word_unat_eq_iff)
  show ?case
    using Cons.IH [OF Cons.prems, of out] Cons.IH [OF l', of "out @ [f c]"] Cons.prems [of "f c"] S [of c]
    by (simp add: tr_chunk_def tr_step_def vec inv outv squeeze_behind_step Let_def) blast
qed

interpretation tr: chunk_action "tr_chunk opts vec invec outvec" for opts vec invec outvec
  by unfold_locales (simp_all add: tr_chunk_def)

lemma translate_in: "s2 \<noteq> [] \<Longrightarrow> c \<in> set s1 \<Longrightarrow> translate s1 s2 c \<in> set s2"
proof -
  assume "s2 \<noteq> []" "c \<in> set s1"
  let ?pad = "s2 @ replicate (length s1) (last s2)"
  have "map fst (zip s1 ?pad) = s1" by (simp add: map_fst_zip_take)
  then have "c \<in> fst ` set (rev (zip s1 ?pad))" using \<open>c \<in> set s1\<close> by (metis set_map set_rev)
  then obtain d where d: "map_of (rev (zip s1 ?pad)) c = Some d"
    by (metis map_of_eq_None_iff option.exhaust)
  then have "d \<in> set ?pad" using map_of_SomeD set_zip_rightD by fastforce
  then show ?thesis using d \<open>s2 \<noteq> []\<close> by (auto simp: translate_def)
qed

lemma translate_out: "c \<notin> set s1 \<Longrightarrow> translate s1 s2 c = c"
  by (auto simp: translate_def split: option.splits dest!: map_of_SomeD set_zip_leftD)

lemma tr_map_translate:
  assumes "s2 \<noteq> []"
  shows "tr_map (map of_nat [0..<ASCII]) l s1 s2 ! unat c = translate s1 s2 c"
proof -
  have "length (map of_nat [0..<ASCII] :: byte list) = 256" by (simp add: ASCII_def)
  from tr_map_nth [OF this] show ?thesis
    using assms by (simp add: translate_def identity_nth split: option.splits)
qed

lemma tr_loop_result:
  assumes "\<And>c. vec ! unat c = f c" and "\<And>c. (bit opts 2 \<longrightarrow> c \<notin> set s1) \<Longrightarrow> c \<in> set s1 \<or> f c \<in> set s2 \<longleftrightarrow> f c \<in> S"
    and "coded = map f (if bit opts 2 then filter (\<lambda>c. c \<notin> set s1) (input_data fd) else input_data fd)"
    and "out = (if bit opts 3 then squeeze S coded else coded)"
  shows "tr_loop opts vec s1 s2 fd =
    (if input_ok fd then Tr_Exit 0 out [] else Tr_Exit 1 out [Perror_Msg (bytes_of ''read error'')])"
proof -
  obtain fd' where "read_each TR_BUFSIZ (tr_chunk opts vec (mark_all s1) (mark_all s2)) (256, []) fd =
      (tr_chunk opts vec (mark_all s1) (mark_all s2) (256, []) (input_data fd), input_ok fd, fd')"
    using tr.read_each_all [of TR_BUFSIZ opts vec "mark_all s1" "mark_all s2" "(256, [])" fd]
    by (auto simp: TR_BUFSIZ_def)
  moreover have "snd (tr_chunk opts vec (mark_all s1) (mark_all s2) (256, []) (input_data fd)) = out"
  proof -
    have "256 = unat c \<longleftrightarrow> None = Some c" for c :: byte
      using unsigned_less [of c, where ?'a = nat] by auto
    from tr_chunk_result [of vec f, OF assms(1) mark_all_nth mark_all_nth assms(2) this]
    show ?thesis by (simp add: assms(3,4) Let_def squeeze_behind_def)
  qed
  ultimately show ?thesis
    by (cases "tr_chunk opts vec (mark_all s1) (mark_all s2) (256, []) (input_data fd)") (simp add: tr_loop_def)
qed

section \<open>Properties\<close>

lemma tr_main_sets:
  assumes "expand_tr a1 = Expanded s1 z1" and "expand_tr a2 = Expanded s2 z2" and "s2 \<noteq> []"
    and "s = (if bit opts 0 \<or> bit opts 1 then complement s1 else s1)"
    and "result = (\<lambda>out. if input_ok fd then Tr_Exit 0 out [] else Tr_Exit 1 out [Perror_Msg (bytes_of ''read error'')])"
  shows "tr_main opts [a1] fd = result (tr_spec (bit opts 2) (bit opts 3) s None (input_data fd))"
    and "tr_main opts [a1, a2] fd = result (tr_spec (bit opts 2) (bit opts 3) s (Some s2) (input_data fd))"
proof -
  have "tr_main opts [a1] fd = tr_loop opts (map of_nat [0..<ASCII]) s [] fd"
    by (simp add: tr_main_def assms(1,4) Let_def)
  then show "tr_main opts [a1] fd = result (tr_spec (bit opts 2) (bit opts 3) s None (input_data fd))"
    using tr_loop_result [where f = "\<lambda>c. c" and S = "set s", OF identity_nth _ refl refl]
    by (simp add: assms(5) tr_spec_def Let_def)
next
  have "a2 \<noteq> []" using assms(2,3) by (auto simp: expand_tr_def expand_loop.simps)
  then have "tr_main opts [a1, a2] fd = tr_loop opts (tr_map (map of_nat [0..<ASCII]) 0x30 s s2) s s2 fd"
    by (simp add: tr_main_def assms(1,2,4) Let_def)
  moreover have "c \<in> set s \<or> translate s s2 c \<in> set s2 \<longleftrightarrow> translate s s2 c \<in> set s2" for c
    using translate_in [OF assms(3)] by blast
  note tr_loop_result [where f = "translate s s2" and S = "set s2", OF tr_map_translate [OF assms(3)] this refl refl]
  ultimately show "tr_main opts [a1, a2] fd = result (tr_spec (bit opts 2) (bit opts 3) s (Some s2) (input_data fd))"
    by (simp add: assms(5) tr_spec_def Let_def)
qed

lemma item_bytes_some: "wf_item it \<Longrightarrow> item_bytes it \<noteq> []"
proof (cases it)
  case (Class j)
  have "list_all (\<lambda>j. \<exists>c\<in>{0x20, 0x30, 0x41, 0x61, 0x21, 0}. class_pred j c) [1..<11]"
    by (simp add: upt_rec class_pred_def upper_def lower_def is_digit_def)
  moreover assume "wf_item it"
  ultimately have "\<exists>c. class_pred j c" using Class by (auto simp: list_all_iff)
  then have "set (item_bytes it) \<noteq> {}" using Class by simp
  then show ?thesis by force
next
  case (Range a b)
  moreover assume "wf_item it"
  ultimately have "set (item_bytes it) \<noteq> {}" by auto
  then show ?thesis by force
qed auto

lemma complement_where: "complement s = bytes_where (\<lambda>c. c \<notin> set s)"
  by (simp add: complement_def bytes_where_def)

text \<open>
  C31: \<open>tr\<close> on sets that are written with the supported constructs (single bytes, three-digit octal
  escapes, ascending ranges of plain bytes, the ten character classes and equivalence classes, in any
  order and number), however the input arrives: with \<open>-d\<close> the bytes of the first set are deleted; the
  others are translated to the second set, if there is one, which is extended by its last byte; and with
  \<open>-s\<close> runs of bytes of the last set that is given become single bytes. With \<open>-c\<close> or \<open>-C\<close> the first set
  is complemented. If reading fails, what was read before has been written, and the exit status is 1.
\<close>

theorem tr_main_output:
  assumes "list_all wf_item its1" and "list_all wf_item its2" and "its2 \<noteq> []"
    and "a1 = concat (map item_text its1)" and "a2 = concat (map item_text its2)"
    and "s1 = concat (map item_bytes its1)" and "s2 = concat (map item_bytes its2)"
    and "s = (if bit opts 0 \<or> bit opts 1 then bytes_where (\<lambda>c. c \<notin> set s1) else s1)"
    and "result = (\<lambda>out. if input_ok fd then Tr_Exit 0 out [] else Tr_Exit 1 out [Perror_Msg (bytes_of ''read error'')])"
  shows "tr_main opts [a1] fd = result (tr_spec (bit opts 2) (bit opts 3) s None (input_data fd)) \<and>
    tr_main opts [a1, a2] fd = result (tr_spec (bit opts 2) (bit opts 3) s (Some s2) (input_data fd))"
proof -
  obtain z1 z2 where sets: "expand_tr a1 = Expanded s1 z1" "expand_tr a2 = Expanded s2 z2"
    using expand_items [OF assms(1), of "[]" TR_BUFSIZ] expand_items [OF assms(2), of "[]" TR_BUFSIZ] assms(4-7)
    by (auto simp: expand_tr_def)
  have "s2 \<noteq> []" using assms(2,3,7) item_bytes_some [of "hd its2"] by (cases its2) auto
  then show ?thesis
    using tr_main_sets [OF sets _ assms(8) [folded complement_where] assms(9)] by blast
qed

text \<open>Blanks and digits become an underscore, runs of it a single one.\<close>

theorem tr_main_output_witness:
  "tr_main 8 [bytes_of ''0-9[:blank:]'', bytes_of ''_''] [Data (bytes_of ''a 12b'')] = Tr_Exit 0 (bytes_of ''a_b'') []"
proof -
  let ?its = "[Range 0x30 0x39, Class 7]"
  have cs: "concat (map item_bytes ?its) = bytes_where (\<lambda>c. 0x30 \<le> c \<and> c \<le> 0x39) @ bytes_where (\<lambda>c. c = 0x20 \<or> c = 9)"
    by (simp add: class_pred_def)
  have "translate (concat (map item_bytes ?its)) [0x5F] c = (if c = 0x20 \<or> c = 9 \<or> 0x30 \<le> c \<and> c \<le> 0x39 then 0x5F else c)" for c
    using translate_in [of "[0x5F]" c "concat (map item_bytes ?its)"] translate_out [of c "concat (map item_bytes ?its)" "[0x5F]"]
    unfolding cs by auto
  moreover have "\<not> bit (8 :: nat) 0" "\<not> bit (8 :: nat) 1" "\<not> bit (8 :: nat) 2" "bit (8 :: nat) 3"
    by (simp_all add: bit_iff_odd)
  ultimately show ?thesis
    using tr_main_output [of ?its "[Plain 0x5F]" _ _ _ _ _ "8 :: nat" _ "[Data (bytes_of ''a 12b'')]", OF _ _ _ refl refl refl refl refl refl]
    by (simp add: tr_spec_def bytes_of_def class_name_def Let_def)
qed

text \<open>
  \<open>expand\<close> reads back what a set is written as: single bytes, three-digit octal escapes, ranges,
  the ten character classes (the bytes of the POSIX class, in ascending order) and equivalence
  classes, in any order and number.
\<close>

theorem expand_reads_items:
  assumes "list_all wf_item its"
  shows "\<exists>sz. expand_tr (concat (map item_text its)) = Expanded (concat (map item_bytes its)) sz"
  using expand_items [OF assms, of "[]" TR_BUFSIZ] by (simp add: expand_tr_def)

theorem expand_reads_items_witness:
  "\<exists>sz. expand_tr ([0x61] @ [0x5C, 0x31, 0x30, 0x30] @ [0x30, 0x2D, 0x32] @ bytes_of ''[:blank:]'') =
    Expanded ([0x61] @ [0x40] @ bytes_where (\<lambda>c. 0x30 \<le> c \<and> c \<le> 0x32) @ bytes_where (\<lambda>c. c = 0x20 \<or> c = 9)) sz"
  using expand_reads_items [of "[Plain 0x61, Octal 0x40, Range 0x30 0x32, Class 7]"]
  by (simp add: class_name_def bytes_of_def class_pred_def)

text \<open>
  C32: \<open>expand\<close> never writes behind the end of its buffer, whatever the argument is: the buffer grows
  in time, and it is never smaller than the \<open>TR_BUFSIZ\<close> bytes for which it is used afterwards.
\<close>

theorem expand_within_buffer:
  "expand_tr arg = Usage \<or> (\<exists>buf sz. expand_tr arg = Expanded buf sz \<and> length buf \<le> sz \<and> TR_BUFSIZ \<le> sz)"
  using expand_loop_result [of "[]" TR_BUFSIZ arg] by (auto simp: expand_tr_def)

section \<open>Where the program differs from what it means\<close>

text \<open>A second set without bytes, such as \<open>z-a\<close>, translates to the digit 0.\<close>

lemma translate_to_nothing: "c \<in> set s1 \<Longrightarrow> tr_map (map of_nat [0..<ASCII]) 0x30 s1 [] ! unat c = 0x30"
proof -
  assume c: "c \<in> set s1"
  have "length (map of_nat [0..<ASCII] :: byte list) = 256" by (simp add: ASCII_def)
  from tr_map_nth [OF this, of "0x30" s1 "[]" c] show ?thesis
    using c by (auto simp: zip_replicate2 map_of_eq_None_iff image_image split: option.splits dest!: map_of_SomeD)
qed

text \<open>The control characters \<open>0x10\<close> to \<open>0x17\<close> are octal digits.\<close>

lemma escape_control_digit: "bb_process_escape_sequence [0x11] = (1, [])"
  by code_simp

end
