(* ===== verification/Bb_Bits.thy ===== *)
theory Bb_Bits
  imports Bb_Io
begin

text \<open>
  The state of the decompressor of \<open>busybox/archival/libarchive/decompress_bunzip2.c\<close>
  (\<open>struct bunzip_data\<close>, \<open>struct group_data\<close>) and its bit reader \<open>get_bits\<close>, with the proof that the
  reader implements a stream of bits, from which bits that were read can be given back.

  The buffer \<open>inbuf\<close> is the list of its \<open>inbufCount\<close> bytes. \<open>read\<close> is called directly, so that an
  interruption counts as the end of the input. A computation gives a value or a reason to stop, and
  the state: a \<open>return\<close> of an error, a \<open>longjmp\<close>, an access outside of an array (\<open>Overrun\<close>), a \<open>longjmp\<close>
  to a frame that is gone (\<open>Undefined\<close>), the end of the program, or one of three further kinds of undefined
  behaviour, each with what shows it: the read of the selector at a position that was not set, of so
  many groups; the overflow of a count of repetitions, with its value; and the read of a symbol that
  was not set, of so many symbols.
\<close>

section \<open>State\<close>

record group_data =
  limit :: "int list"
  base :: "int list"
  permute :: "nat list"
  minLen :: nat
  maxLen :: nat

record bunzip_data =
  inbufBitCount :: nat
  inbufBits :: u32
  in_fd :: infile
  inbuf :: "byte list"
  inbufPos :: nat
  writeCopies :: nat
  writePos :: nat
  writeRunCountdown :: nat
  writeCount :: int
  writeCurrent :: byte
  headerCRC :: u32
  totalCRC :: u32
  writeCRC :: u32
  dbuf :: "u32 list"
  dbufSize :: nat
  crc32Table :: "u32 list"
  selectors :: "nat list"
  groups :: "group_data list"

datatype bz_stop = Retval int | Longjmp int | Overrun | Undefined | Died
  | Unset_Selector nat nat | Run_Overflow int | Unset_Symbol nat

type_synonym 'a bz = "bunzip_data \<Rightarrow> (bz_stop + 'a) \<times> bunzip_data"

definition bz_ret :: "'a \<Rightarrow> 'a bz" where
  "bz_ret a = (\<lambda>bd. (Inr a, bd))"

definition bz_stop :: "bz_stop \<Rightarrow> 'a bz" where
  "bz_stop e = (\<lambda>bd. (Inl e, bd))"

definition bz_bind :: "'a bz \<Rightarrow> ('a \<Rightarrow> 'b bz) \<Rightarrow> 'b bz" where
  "bz_bind m f = (\<lambda>bd. case m bd of (Inl e, bd) \<Rightarrow> (Inl e, bd) | (Inr a, bd) \<Rightarrow> f a bd)"

definition RETVAL_OK :: int where "RETVAL_OK = 0"
definition RETVAL_LAST_BLOCK :: int where "RETVAL_LAST_BLOCK = - 1"
definition RETVAL_NOT_BZIP_DATA :: int where "RETVAL_NOT_BZIP_DATA = - 2"
definition RETVAL_UNEXPECTED_INPUT_EOF :: int where "RETVAL_UNEXPECTED_INPUT_EOF = - 3"
definition RETVAL_SHORT_WRITE :: int where "RETVAL_SHORT_WRITE = - 4"
definition RETVAL_DATA_ERROR :: int where "RETVAL_DATA_ERROR = - 5"
definition RETVAL_OBSOLETE_INPUT :: int where "RETVAL_OBSOLETE_INPUT = - 7"

section \<open>Reading bits\<close>

definition IOBUF_SIZE :: nat where "IOBUF_SIZE = 4096"

text \<open>A single \<open>read (fd, buf, count)\<close>; \<open>None\<close> stands for \<open>-1\<close>.\<close>

definition read_once :: "nat \<Rightarrow> infile \<Rightarrow> byte list option \<times> infile" where
  "read_once count fd = (case fd of
       [] \<Rightarrow> (Some [], [])
     | Data bs # fd' \<Rightarrow>
         if length bs \<le> count then (Some bs, fd') else (Some (take count bs), Data (drop count bs) # fd')
     | Eintr # fd' \<Rightarrow> (None, fd')
     | Fail # fd' \<Rightarrow> (None, fd'))"

definition refill :: "unit bz" where
  "refill bd =
     (if inbufPos bd = length (inbuf bd) then
        (case read_once IOBUF_SIZE (in_fd bd) of
           (None, fd) \<Rightarrow> (Inl (Longjmp RETVAL_UNEXPECTED_INPUT_EOF), bd\<lparr>in_fd := fd, inbuf := []\<rparr>)
         | (Some bs, fd) \<Rightarrow>
             if bs = [] then (Inl (Longjmp RETVAL_UNEXPECTED_INPUT_EOF), bd\<lparr>in_fd := fd, inbuf := []\<rparr>)
             else (Inr (), bd\<lparr>in_fd := fd, inbuf := bs, inbufPos := 0\<rparr>))
      else (Inr (), bd))"

text \<open>\<open>bd->inbufBits = (bd->inbufBits << 8) | bd->inbuf[bd->inbufPos++]\<close>.\<close>

definition grab_byte :: "unit bz" where
  "grab_byte bd =
     (if inbufPos bd < length (inbuf bd) then
        (Inr (), bd\<lparr>inbufBits := push_bit 8 (inbufBits bd) OR ucast (inbuf bd ! inbufPos bd), inbufPos := inbufPos bd + 1\<rparr>)
      else (Inl Overrun, bd))"

text \<open>The loop, on \<open>bits\<close>, \<open>bit_count\<close> and \<open>bits_wanted\<close>.\<close>

function bits_loop :: "u32 \<Rightarrow> nat \<Rightarrow> nat \<Rightarrow> (u32 \<times> nat \<times> nat) bz" where
  "bits_loop bits bit_count bits_wanted bd =
     (if bits_wanted \<le> bit_count then (Inr (bits, bit_count, bits_wanted), bd)
      else case bz_bind refill (\<lambda>_. grab_byte) bd of
          (Inl e, bd') \<Rightarrow> (Inl e, bd')
        | (Inr _, bd') \<Rightarrow>
            if 24 \<le> bit_count then
              bits_loop (push_bit (bits_wanted - bit_count) (inbufBits bd AND mask bit_count)) 8
                (bits_wanted - bit_count) bd'
            else bits_loop bits (bit_count + 8) bits_wanted bd')"
  by pat_completeness auto
termination
  by (relation "measure (\<lambda>(bits, bit_count, bits_wanted, bd). bits_wanted - bit_count)") auto

declare bits_loop.simps [simp del]

definition get_bits :: "nat \<Rightarrow> u32 bz" where
  "get_bits bits_wanted bd =
     (case bits_loop 0 (inbufBitCount bd) bits_wanted bd of
        (Inl e, bd) \<Rightarrow> (Inl e, bd)
      | (Inr (bits, bit_count, bits_wanted), bd) \<Rightarrow>
          (Inr (bits OR (drop_bit (bit_count - bits_wanted) (inbufBits bd) AND mask bits_wanted)),
           bd\<lparr>inbufBitCount := bit_count - bits_wanted\<rparr>))"

section \<open>The stream of bits\<close>

text \<open>The low \<open>n\<close> bits of a word, the highest of them first, and the number that bits stand for.\<close>

definition low_bits :: "nat \<Rightarrow> 'a::len word \<Rightarrow> bool list" where
  "low_bits n w = map (\<lambda>i. bit w (n - 1 - i)) [0..<n]"

definition bits_val :: "bool list \<Rightarrow> u32" where
  "bits_val bs = foldl (\<lambda>v b. 2 * v + of_bool b) 0 bs"

definition byte_stream :: "byte list \<Rightarrow> bool list" where
  "byte_stream bs = concat (map (low_bits 8) bs)"

text \<open>What \<open>read\<close> still gives; an interruption or an error ends it.\<close>

fun fd_data :: "infile \<Rightarrow> byte list" where
  "fd_data (Data bs # fd) = (if bs = [] then [] else bs @ fd_data fd)"
| "fd_data _ = []"

definition bit_stream :: "bunzip_data \<Rightarrow> bool list" where
  "bit_stream bd = low_bits (inbufBitCount bd) (inbufBits bd) @
     byte_stream (drop (inbufPos bd) (inbuf bd) @ fd_data (in_fd bd))"

definition bits_wf :: "bunzip_data \<Rightarrow> bool" where
  "bits_wf bd \<longleftrightarrow> inbufBitCount bd \<le> 27 \<and> inbufPos bd \<le> length (inbuf bd)"

text \<open>The interruption or error that ends the data, and what comes after it.\<close>

fun fd_behind :: "infile \<Rightarrow> infile" where
  "fd_behind (Data bs # fd) = (if bs = [] then Data bs # fd else fd_behind fd)"
| "fd_behind fd = fd"

lemma fd_behind_idem [simp]: "fd_behind (fd_behind fd) = fd_behind fd"
  by (induction fd rule: fd_behind.induct) auto

text \<open>The state without the reader, which reading leaves as it is.\<close>

definition core :: "bunzip_data \<Rightarrow> bunzip_data" where
  "core bd = bd\<lparr>inbufBitCount := 0, inbufBits := 0, in_fd := fd_behind (in_fd bd), inbuf := [], inbufPos := 0\<rparr>"

definition bits_only :: "bunzip_data \<Rightarrow> bunzip_data \<Rightarrow> bool" where
  "bits_only bd bd' \<longleftrightarrow> core bd' = core bd"

lemma bits_only_trans [trans]: "bits_only a b \<Longrightarrow> bits_only b c \<Longrightarrow> bits_only a c"
  by (simp add: bits_only_def)

lemma bits_only_refl [simp]: "bits_only bd bd"
  by (simp add: bits_only_def)

subsection \<open>Bits of words\<close>

lemma length_low_bits [simp]: "length (low_bits n w) = n"
  by (simp add: low_bits_def)

lemma low_bits_0 [simp]: "low_bits 0 w = []"
  by (simp add: low_bits_def)

lemma nth_low_bits: "i < n \<Longrightarrow> low_bits n w ! i = bit w (n - 1 - i)"
  by (simp add: low_bits_def)

lemma take_low_bits: "k \<le> n \<Longrightarrow> take k (low_bits n w) = low_bits k (drop_bit (n - k) w)"
  by (rule nth_equalityI) (auto simp: nth_low_bits bit_drop_bit_eq algebra_simps intro!: arg_cong [where f = "bit w"])

lemma drop_low_bits: "k \<le> n \<Longrightarrow> drop k (low_bits n w) = low_bits (n - k) w"
  by (rule nth_equalityI) (auto simp: nth_low_bits intro!: arg_cong [where f = "bit w"])

lemma low_bits_unget:
  assumes "j \<le> k" and "k \<le> n"
  shows "low_bits (n - k + j) w = drop (k - j) (take k (low_bits n w)) @ low_bits (n - k) w"
proof -
  have "low_bits (n - k + j) w = drop (k - j) (low_bits n w)"
    using assms by (simp add: drop_low_bits)
  also have "low_bits n w = take k (low_bits n w) @ low_bits (n - k) w"
    using assms by (simp flip: drop_low_bits)
  finally show ?thesis using assms by simp
qed

lemma low_bits_grab:
  fixes w :: u32 and b :: byte
  assumes "n + 8 \<le> 32"
  shows "low_bits (n + 8) (push_bit 8 w OR ucast b) = low_bits n w @ low_bits 8 b"
proof (rule nth_equalityI)
  fix i
  assume "i < length (low_bits (n + 8) (push_bit 8 w OR ucast b))"
  then show "low_bits (n + 8) (push_bit 8 w OR ucast b) ! i = (low_bits n w @ low_bits 8 b) ! i"
    using assms bit_imp_le_length [of b "n + 7 - i"]
    by (auto simp: nth_append nth_low_bits bit_or_iff bit_push_bit_iff bit_ucast_iff algebra_simps)
qed simp

lemma low_bits_Suc: "low_bits (Suc n) w = low_bits n (drop_bit 1 w) @ [bit w 0]"
proof (rule nth_equalityI)
  fix i
  assume "i < length (low_bits (Suc n) w)"
  then show "low_bits (Suc n) w ! i = (low_bits n (drop_bit 1 w) @ [bit w 0]) ! i"
    by (cases "i = n") (auto simp: nth_append nth_low_bits bit_drop_bit_eq Suc_diff_Suc)
qed simp

lemma bits_val_low: "bits_val (low_bits n w) = take_bit n w" for w :: u32
proof (induction n arbitrary: w)
  case (Suc n)
  have "bits_val (low_bits (Suc n) w) = 2 * take_bit n (drop_bit 1 w) + of_bool (bit w 0)"
    using Suc [of "drop_bit 1 w"] by (simp add: low_bits_Suc bits_val_def)
  also have "\<dots> = take_bit (Suc n) w"
    by (simp add: take_bit_Suc drop_bit_Suc bit_0 mod2_eq_if mult.commute)
  finally show ?case .
qed (simp add: bits_val_def)

lemma bits_val_snoc: "bits_val (bs @ [b]) = 2 * bits_val bs + of_bool b"
  by (simp add: bits_val_def)

lemma bits_val_append_plus: "bits_val (as @ bs) = push_bit (length bs) (bits_val as) + bits_val bs"
proof (induction bs rule: rev_induct)
  case (snoc b bs)
  then show ?case
    by (simp add: bits_val_snoc push_bit_eq_mult algebra_simps flip: append_assoc)
qed (simp add: bits_val_def)

definition bits_nat :: "bool list \<Rightarrow> nat" where
  "bits_nat bs = foldl (\<lambda>v b. 2 * v + of_bool b) 0 bs"

lemma bits_nat_snoc: "bits_nat (bs @ [b]) = 2 * bits_nat bs + of_bool b"
  by (simp add: bits_nat_def)

lemma bits_val_nat: "bits_val bs = of_nat (bits_nat bs)"
proof (induction bs rule: rev_induct)
  case (snoc b bs)
  then show ?case by (simp add: bits_val_snoc bits_nat_snoc)
qed (simp add: bits_val_def bits_nat_def)

lemma bits_nat_less: "bits_nat bs < 2 ^ length bs"
proof (induction bs rule: rev_induct)
  case (snoc b bs)
  then show ?case by (cases b) (simp_all add: bits_nat_snoc)
qed (simp add: bits_nat_def)

lemma unat_bits_val: "length bs \<le> 32 \<Longrightarrow> unat (bits_val bs) = bits_nat bs"
proof -
  assume "length bs \<le> 32"
  then have "bits_nat bs < 2 ^ 32"
    using bits_nat_less [of bs] by (meson less_le_trans one_le_numeral power_increasing)
  then show ?thesis unfolding bits_val_nat unat_u32_of_nat by simp
qed

lemma bits_val_bits: "take_bit (length bs) (bits_val bs) = bits_val bs"
  using bits_nat_less [of bs] by (simp add: bits_val_nat take_bit_of_nat take_bit_nat_eq_self)

lemma bits_val_append: "bits_val (as @ bs) = push_bit (length bs) (bits_val as) OR bits_val bs"
proof -
  have "push_bit (length bs) (bits_val as) + take_bit (length bs) (bits_val bs) =
      push_bit (length bs) (bits_val as) OR take_bit (length bs) (bits_val bs)"
    by (rule disjunctive_add_eq_or) (auto simp: bit_simps intro!: bit_word_eqI)
  then show ?thesis
    using bits_val_bits [of bs] by (simp add: bits_val_append_plus)
qed

subsection \<open>The reader\<close>

definition rest_bytes :: "bunzip_data \<Rightarrow> byte list" where
  "rest_bytes bd = drop (inbufPos bd) (inbuf bd) @ fd_data (in_fd bd)"

lemma bit_stream_rest: "bit_stream bd = low_bits (inbufBitCount bd) (inbufBits bd) @ byte_stream (rest_bytes bd)"
  by (simp add: bit_stream_def rest_bytes_def)

lemma read_once_some:
  assumes "fd_data fd \<noteq> []" and "0 < count"
  obtains bs fd' where "read_once count fd = (Some bs, fd')" and "bs \<noteq> []" and "bs @ fd_data fd' = fd_data fd"
    and "fd_behind fd' = fd_behind fd"
proof -
  obtain bs fd' where fd: "fd = Data bs # fd'" and bs: "bs \<noteq> []"
    using assms(1) by (cases fd rule: fd_data.cases) (auto split: if_splits)
  show thesis
  proof (cases "length bs \<le> count")
    case True
    then show thesis using that [of bs fd'] fd bs by (simp add: read_once_def)
  next
    case False
    then show thesis
      using that [of "take count bs" "Data (drop count bs) # fd'"] fd bs assms(2) by (simp add: read_once_def)
  qed
qed

text \<open>A byte comes from the rest, if there is one.\<close>

definition next_byte :: "unit bz" where
  "next_byte = bz_bind refill (\<lambda>_. grab_byte)"

lemma next_byte_some:
  assumes "rest_bytes bd = b # bs" and "inbufPos bd \<le> length (inbuf bd)"
  obtains bd' where "next_byte bd = (Inr (), bd')" and "inbufBits bd' = push_bit 8 (inbufBits bd) OR ucast b"
    and "rest_bytes bd' = bs" and "inbufBitCount bd' = inbufBitCount bd"
    and "inbufPos bd' \<le> length (inbuf bd')" and "bits_only bd bd'"
proof (cases "inbufPos bd = length (inbuf bd)")
  case True
  then have "fd_data (in_fd bd) = b # bs" using assms(1) by (simp add: rest_bytes_def)
  then obtain cs fd' where "read_once IOBUF_SIZE (in_fd bd) = (Some cs, fd')" "cs \<noteq> []" "cs @ fd_data fd' = b # bs"
      "fd_behind fd' = fd_behind (in_fd bd)"
    using read_once_some [of "in_fd bd" IOBUF_SIZE] by (auto simp: IOBUF_SIZE_def)
  then show thesis
    using True
    by (intro that [of "bd\<lparr>in_fd := fd', inbuf := cs, inbufBits := push_bit 8 (inbufBits bd) OR ucast b, inbufPos := 1\<rparr>"])
      (auto simp: next_byte_def bz_bind_def refill_def grab_byte_def rest_bytes_def bits_only_def core_def neq_Nil_conv)
next
  case False
  then have "inbuf bd ! inbufPos bd = b" "drop (Suc (inbufPos bd)) (inbuf bd) @ fd_data (in_fd bd) = bs"
    using assms by (auto simp: rest_bytes_def Cons_nth_drop_Suc [symmetric])
  then show thesis
    using False assms(2)
    by (intro that [of "bd\<lparr>inbufBits := push_bit 8 (inbufBits bd) OR ucast b, inbufPos := inbufPos bd + 1\<rparr>"])
      (auto simp: next_byte_def bz_bind_def refill_def grab_byte_def rest_bytes_def bits_only_def core_def)
qed

lemma next_byte_end:
  assumes "rest_bytes bd = []" and "inbufPos bd \<le> length (inbuf bd)"
  shows "fst (next_byte bd) = Inl (Longjmp RETVAL_UNEXPECTED_INPUT_EOF)"
proof -
  have "fd_data (in_fd bd) = []" "inbufPos bd = length (inbuf bd)"
    using assms by (auto simp: rest_bytes_def)
  then show ?thesis
    by (cases "in_fd bd" rule: fd_data.cases)
      (auto simp: next_byte_def bz_bind_def refill_def read_once_def split: if_splits)
qed

definition bits_at :: "nat \<Rightarrow> bunzip_data \<Rightarrow> bool list" where
  "bits_at c bd = low_bits c (inbufBits bd) @ byte_stream (rest_bytes bd)"

lemma byte_stream_Cons: "byte_stream (b # bs) = low_bits 8 b @ byte_stream bs"
  by (simp add: byte_stream_def)

lemma low_bits_inj: "low_bits LENGTH('a) (a :: 'a::len word) = low_bits LENGTH('a) b \<Longrightarrow> a = b"
proof (rule bit_word_eqI)
  fix n
  assume eq: "low_bits LENGTH('a) a = low_bits LENGTH('a) b" and n: "n < LENGTH('a)"
  then show "bit a n = bit b n"
    using nth_low_bits [of "LENGTH('a) - 1 - n" "LENGTH('a)" a] nth_low_bits [of "LENGTH('a) - 1 - n" "LENGTH('a)" b]
    by simp
qed

lemma length_byte_stream [simp]: "length (byte_stream bs) = 8 * length bs"
  by (induction bs) (simp_all add: byte_stream_def)

text \<open>
  What the loop hands over, when there are enough bits: the bits \<open>ds\<close> that were dumped to the top of
  the result, and at least as many in the bit buffer as are still wanted.
\<close>

definition loop_post :: "nat \<Rightarrow> nat \<Rightarrow> bunzip_data \<Rightarrow> bool list \<Rightarrow> nat \<Rightarrow> nat \<Rightarrow> bunzip_data \<Rightarrow> bool" where
  "loop_post c w bd ds c' w' bd' \<longleftrightarrow>
     bits_at c bd = ds @ bits_at c' bd' \<and> length ds + w' = w \<and> w' \<le> c' \<and>
     (ds = [] \<and> c' \<le> max c (w + 7) \<or> 24 < w \<and> 0 < w' \<and> c' = 8) \<and>
     inbufPos bd' \<le> length (inbuf bd') \<and> bits_only bd bd'"

lemma byte_stream_inj: "byte_stream as = byte_stream bs \<Longrightarrow> as = bs"
proof (induction as arbitrary: bs)
  case Nil
  from arg_cong [OF Nil, of length] show ?case by (simp add: byte_stream_def [of "[]"])
next
  case (Cons a as)
  from arg_cong [OF Cons(2), of length] obtain b bs' where "bs = b # bs'" by (cases bs) simp_all
  then show ?case
    using Cons low_bits_inj [of a b] by (simp add: byte_stream_Cons)
qed

lemma bits_at_grab:
  assumes "rest_bytes bd = b # bs" and "c \<le> 24"
    and "inbufBits bd' = push_bit 8 (inbufBits bd) OR ucast b" and "rest_bytes bd' = bs"
  shows "bits_at (c + 8) bd' = bits_at c bd"
  using assms by (simp add: bits_at_def byte_stream_Cons low_bits_grab)

lemma bits_loop_enough:
  assumes "w \<le> length (bits_at c bd)" and "w \<le> 32" and "c \<le> 31" and "inbufPos bd \<le> length (inbuf bd)"
  shows "\<exists>ds c' w' bd'. bits_loop 0 c w bd = (Inr (push_bit w' (bits_val ds), c', w'), bd') \<and> loop_post c w bd ds c' w' bd'"
  using assms
proof (induction "w - c" arbitrary: c bd rule: less_induct)
  case less
  show ?case
  proof (cases "w \<le> c")
    case True
    then show ?thesis
      using less.prems by (intro exI [of _ "[]"]) (simp add: bits_loop.simps loop_post_def bits_val_def)
  next
    case False
    then obtain b bs where rest: "rest_bytes bd = b # bs"
      using less.prems(1) by (cases "rest_bytes bd") (auto simp: bits_at_def byte_stream_def)
    obtain bd1 where step: "next_byte bd = (Inr (), bd1)" "inbufBits bd1 = push_bit 8 (inbufBits bd) OR ucast b"
        "rest_bytes bd1 = bs" and pos: "inbufPos bd1 \<le> length (inbuf bd1)" and only: "bits_only bd bd1"
      using next_byte_some [OF rest less.prems(4)] by metis
    show ?thesis
    proof (cases "c < 24")
      case True
      have at: "bits_at (c + 8) bd1 = bits_at c bd"
        using bits_at_grab [OF rest] True step by simp
      obtain ds c' w' bd' where "bits_loop 0 (c + 8) w bd1 = (Inr (push_bit w' (bits_val ds), c', w'), bd')"
        "loop_post (c + 8) w bd1 ds c' w' bd'"
        using less.hyps [of "c + 8" bd1, OF diff_less_mono2] less.prems at True False pos by auto
      then show ?thesis
        using True False at step(1) bits_only_trans [OF only]
        by (intro exI [of _ ds] exI [of _ c'] exI [of _ w'] exI [of _ bd'])
          (auto simp: bits_loop.simps [of 0 c] next_byte_def loop_post_def)
    next
      case c: False
      have "bits_at c bd = low_bits c (inbufBits bd) @ bits_at 8 bd1"
        using bits_at_grab [OF rest, of 0] step by (simp add: bits_at_def byte_stream_Cons low_bits_grab [of 0, simplified] rest)
      then show ?thesis
        using c False step(1) only pos less.prems
        by (intro exI [of _ "low_bits c (inbufBits bd)"] exI [of _ 8] exI [of _ "w - c"] exI [of _ bd1])
          (auto simp: bits_loop.simps [of 0 c] bits_loop.simps [of _ 8] next_byte_def loop_post_def bits_val_low
            simp flip: take_bit_eq_mask)
    qed
  qed
qed

lemma bits_loop_short:
  assumes "length (bits_at c bd) < w" and "w \<le> 32" and "c \<le> 31" and "inbufPos bd \<le> length (inbuf bd)"
  shows "fst (bits_loop v c w bd) = Inl (Longjmp RETVAL_UNEXPECTED_INPUT_EOF)"
  using assms
proof (induction "w - c" arbitrary: v c w bd rule: less_induct)
  case less
  have cw: "c < w" using less.prems(1) by (simp add: bits_at_def)
  show ?case
  proof (cases "rest_bytes bd")
    case Nil
    then show ?thesis
      using next_byte_end [OF Nil less.prems(4)] cw
      by (auto simp: bits_loop.simps [of _ c] next_byte_def split: prod.splits)
  next
    case (Cons b bs)
    obtain bd1 where step: "next_byte bd = (Inr (), bd1)" "rest_bytes bd1 = bs"
        and pos: "inbufPos bd1 \<le> length (inbuf bd1)"
      using next_byte_some [OF Cons less.prems(4)] by metis
    have "length (bits_at c bd) = c + 8 * (Suc (length bs))" using Cons by (simp add: bits_at_def)
    then show ?thesis
      using less.hyps [of "w - c" 8 bd1] less.hyps [of w "c + 8" bd1] less.prems cw step pos
      by (auto simp: bits_loop.simps [of _ c] next_byte_def bits_at_def)
  qed
qed

text \<open>Bits that were read are given back by \<open>bd->inbufBitCount += j\<close>.\<close>

definition unget_bits :: "nat \<Rightarrow> bunzip_data \<Rightarrow> bunzip_data" where
  "unget_bits j bd = bd\<lparr>inbufBitCount := inbufBitCount bd + j\<rparr>"

lemma unget_0 [simp]: "unget_bits 0 bd = bd"
  by (simp add: unget_bits_def)

lemma bit_stream_at: "bit_stream bd = bits_at (inbufBitCount bd) bd"
  by (simp add: bit_stream_rest bits_at_def)

lemma get_bits_stream:
  assumes "bit_stream bd = bs @ rest" and "length bs \<le> 32" and "bits_wf bd"
  obtains bd' where "get_bits (length bs) bd = (Inr (bits_val bs), bd')"
    and "\<And>j. j = 0 \<or> j \<le> length bs \<and> length bs \<le> 20 \<Longrightarrow>
      bit_stream (unget_bits j bd') = drop (length bs - j) bs @ rest \<and> bits_wf (unget_bits j bd')"
    and "bits_only bd bd'"
proof -
  let ?c = "inbufBitCount bd" and ?w = "length bs"
  have len: "?w \<le> length (bits_at ?c bd)" using assms(1) by (simp add: bit_stream_at)
  obtain ds c' w' bd' where loop: "bits_loop 0 ?c ?w bd = (Inr (push_bit w' (bits_val ds), c', w'), bd')"
      and post: "loop_post ?c ?w bd ds c' w' bd'"
    using bits_loop_enough [OF len assms(2)] assms(3) by (auto simp: bits_wf_def)
  have str: "bs @ rest = ds @ bits_at c' bd'" and lds: "length ds + w' = ?w" and w': "w' \<le> c'"
    using post assms(1) by (auto simp: loop_post_def bit_stream_at)
  let ?es = "take w' (low_bits c' (inbufBits bd'))"
  have "bs @ rest = (ds @ ?es) @ (low_bits (c' - w') (inbufBits bd') @ byte_stream (rest_bytes bd'))"
    unfolding str bits_at_def drop_low_bits [OF w', symmetric] by (metis append.assoc append_take_drop_id)
  moreover have "?w = length (ds @ ?es)"
    using lds w' by simp
  ultimately have bs: "bs = ds @ ?es" and rest: "rest = low_bits (c' - w') (inbufBits bd') @ byte_stream (rest_bytes bd')"
    using append_eq_append_conv by blast+
  have val: "push_bit w' (bits_val ds) OR (drop_bit (c' - w') (inbufBits bd') AND mask w') = bits_val bs"
    using w' by (simp add: bs bits_val_append take_low_bits bits_val_low flip: take_bit_eq_mask)
  show thesis
  proof
    show "get_bits ?w bd = (Inr (bits_val bs), bd'\<lparr>inbufBitCount := c' - w'\<rparr>)"
      using loop val by (simp add: get_bits_def)
    show "bits_only bd (bd'\<lparr>inbufBitCount := c' - w'\<rparr>)"
      using post by (cases bd, cases bd') (simp add: loop_post_def bits_only_def core_def)
    fix j
    assume j: "j = 0 \<or> j \<le> ?w \<and> ?w \<le> 20"
    then have dj: "j = 0 \<or> ds = [] \<and> j \<le> w' \<and> w' = ?w"
        using post lds by (auto simp: loop_post_def)
    have "low_bits (c' - w' + j) (inbufBits bd') = drop (?w - j) bs @ low_bits (c' - w') (inbufBits bd')"
    proof (cases "j = 0")
      case False
      then show ?thesis
        using dj bs w' low_bits_unget [of j w' c' "inbufBits bd'"] by simp
    qed simp
    moreover have "c' - w' + j \<le> 27" and "inbufPos bd' \<le> length (inbuf bd')"
      using post dj j assms(3) lds by (auto simp: loop_post_def bits_wf_def)
    ultimately show "bit_stream (unget_bits j (bd'\<lparr>inbufBitCount := c' - w'\<rparr>)) = drop (?w - j) bs @ rest \<and>
        bits_wf (unget_bits j (bd'\<lparr>inbufBitCount := c' - w'\<rparr>))"
      by (simp add: bit_stream_rest rest_bytes_def unget_bits_def bits_wf_def rest)
  qed
qed

lemma get_bits_short:
  assumes "length (bit_stream bd) < k" and "k \<le> 32" and "bits_wf bd"
  shows "fst (get_bits k bd) = Inl (Longjmp RETVAL_UNEXPECTED_INPUT_EOF)"
  using bits_loop_short [of "inbufBitCount bd" bd k 0] assms
  by (auto simp: get_bits_def bits_wf_def bit_stream_at split: prod.splits sum.splits)

subsection \<open>Bits are used up\<close>

text \<open>The number of bits that are left, which holds for any state and any input, is what loops over the input terminate by.\<close>

fun fd_bytes :: "infile \<Rightarrow> nat" where
  "fd_bytes [] = 0"
| "fd_bytes (Data bs # fd) = length bs + fd_bytes fd"
| "fd_bytes (_ # fd) = fd_bytes fd"

definition bits_left :: "bunzip_data \<Rightarrow> nat" where
  "bits_left bd = inbufBitCount bd + 8 * (length (inbuf bd) - inbufPos bd + fd_bytes (in_fd bd))"

lemma read_once_bytes: "read_once n fd = (Some bs, fd') \<Longrightarrow> length bs + fd_bytes fd' = fd_bytes fd"
  by (cases fd rule: fd_bytes.cases) (auto simp: read_once_def split: if_splits)

lemma read_once_failed: "read_once n fd = (None, fd') \<Longrightarrow> fd_bytes fd' = fd_bytes fd"
  by (cases fd rule: fd_bytes.cases) (auto simp: read_once_def split: if_splits)

lemma next_byte_left:
  "next_byte bd = (Inr (), bd') \<Longrightarrow> bits_left bd' + 8 = bits_left bd \<and> inbufBitCount bd' = inbufBitCount bd"
  using read_once_bytes [of IOBUF_SIZE "in_fd bd"]
  by (auto simp: next_byte_def bz_bind_def refill_def grab_byte_def bits_left_def neq_Nil_conv
      split: if_splits prod.splits option.splits)

lemma bits_loop_left:
  "bits_loop v c w bd = (Inr (v', c', w'), bd') \<Longrightarrow>
     int (bits_left bd') - int (inbufBitCount bd') + int c' - int w' = int (bits_left bd) - int (inbufBitCount bd) + int c - int w \<and>
     w' \<le> c'"
proof (induction v c w bd rule: bits_loop.induct)
  case (1 v c w bd)
  show ?case
  proof (cases "w \<le> c")
    case False
    then obtain bd1 where step: "next_byte bd = (Inr (), bd1)"
      using 1(3) by (auto simp: bits_loop.simps [of v c] next_byte_def split: prod.splits sum.splits)
    then show ?thesis
      using 1(1,2) [OF False step [unfolded next_byte_def, symmetric] refl] 1(3) False next_byte_left [OF step]
      by (simp add: bits_loop.simps [of v c] next_byte_def split: if_splits)
  qed (use 1(3) in \<open>simp add: bits_loop.simps\<close>)
qed

lemma get_bits_left: "get_bits k bd = (Inr v, bd') \<Longrightarrow> bits_left bd' + k = bits_left bd"
  by (auto simp: get_bits_def bits_left_def dest!: bits_loop_left split: prod.splits sum.splits)

lemma next_byte_stopped: "next_byte bd = (Inl e, bd') \<Longrightarrow> bits_left bd' \<le> bits_left bd \<and> (\<forall>i. e \<noteq> Retval i)"
  by (auto simp: next_byte_def bz_bind_def refill_def grab_byte_def bits_left_def
      split: if_splits prod.splits option.splits dest!: read_once_bytes read_once_failed)

lemma bits_loop_stopped:
  "bits_loop v c w bd = (Inl e, bd') \<Longrightarrow> bits_left bd' \<le> bits_left bd \<and> (\<forall>i. e \<noteq> Retval i)"
proof (induction v c w bd rule: bits_loop.induct)
  case (1 v c w bd)
  obtain r bd1 where step: "next_byte bd = (r, bd1)" by (cases "next_byte bd")
  have wc: "\<not> w \<le> c" using 1(3) by (auto simp: bits_loop.simps [of v c])
  show ?case
  proof (cases r)
    case (Inl e')
    then show ?thesis
      using 1(3) wc step next_byte_stopped [of bd e' bd1] by (simp add: bits_loop.simps [of v c] next_byte_def)
  next
    case (Inr u)
    then show ?thesis
      using 1(1,2) [OF wc step [unfolded next_byte_def, symmetric] Inr] 1(3) wc step next_byte_left [of bd bd1]
      by (simp add: bits_loop.simps [of v c] next_byte_def split: if_splits)
  qed
qed

lemma get_bits_stopped: "get_bits k bd = (Inl e, bd') \<Longrightarrow> bits_left bd' \<le> bits_left bd \<and> (\<forall>i. e \<noteq> Retval i)"
  by (auto simp: get_bits_def dest!: bits_loop_stopped split: prod.splits sum.splits)

text \<open>When more bits are wanted than there were, less than a byte is left over.\<close>

lemma bits_loop_over: "bits_loop v c w bd = (Inr (v', c', w'), bd') \<Longrightarrow> c < w + 8 \<Longrightarrow> c' - w' < 8"
proof (induction v c w bd rule: bits_loop.induct)
  case (1 v c w bd)
  show ?case
  proof (cases "w \<le> c")
    case False
    then obtain bd1 where step: "bz_bind refill (\<lambda>_. grab_byte) bd = (Inr (), bd1)"
      using 1(3) by (auto simp: bits_loop.simps [of v c] split: prod.splits sum.splits)
    then show ?thesis
      using 1(1,2) [OF False step [symmetric] refl] 1(3) False by (simp add: bits_loop.simps [of v c] split: if_splits)
  qed (use 1(3,4) in \<open>auto simp: bits_loop.simps [of v c]\<close>)
qed

lemma get_bits_over: "get_bits k bd = (Inr v, bd') \<Longrightarrow> inbufBitCount bd \<le> k \<Longrightarrow> inbufBitCount bd' < 8"
  by (auto simp: get_bits_def dest!: bits_loop_over split: prod.splits sum.splits)

section \<open>Operations on the stream\<close>

text \<open>
  From the state \<open>s\<close>, \<open>m\<close> reads the bits \<open>bs\<close>, gives \<open>v\<close> and ends in the state \<open>s'\<close>, if there are enough
  bits behind them for a Huffman code that is read in full.
\<close>

definition reads :: "bunzip_data \<Rightarrow> 'a bz \<Rightarrow> bool list \<Rightarrow> 'a \<Rightarrow> bunzip_data \<Rightarrow> bool" where
  "reads s m bs v s' \<longleftrightarrow> (\<forall>bd rest. core bd = s \<longrightarrow> bits_wf bd \<longrightarrow> bit_stream bd = bs @ rest \<longrightarrow> 20 \<le> length rest \<longrightarrow>
     (\<exists>bd'. m bd = (Inr v, bd') \<and> core bd' = s' \<and> bits_wf bd' \<and> bit_stream bd' = rest))"

lemma readsD:
  assumes "reads s m bs v s'" and "core bd = s" and "bits_wf bd" and "bit_stream bd = bs @ rest" and "20 \<le> length rest"
  obtains bd' where "m bd = (Inr v, bd')" and "core bd' = s'" and "bits_wf bd'" and "bit_stream bd' = rest"
  using assms by (auto simp: reads_def)

lemma reads_bind:
  assumes "reads s m bs v s1" and "reads s1 (f v) cs w s2"
  shows "reads s (bz_bind m f) (bs @ cs) w s2"
  unfolding reads_def
proof (intro allI impI)
  fix bd rest
  assume bd: "core bd = s" "bits_wf bd" "bit_stream bd = (bs @ cs) @ rest" "20 \<le> length rest"
  obtain bd1 where m: "m bd = (Inr v, bd1)" and bd1: "core bd1 = s1" "bits_wf bd1" "bit_stream bd1 = cs @ rest"
    using readsD [OF assms(1), of bd "cs @ rest"] bd by auto
  obtain bd2 where "f v bd1 = (Inr w, bd2)" "core bd2 = s2" "bits_wf bd2" "bit_stream bd2 = rest"
    using readsD [OF assms(2) bd1 bd(4)] by metis
  then show "\<exists>bd'. bz_bind m f bd = (Inr w, bd') \<and> core bd' = s2 \<and> bits_wf bd' \<and> bit_stream bd' = rest"
    using m by (simp add: bz_bind_def)
qed

lemma reads_then: "reads s m [] v s1 \<Longrightarrow> reads s1 (f v) cs w s2 \<Longrightarrow> reads s (bz_bind m f) cs w s2"
  using reads_bind [of s m "[]"] by simp

lemma reads_ret: "reads s (bz_ret v) [] v s"
  by (simp add: reads_def bz_ret_def)

lemma reads_bits:
  assumes "length bs = k" and "k \<le> 32"
  shows "reads s (get_bits k) bs (bits_val bs) s"
  unfolding reads_def
proof (intro allI impI)
  fix bd rest
  assume "core bd = s" "bits_wf bd" "bit_stream bd = bs @ rest"
  then obtain bd' where "get_bits (length bs) bd = (Inr (bits_val bs), bd')"
    "bit_stream (unget_bits 0 bd') = drop (length bs - 0) bs @ rest \<and> bits_wf (unget_bits 0 bd')" "bits_only bd bd'"
    using get_bits_stream [of bd bs rest] assms by metis
  then show "\<exists>bd'. get_bits k bd = (Inr (bits_val bs), bd') \<and> core bd' = s \<and> bits_wf bd' \<and> bit_stream bd' = rest"
    using assms(1) \<open>core bd = s\<close> by (auto simp: bits_only_def)
qed

lemma reads_low_bits: "k \<le> 32 \<Longrightarrow> reads s (get_bits k) (low_bits k w) (take_bit k w) s" for w :: u32
  using reads_bits [of "low_bits k w" k s] by (simp add: bits_val_low)

text \<open>Bits that are read and given back at the end of a string of bits.\<close>

lemma reads_unget:
  assumes "length bs = k" and "k + j \<le> 20" and "\<And>cs. length cs = j \<Longrightarrow> f (bits_val (bs @ cs)) = v"
  shows "reads s (bz_bind (get_bits (k + j)) (\<lambda>w bd. (Inr (f w), unget_bits j bd))) bs v s"
  unfolding reads_def
proof (intro allI impI)
  fix bd rest
  assume bd: "core bd = s" "bits_wf bd" "bit_stream bd = bs @ rest" and rest: "20 \<le> length rest"
  let ?cs = "take j rest"
  have len: "length (bs @ ?cs) = k + j" using assms rest by simp
  have str: "bit_stream bd = (bs @ ?cs) @ drop j rest" using bd(3) by simp
  have "length (bs @ ?cs) \<le> 32" using len assms(2) by simp
  then obtain bd' where get: "get_bits (length (bs @ ?cs)) bd = (Inr (bits_val (bs @ ?cs)), bd')"
    and giveback: "\<And>i. i = 0 \<or> i \<le> length (bs @ ?cs) \<and> length (bs @ ?cs) \<le> 20 \<Longrightarrow>
      bit_stream (unget_bits i bd') = drop (length (bs @ ?cs) - i) (bs @ ?cs) @ drop j rest \<and> bits_wf (unget_bits i bd')"
    and only: "bits_only bd bd'"
    by (rule get_bits_stream [OF str _ bd(2)]) blast+
  have bd': "get_bits (k + j) bd = (Inr (bits_val (bs @ ?cs)), bd')" "core bd' = core bd"
    using get only unfolding len bits_only_def by simp_all
  from giveback [of j] have "bit_stream (unget_bits j bd') = drop k (bs @ ?cs) @ drop j rest \<and> bits_wf (unget_bits j bd')"
    using len assms(2) by simp
  with bd' show "\<exists>bd'. bz_bind (get_bits (k + j)) (\<lambda>w bd. (Inr (f w), unget_bits j bd)) bd = (Inr v, bd') \<and> core bd' = s \<and>
      bits_wf bd' \<and> bit_stream bd' = rest"
    using assms rest len bd(1) by (auto simp: bz_bind_def bits_only_def unget_bits_def core_def)
qed

end
