(* ===== verification/Bb_Bunzip.thy ===== *)
theory Bb_Bunzip
  imports Bb_Bits Bb_Crc
begin

text \<open>
  \<open>get_next_block\<close> of \<open>busybox/archival/libarchive/decompress_bunzip2.c\<close>, phase by phase: the header
  of a block, the map of the symbols in use, the selectors of the Huffman groups, the groups, the symbols with the runs and the
  move-to-front list, and the links that undo the Burrows-Wheeler transform.

  \<open>dbuf\<close> is the list of the words that this block has set so far, so that its length is \<open>dbufCount\<close>.
  The arrays on the stack that have not been set, \<open>symToByte\<close> behind \<open>symTotal\<close> and \<open>mtfSymbol\<close> behind
  \<open>groupCount\<close>, are lists that end there; a read behind the end stops with \<^term>\<open>Unset_Symbol\<close> or
  \<^term>\<open>Unset_Selector\<close>, and an access behind the 256 elements of the array with \<^term>\<open>Overrun\<close>, as does every
  other access outside of an array.
\<close>

section \<open>Sequences of operations\<close>

definition bz_get :: "(bunzip_data \<Rightarrow> 'a) \<Rightarrow> 'a bz" where
  "bz_get f = (\<lambda>bd. (Inr (f bd), bd))"

definition bz_upd :: "(bunzip_data \<Rightarrow> bunzip_data) \<Rightarrow> unit bz" where
  "bz_upd f = (\<lambda>bd. (Inr (), f bd))"

definition bz_check :: "bool \<Rightarrow> bz_stop \<Rightarrow> unit bz" where
  "bz_check b e = (if b then bz_ret () else bz_stop e)"

section \<open>The header\<close>

definition MAX_GROUPS :: nat where "MAX_GROUPS = 6"
definition GROUP_SIZE :: nat where "GROUP_SIZE = 50"
definition MAX_HUFCODE_BITS :: nat where "MAX_HUFCODE_BITS = 20"
definition MAX_SYMBOLS :: nat where "MAX_SYMBOLS = 258"
definition INT_MAX :: int where "INT_MAX = 2147483647"

definition data_error :: bz_stop where
  "data_error = Retval RETVAL_DATA_ERROR"

definition block_header :: "nat bz" where
  "block_header =
     bz_bind (get_bits 24) (\<lambda>i.
     bz_bind (get_bits 24) (\<lambda>j.
     bz_bind (get_bits 32) (\<lambda>crc.
     bz_bind (bz_upd (\<lambda>bd. bd\<lparr>headerCRC := crc\<rparr>)) (\<lambda>_.
     bz_bind (bz_check (\<not> (i = 0x177245 \<and> j = 0x385090)) (Retval RETVAL_LAST_BLOCK)) (\<lambda>_.
     bz_bind (bz_check (i = 0x314159 \<and> j = 0x265359) (Retval RETVAL_NOT_BZIP_DATA)) (\<lambda>_.
     bz_bind (get_bits 1) (\<lambda>randomised.
     bz_bind (bz_check (randomised = 0) (Retval RETVAL_OBSOLETE_INPUT)) (\<lambda>_.
     bz_bind (get_bits 24) (\<lambda>origPtr.
     bz_bind (bz_get dbufSize) (\<lambda>dbufSize.
     bz_bind (bz_check (unat origPtr \<le> dbufSize) data_error) (\<lambda>_.
     bz_ret (unat origPtr))))))))))))"

section \<open>The symbols in use\<close>

text \<open>The inner \<open>do\<close> loop; \<open>symToByte\<close> and \<open>i\<close> afterwards.\<close>

function inner_loop :: "u32 \<Rightarrow> nat \<Rightarrow> byte list \<Rightarrow> byte list \<times> nat" where
  "inner_loop inner_map i symToByte =
     (let symToByte = (if inner_map AND 0x8000 \<noteq> 0 then symToByte @ [of_nat i] else symToByte)
      in if (i + 1) mod 16 \<noteq> 0 then inner_loop (push_bit 1 inner_map) (i + 1) symToByte
         else (symToByte, i + 1))"
  by pat_completeness auto
termination
  by (relation "measure (\<lambda>(inner_map, i, symToByte). 15 - i mod 16)") (auto simp: mod_Suc)

declare inner_loop.simps [simp del]

lemma inner_loop_end: "16 \<le> snd (inner_loop m i s) \<and> i < snd (inner_loop m i s)"
proof (induction m i s rule: inner_loop.induct)
  case (1 m i s)
  then show ?case
    using dvd_imp_le [of 16 "i + 1"] by (auto simp: inner_loop.simps [of m] Let_def)
qed

lemma inner_loop_endD: "inner_loop m i s = (s', i') \<Longrightarrow> 16 \<le> i' \<and> i < i'"
  using inner_loop_end [of m i s] by simp

function symbol_map :: "u32 \<Rightarrow> nat \<Rightarrow> byte list \<Rightarrow> byte list bz" where
  "symbol_map t i symToByte =
     (if t AND 0x8000 \<noteq> 0 then
        bz_bind (get_bits 16) (\<lambda>inner_map.
          case inner_loop inner_map i symToByte of (symToByte, i) \<Rightarrow>
            bz_bind (bz_check (length symToByte \<le> 256) Overrun) (\<lambda>_.
            if i - 16 + 16 < 256 then symbol_map (push_bit 1 t) (i - 16 + 16) symToByte else bz_ret symToByte))
      else if i + 16 < 256 then symbol_map (push_bit 1 t) (i + 16) symToByte
      else bz_ret symToByte)"
  by pat_completeness auto
termination
  by (relation "measure (\<lambda>(t, i, symToByte). 256 - i)") (auto dest!: inner_loop_endD [OF sym])

declare symbol_map.simps [simp del]

section \<open>The selectors\<close>

text \<open>\<open>while (get_bits(bd, 1))\<close> with \<open>n\<close>.\<close>

function selector_pos :: "nat \<Rightarrow> nat \<Rightarrow> nat bz" where
  "selector_pos groupCount n =
     bz_bind (get_bits 1) (\<lambda>b.
       if b = 0 then bz_ret n
       else if groupCount \<le> n then bz_stop data_error
       else selector_pos groupCount (n + 1))"
  by pat_completeness auto
termination
  by (relation "measure (\<lambda>(groupCount, n). groupCount - n)") auto

declare selector_pos.simps [simp del]

text \<open>The loops that move the entries in front of \<open>n\<close> up, as in the selectors and in the symbols.\<close>

fun mtf_shift :: "nat \<Rightarrow> 'a list \<Rightarrow> 'a list" where
  "mtf_shift 0 xs = xs"
| "mtf_shift (Suc n) xs = mtf_shift n (xs[Suc n := xs ! n])"

definition move_to_front :: "nat \<Rightarrow> 'a list \<Rightarrow> 'a list" where
  "move_to_front n xs = (mtf_shift n xs)[0 := xs ! n]"

definition set_selector :: "nat \<Rightarrow> nat \<Rightarrow> unit bz" where
  "set_selector i v =
     bz_bind (bz_get (\<lambda>bd. length (selectors bd))) (\<lambda>n.
     bz_bind (bz_check (i < n) Overrun) (\<lambda>_.
     bz_upd (\<lambda>bd. bd\<lparr>selectors := (selectors bd)[i := v]\<rparr>)))"

function read_selectors :: "nat \<Rightarrow> nat \<Rightarrow> nat \<Rightarrow> nat list \<Rightarrow> unit bz" where
  "read_selectors groupCount nSelectors i mtfSymbol =
     (if i < nSelectors then
        bz_bind (selector_pos groupCount 0) (\<lambda>n.
        bz_bind (bz_check (n < 256) Overrun) (\<lambda>_.
        bz_bind (bz_check (n < length mtfSymbol) (Unset_Selector n groupCount)) (\<lambda>_.
        bz_bind (set_selector i (mtfSymbol ! n)) (\<lambda>_.
        read_selectors groupCount nSelectors (i + 1) (move_to_front n mtfSymbol)))))
      else bz_ret ())"
  by pat_completeness auto
termination
  by (relation "measure (\<lambda>(groupCount, nSelectors, i, mtfSymbol). nSelectors - i)") auto

declare read_selectors.simps [simp del]

section \<open>The Huffman groups\<close>

text \<open>The loop \<open>for (;;)\<close> that changes \<open>len_m1\<close>.\<close>

function code_length :: "int \<Rightarrow> int bz" where
  "code_length len_m1 bd =
     (if len_m1 < 0 \<or> 19 < len_m1 then (Inl data_error, bd)
      else case get_bits 2 bd of
          (Inl e, bd) \<Rightarrow> (Inl e, bd)
        | (Inr two_bits, bd) \<Rightarrow>
            if two_bits < 2 then (Inr len_m1, unget_bits 1 bd)
            else code_length (len_m1 + (uint ((two_bits + 1) AND 2) - 1)) bd)"
  by pat_completeness auto
termination
  by (relation "measure (\<lambda>(len_m1, bd). bits_left bd)") (auto dest!: get_bits_left [OF sym])

declare code_length.simps [simp del]

primrec read_lengths :: "nat \<Rightarrow> int \<Rightarrow> nat list bz" where
  "read_lengths 0 len_m1 = bz_ret []"
| "read_lengths (Suc n) len_m1 =
     bz_bind (code_length len_m1) (\<lambda>len_m1.
     bz_bind (read_lengths n len_m1) (\<lambda>lens.
     bz_ret (nat (len_m1 + 1) # lens)))"

definition min_max :: "nat list \<Rightarrow> nat \<times> nat" where
  "min_max len = foldl (\<lambda>(lo, hi) l.
       if hi < l then (lo, l) else if l < lo then (l, hi) else (lo, hi))
     (hd len, hd len) (tl len)"

definition sort_symbols :: "nat \<Rightarrow> nat \<Rightarrow> nat list \<Rightarrow> nat list" where
  "sort_symbols lo hi len =
     concat (map (\<lambda>i. filter (\<lambda>k. len ! k = i) [0..<length len]) [lo..<hi + 1])"

definition count_lengths :: "nat list \<Rightarrow> nat list" where
  "count_lengths len = foldl (\<lambda>temp l. temp[l := temp ! l + 1]) (replicate (MAX_HUFCODE_BITS + 1) 0) len"

text \<open>The loop that fills \<open>limit\<close> and \<open>base\<close>, whose pointers are one in front of the arrays; \<open>pp\<close> afterwards.\<close>

function limit_loop :: "nat list \<Rightarrow> nat \<Rightarrow> nat \<Rightarrow> int \<Rightarrow> int \<Rightarrow> int list \<Rightarrow> int list \<Rightarrow> int \<times> int list \<times> int list" where
  "limit_loop temp hi i pp t lim bas =
     (if i < hi then
        let temp_i = int (temp ! i);
            pp = pp + temp_i;
            lim = lim[i - 1 := pp * 2 ^ (hi - i) - 1];
            pp = pp * 2;
            t = t + temp_i
        in limit_loop temp hi (i + 1) pp t lim (bas[i := pp - t])
      else (pp, lim, bas))"
  by pat_completeness auto
termination
  by (relation "measure (\<lambda>(temp, hi, i, pp, t, lim, bas). hi - i)") auto

declare limit_loop.simps [simp del]

definition make_group :: "nat list \<Rightarrow> group_data \<Rightarrow> group_data" where
  "make_group len hufGroup =
     (let lo = fst (min_max len);
          hi = snd (min_max len);
          perm = poke (permute hufGroup) 0 (sort_symbols lo hi len);
          temp = count_lengths len;
          lim = foldl (\<lambda>lim i. lim[i - 1 := 0]) (limit hufGroup) [lo..<hi + 1]
      in case limit_loop temp hi lo 0 0 lim (base hufGroup) of
           (pp, lim, bas) \<Rightarrow>
             hufGroup\<lparr>limit := lim[hi - 1 := pp + int (temp ! hi) - 1, hi := INT_MAX],
               base := bas[lo - 1 := 0], permute := perm, minLen := lo, maxLen := hi\<rparr>)"

text \<open>
  The accesses to \<open>temp\<close>, \<open>limit\<close>, \<open>base\<close> and \<open>permute\<close> are inside of the arrays: those with the lengths of
  the codes and with \<open>maxLen + 1\<close>, the pointers being one in front of \<open>limit\<close> and \<open>base\<close>, and those with
  the number of the symbols.
\<close>

definition group_fits :: "nat list \<Rightarrow> nat \<Rightarrow> bunzip_data \<Rightarrow> bool" where
  "group_fits len j bd \<longleftrightarrow> j < length (groups bd) \<and>
     (\<forall>l\<in>set len. 1 \<le> l \<and> l \<le> MAX_HUFCODE_BITS \<and> l < length (limit (groups bd ! j)) \<and> l \<le> length (base (groups bd ! j))) \<and>
     length len \<le> length (permute (groups bd ! j))"

definition read_group :: "nat \<Rightarrow> nat \<Rightarrow> unit bz" where
  "read_group symCount j =
     bz_bind (get_bits 5) (\<lambda>len.
     bz_bind (bz_check (symCount \<le> MAX_SYMBOLS) Overrun) (\<lambda>_.
     bz_bind (read_lengths symCount (uint len - 1)) (\<lambda>lens.
     bz_bind (bz_get (group_fits lens j)) (\<lambda>fits.
     bz_bind (bz_check fits Overrun) (\<lambda>_.
     bz_upd (\<lambda>bd. bd\<lparr>groups := (groups bd)[j := make_group lens (groups bd ! j)]\<rparr>))))))"

function read_groups :: "nat \<Rightarrow> nat \<Rightarrow> nat \<Rightarrow> unit bz" where
  "read_groups symCount groupCount j =
     (if j < groupCount then
        bz_bind (read_group symCount j) (\<lambda>_. read_groups symCount groupCount (j + 1))
      else bz_ret ())"
  by pat_completeness auto
termination
  by (relation "measure (\<lambda>(symCount, groupCount, j). groupCount - j)") auto

declare read_groups.simps [simp del]

section \<open>Huffman symbols\<close>

text \<open>The read that is written inline, which falls back to \<open>get_bits\<close> at the end of the buffer.\<close>

function huff_bits :: "nat \<Rightarrow> u32 bz" where
  "huff_bits n bd =
     (if inbufBitCount bd < n then
        if inbufPos bd = length (inbuf bd) then get_bits n bd
        else case grab_byte bd of
            (Inl e, bd') \<Rightarrow> (Inl e, bd')
          | (Inr _, bd') \<Rightarrow> huff_bits n (bd'\<lparr>inbufBitCount := inbufBitCount bd + 8\<rparr>)
      else
        (Inr (drop_bit (inbufBitCount bd - n) (inbufBits bd) AND mask n), bd\<lparr>inbufBitCount := inbufBitCount bd - n\<rparr>))"
  by pat_completeness auto
termination
  by (relation "measure (\<lambda>(n, bd). n - inbufBitCount bd)") auto

declare huff_bits.simps [simp del]

text \<open>\<open>while (nextSym > limit[i]) ++i;\<close>\<close>

function code_len :: "int list \<Rightarrow> int \<Rightarrow> nat \<Rightarrow> nat option" where
  "code_len lim nextSym i =
     (if i = 0 \<or> length lim < i then None
      else if lim ! (i - 1) < nextSym then code_len lim nextSym (i + 1)
      else Some i)"
  by pat_completeness auto
termination
  by (relation "measure (\<lambda>(lim, nextSym, i). Suc (length lim) - i)") auto

declare code_len.simps [simp del]

definition huff_symbol :: "group_data \<Rightarrow> nat bz" where
  "huff_symbol hufGroup =
     bz_bind (huff_bits (maxLen hufGroup)) (\<lambda>nextSym.
     case code_len (limit hufGroup) (uint nextSym) (minLen hufGroup) of
       None \<Rightarrow> bz_stop Overrun
     | Some i \<Rightarrow>
         bz_bind (bz_check (i \<le> maxLen hufGroup) data_error) (\<lambda>_.
         bz_bind (bz_check (i \<le> length (base hufGroup)) Overrun) (\<lambda>_.
         let j = maxLen hufGroup - i;
             nextSym = uint (drop_bit j nextSym) - base hufGroup ! (i - 1)
         in bz_bind (bz_upd (unget_bits j)) (\<lambda>_.
            bz_bind (bz_check (0 \<le> nextSym \<and> nextSym < int MAX_SYMBOLS) data_error) (\<lambda>_.
            bz_bind (bz_check (nat nextSym < length (permute hufGroup)) Overrun) (\<lambda>_.
            bz_ret (permute hufGroup ! nat nextSym)))))))"

section \<open>Runs and literals\<close>

record block_vars =
  runPos :: nat
  runCnt :: int
  byteCount :: "nat list"
  mtfSymbol :: "nat list"

text \<open>\<open>dbuf[dbufCount++] = uc\<close>, and \<open>n\<close> times the same.\<close>

definition put_dbuf :: "byte \<Rightarrow> unit bz" where
  "put_dbuf uc bd =
     (if length (dbuf bd) < dbufSize bd then (Inr (), bd\<lparr>dbuf := dbuf bd @ [ucast uc]\<rparr>) else (Inl Overrun, bd))"

primrec put_run :: "nat \<Rightarrow> byte \<Rightarrow> unit bz" where
  "put_run 0 uc = bz_ret ()"
| "put_run (Suc n) uc = bz_bind (put_dbuf uc) (\<lambda>_. put_run n uc)"

text \<open>A symbol of a run. Signed overflow of \<open>runCnt\<close> is undefined.\<close>

definition run_symbol :: "nat \<Rightarrow> block_vars \<Rightarrow> block_vars bz" where
  "run_symbol nextSym v =
     (let v = (if runPos v = 0 then v\<lparr>runPos := 1, runCnt := 0\<rparr> else v);
          cnt = runCnt v + int (runPos v * 2 ^ nextSym)
      in bz_bind (bz_check (cnt \<le> INT_MAX) (Run_Overflow cnt)) (\<lambda>_.
         bz_bind (bz_get dbufSize) (\<lambda>dbufSize.
         bz_ret (v\<lparr>runCnt := cnt, runPos := (if runPos v < dbufSize then runPos v * 2 else runPos v)\<rparr>))))"

definition end_run :: "byte list \<Rightarrow> block_vars \<Rightarrow> block_vars bz" where
  "end_run symToByte v =
     (if runPos v = 0 then bz_ret v
      else
        bz_bind (bz_get (\<lambda>bd. length (dbuf bd))) (\<lambda>dbufCount.
        bz_bind (bz_get dbufSize) (\<lambda>dbufSize.
        bz_bind (bz_check (int dbufCount + runCnt v \<le> INT_MAX) (Run_Overflow (int dbufCount + runCnt v))) (\<lambda>_.
        bz_bind (bz_check (int dbufCount + runCnt v < int dbufSize) data_error) (\<lambda>_.
        bz_bind (bz_check (mtfSymbol v ! 0 < length symToByte) (Unset_Symbol (length symToByte))) (\<lambda>_.
        let tmp_byte = symToByte ! (mtfSymbol v ! 0)
        in bz_bind (put_run (nat (runCnt v)) tmp_byte) (\<lambda>_.
           bz_ret (v\<lparr>byteCount := (byteCount v)[unat tmp_byte := byteCount v ! unat tmp_byte + nat (runCnt v)],
             runPos := 0\<rparr>))))))))"

definition literal_symbol :: "byte list \<Rightarrow> nat \<Rightarrow> block_vars \<Rightarrow> block_vars bz" where
  "literal_symbol symToByte nextSym v =
     bz_bind (bz_get (\<lambda>bd. length (dbuf bd))) (\<lambda>dbufCount.
     bz_bind (bz_get dbufSize) (\<lambda>dbufSize.
     bz_bind (bz_check (dbufCount < dbufSize) data_error) (\<lambda>_.
     bz_bind (bz_check (nextSym - 1 < length (mtfSymbol v)) Overrun) (\<lambda>_.
     let uc = mtfSymbol v ! (nextSym - 1)
     in bz_bind (bz_check (uc < length symToByte) (Unset_Symbol (length symToByte))) (\<lambda>_.
        bz_bind (put_dbuf (symToByte ! uc)) (\<lambda>_.
        bz_ret (v\<lparr>mtfSymbol := move_to_front (nextSym - 1) (mtfSymbol v),
          byteCount := (byteCount v)[unat (symToByte ! uc) := byteCount v ! unat (symToByte ! uc) + 1]\<rparr>)))))))"

text \<open>What follows a symbol, and whether it was the last one.\<close>

definition next_symbol :: "byte list \<Rightarrow> nat \<Rightarrow> block_vars \<Rightarrow> (bool \<times> block_vars) bz" where
  "next_symbol symToByte nextSym v =
     (if nextSym \<le> 1 then bz_bind (run_symbol nextSym v) (\<lambda>v. bz_ret (False, v))
      else
        bz_bind (end_run symToByte v) (\<lambda>v.
        if length symToByte < nextSym then bz_ret (True, v)
        else bz_bind (literal_symbol symToByte nextSym v) (\<lambda>v. bz_ret (False, v))))"

text \<open>The symbols of one group, at most \<open>n\<close> of them, and the groups.\<close>

primrec group_loop :: "nat \<Rightarrow> group_data \<Rightarrow> byte list \<Rightarrow> block_vars \<Rightarrow> (bool \<times> block_vars) bz" where
  "group_loop 0 hufGroup symToByte v = bz_ret (False, v)"
| "group_loop (Suc n) hufGroup symToByte v =
     bz_bind (huff_symbol hufGroup) (\<lambda>nextSym.
     bz_bind (next_symbol symToByte nextSym v) (\<lambda>(done, v).
     if done then bz_ret (True, v) else group_loop n hufGroup symToByte v))"

definition get_group :: "nat \<Rightarrow> group_data bz" where
  "get_group selector bd =
     (if selector < length (selectors bd) \<and> selectors bd ! selector < length (groups bd)
      then (Inr (groups bd ! (selectors bd ! selector)), bd) else (Inl Overrun, bd))"

function symbol_loop :: "byte list \<Rightarrow> nat \<Rightarrow> nat \<Rightarrow> block_vars \<Rightarrow> block_vars bz" where
  "symbol_loop symToByte nSelectors selector v =
     (if nSelectors \<le> selector then bz_stop data_error
      else
        bz_bind (get_group selector) (\<lambda>hufGroup.
        bz_bind (group_loop GROUP_SIZE hufGroup symToByte v) (\<lambda>(done, v).
        if done then bz_ret v else symbol_loop symToByte nSelectors (selector + 1) v)))"
  by pat_completeness auto
termination
  by (relation "measure (\<lambda>(symToByte, nSelectors, selector, v). nSelectors - selector)") auto

declare symbol_loop.simps [simp del]

section \<open>The links of the Burrows-Wheeler transform\<close>

fun cumulate :: "nat \<Rightarrow> nat list \<Rightarrow> nat list" where
  "cumulate j [] = []"
| "cumulate j (c # cs) = j # cumulate (j + c) cs"

text \<open>\<^term>\<open>None\<close> stands for an access behind the bytes of the block.\<close>

definition link_step :: "nat \<Rightarrow> u32 list \<times> nat list \<Rightarrow> (u32 list \<times> nat list) option" where
  "link_step i = (\<lambda>(ds, cnt).
     let tmp_byte = unat (ucast (ds ! i) :: byte);
         tmp_count = cnt ! tmp_byte
     in if tmp_count < length ds
        then Some (ds[tmp_count := ds ! tmp_count OR push_bit 8 (of_nat i)], cnt[tmp_byte := tmp_count + 1])
        else None)"

definition link_dbuf :: "nat list \<Rightarrow> u32 list \<Rightarrow> u32 list option" where
  "link_dbuf cnt ds =
     map_option fst (fold (\<lambda>i s. Option.bind s (link_step i)) [0..<length ds] (Some (ds, cumulate 0 cnt)))"

definition link_block :: "nat list \<Rightarrow> unit bz" where
  "link_block cnt bd =
     (case link_dbuf cnt (dbuf bd) of None \<Rightarrow> (Inl Overrun, bd) | Some ds \<Rightarrow> (Inr (), bd\<lparr>dbuf := ds\<rparr>))"

definition start_output :: "nat \<Rightarrow> unit bz" where
  "start_output origPtr bd =
     (if dbuf bd = [] then (Inr (), bd\<lparr>writeCount := 0\<rparr>)
      else if length (dbuf bd) \<le> origPtr then (Inl data_error, bd)
      else let tmp = dbuf bd ! origPtr
           in (Inr (), bd\<lparr>writeCurrent := ucast tmp, writePos := unat (drop_bit 8 tmp), writeRunCountdown := 5,
                writeCount := int (length (dbuf bd))\<rparr>))"

section \<open>A block\<close>

definition get_next_block :: "unit bz" where
  "get_next_block =
     bz_bind block_header (\<lambda>origPtr.
     bz_bind (get_bits 16) (\<lambda>t.
     bz_bind (symbol_map t 0 []) (\<lambda>symToByte.
     bz_bind (get_bits 3) (\<lambda>groupCount.
     bz_bind (bz_check (2 \<le> unat groupCount \<and> unat groupCount \<le> MAX_GROUPS) data_error) (\<lambda>_.
     bz_bind (get_bits 15) (\<lambda>nSelectors.
     bz_bind (bz_check (nSelectors \<noteq> 0) data_error) (\<lambda>_.
     bz_bind (read_selectors (unat groupCount) (unat nSelectors) 0 [0..<unat groupCount]) (\<lambda>_.
     bz_bind (read_groups (length symToByte + 2) (unat groupCount) 0) (\<lambda>_.
     bz_bind (bz_upd (\<lambda>bd. bd\<lparr>dbuf := []\<rparr>)) (\<lambda>_.
     bz_bind (symbol_loop symToByte (unat nSelectors) 0
       \<lparr>runPos = 0, runCnt = 0, byteCount = replicate 256 0, mtfSymbol = [0..<256]\<rparr>) (\<lambda>v.
     bz_bind (link_block (byteCount v)) (\<lambda>_.
     start_output origPtr))))))))))))"

end
