(* ===== verification/Bz_Huffman.thy ===== *)
theory Bz_Huffman
  imports Bb_Bunzip
begin

text \<open>
  The canonical Huffman codes of the bzip2 format, given by the lengths of the codes of the symbols, and the proof
  that the tables of \<open>make_group\<close> decode them: \<open>huff_symbol\<close> reads the bits of the code of a symbol, no more and no
  fewer, and gives the symbol.
\<close>

section \<open>Canonical codes\<close>

text \<open>
  The first code of every length, the number of symbols with shorter codes and the place of a symbol among those with
  a code as long as its own.
\<close>

primrec first_code :: "nat list \<Rightarrow> nat \<Rightarrow> nat" where
  "first_code len 0 = 0"
| "first_code len (Suc i) = 2 * (first_code len i + count_list len i)"

primrec shorter :: "nat list \<Rightarrow> nat \<Rightarrow> nat" where
  "shorter len 0 = 0"
| "shorter len (Suc i) = shorter len i + count_list len i"

definition rank_of :: "nat list \<Rightarrow> nat \<Rightarrow> nat" where
  "rank_of len k = length (filter (\<lambda>j. len ! j = len ! k) [0..<k])"

definition code_num :: "nat list \<Rightarrow> nat \<Rightarrow> nat" where
  "code_num len k = first_code len (len ! k) + rank_of len k"

definition code_bits :: "nat list \<Rightarrow> nat \<Rightarrow> bool list" where
  "code_bits len k = low_bits (len ! k) (of_nat (code_num len k) :: u32)"

text \<open>Lengths that can be coded: the codes do not run out (Kraft's inequality).\<close>

definition kraft :: "nat list \<Rightarrow> bool" where
  "kraft len \<longleftrightarrow> (\<forall>i\<in>set len. first_code len i + count_list len i \<le> 2 ^ i)"

definition lengths_range :: "nat list \<Rightarrow> bool" where
  "lengths_range len \<longleftrightarrow> 0 < length len \<and> length len \<le> MAX_SYMBOLS \<and> (\<forall>l\<in>set len. 1 \<le> l \<and> l \<le> MAX_HUFCODE_BITS)"

definition lengths_ok :: "nat list \<Rightarrow> bool" where
  "lengths_ok len \<longleftrightarrow> lengths_range len \<and> kraft len"

definition group_wf :: "group_data \<Rightarrow> bool" where
  "group_wf g \<longleftrightarrow> length (limit g) = MAX_HUFCODE_BITS + 1 \<and> length (base g) = MAX_HUFCODE_BITS \<and> length (permute g) = MAX_SYMBOLS"

section \<open>The tables\<close>

lemma min_max_set: "len \<noteq> [] \<Longrightarrow> min_max len = (Min (set len), Max (set len))"
proof (cases len)
  case (Cons l ls)
  have "foldl (\<lambda>(lo, hi) l. if hi < l then (lo, l) else if l < lo then (l, hi) else (lo, hi)) (lo, hi) ls =
      (fold min ls lo, fold max ls hi)" if "lo \<le> hi" for lo hi
    using that
  proof (induction ls arbitrary: lo hi)
    case (Cons x xs)
    have "hi < x \<Longrightarrow> min x lo = lo \<and> max x hi = x" "x < lo \<Longrightarrow> min x lo = x \<and> max x hi = hi"
      "\<not> hi < x \<Longrightarrow> \<not> x < lo \<Longrightarrow> min x lo = lo \<and> max x hi = hi"
      using Cons.prems by auto
    then show ?case using Cons.IH [of lo x] Cons.IH [of x hi] Cons.IH [of lo hi] Cons.prems by simp
  qed simp
  from this [of l l] show ?thesis by (simp add: Cons min_max_def Min.set_eq_fold [simplified] Max.set_eq_fold [simplified])
qed simp

lemma count_lengths_nth:
  assumes "\<forall>l\<in>set len. l \<le> MAX_HUFCODE_BITS" and "i \<le> MAX_HUFCODE_BITS"
  shows "count_lengths len ! i = count_list len i"
proof -
  have "foldl (\<lambda>temp l. temp[l := temp ! l + 1]) temp len ! i = temp ! i + count_list len i"
    if "length temp = MAX_HUFCODE_BITS + 1" for temp :: "nat list"
    using that assms
  proof (induction len arbitrary: temp)
    case (Cons l ls)
    then show ?case by (auto simp: nth_list_update)
  qed simp
  from this [of "replicate (MAX_HUFCODE_BITS + 1) 0"] show ?thesis
    using assms(2) by (simp add: count_lengths_def del: replicate_Suc)
qed

lemma count_list_length: "count_list len i = length (filter (\<lambda>k. len ! k = i) [0..<length len])"
proof -
  have "count_list len i = length (filter ((=) i) (map ((!) len) [0..<length len]))"
    unfolding map_nth count_list_eq_length_filter ..
  also have "\<dots> = length (filter (\<lambda>k. len ! k = i) [0..<length len])"
    unfolding filter_map comp_def length_map by (simp only: eq_commute [of i])
  finally show ?thesis .
qed

text \<open>The loop over the lengths.\<close>

lemma limit_loop_tables:
  assumes "limit_loop temp hi i pp t lim bas = (pp', lim', bas')"
    and "pp = int (first_code len i)" and "t = int (shorter len i)" and "1 \<le> i" and "i \<le> hi"
    and "\<forall>j. i \<le> j \<and> j \<le> hi \<longrightarrow> temp ! j = count_list len j"
    and "hi \<le> length lim" and "hi \<le> length bas"
  shows "pp' = int (first_code len hi) \<and> length lim' = length lim \<and> length bas' = length bas \<and>
     (\<forall>j. i \<le> j \<and> j < hi \<longrightarrow> lim' ! (j - 1) = int (first_code len j + count_list len j) * 2 ^ (hi - j) - 1) \<and>
     (\<forall>j. i < j \<and> j \<le> hi \<longrightarrow> bas' ! (j - 1) = int (first_code len j) - int (shorter len j)) \<and>
     (\<forall>j. 1 \<le> j \<and> j \<le> i \<longrightarrow> bas' ! (j - 1) = bas ! (j - 1)) \<and> (\<forall>j. 1 \<le> j \<and> j < i \<longrightarrow> lim' ! (j - 1) = lim ! (j - 1))"
  using assms
proof (induction temp hi i pp t lim bas rule: limit_loop.induct)
  case (1 temp hi i pp t lim bas)
  show ?case
  proof (cases "i < hi")
    case True
    let ?lim = "lim[i - 1 := (pp + int (temp ! i)) * 2 ^ (hi - i) - 1]"
    let ?bas = "bas[i := (pp + int (temp ! i)) * 2 - (t + int (temp ! i))]"
    have rec: "limit_loop temp hi (i + 1) ((pp + int (temp ! i)) * 2) (t + int (temp ! i)) ?lim ?bas = (pp', lim', bas')"
      using 1(2) True by (subst (asm) limit_loop.simps) (simp add: Let_def)
    have temp: "temp ! i = count_list len i" using 1(7) True by simp
    have IH: "pp' = int (first_code len hi) \<and> length lim' = length ?lim \<and> length bas' = length ?bas \<and>
      (\<forall>j. i + 1 \<le> j \<and> j < hi \<longrightarrow> lim' ! (j - 1) = int (first_code len j + count_list len j) * 2 ^ (hi - j) - 1) \<and>
      (\<forall>j. i + 1 < j \<and> j \<le> hi \<longrightarrow> bas' ! (j - 1) = int (first_code len j) - int (shorter len j)) \<and>
      (\<forall>j. 1 \<le> j \<and> j \<le> i + 1 \<longrightarrow> bas' ! (j - 1) = ?bas ! (j - 1)) \<and>
      (\<forall>j. 1 \<le> j \<and> j < i + 1 \<longrightarrow> lim' ! (j - 1) = ?lim ! (j - 1))"
      by (rule 1(1) [OF True refl refl refl refl refl rec]) (use 1(3-9) True temp in auto)
    have lim: "lim' ! (j - 1) = int (first_code len j + count_list len j) * 2 ^ (hi - j) - 1" if "i \<le> j" "j < hi" for j
      using IH that temp 1(3,5,8) True by (cases "j = i") auto
    have bas: "bas' ! (j - 1) = int (first_code len j) - int (shorter len j)" if "i < j" "j \<le> hi" for j
      using IH that temp 1(3,4,5,9) True by (cases "j = i + 1") auto
    have unchanged: "bas' ! (j - 1) = bas ! (j - 1)" if "1 \<le> j" "j \<le> i" for j
      using IH that by auto
    have "lim' ! (j - 1) = lim ! (j - 1)" if "1 \<le> j" "j < i" for j
      using IH that by auto
    with IH lim bas unchanged show ?thesis by auto
  qed (use 1(2-9) in \<open>auto simp: limit_loop.simps\<close>)
qed

text \<open>The permuted symbols.\<close>

lemma shorter_sum: "length (concat (map (\<lambda>i. filter (\<lambda>k. len ! k = i) [0..<length len]) [a..<b])) + shorter len a = shorter len b"
  if "a \<le> b"
  using that
proof (induction b rule: dec_induct)
  case (step b)
  then show ?case by (simp add: count_list_length)
qed simp

lemma filter_upt_rank: "P k \<Longrightarrow> k < n \<Longrightarrow> filter P [0..<n] ! length (filter P [0..<k]) = k"
proof -
  assume "P k" and "k < n"
  then have "[0..<n] = [0..<k] @ k # [Suc k..<n]"
    using upt_add_eq_append [of 0 k "n - k"] upt_conv_Cons [of k n] by simp
  then show ?thesis using \<open>P k\<close> by (simp add: nth_append)
qed

lemma rank_less: "k < length len \<Longrightarrow> rank_of len k < count_list len (len ! k)"
proof -
  assume k: "k < length len"
  then have "[0..<length len] = [0..<k] @ k # [Suc k..<length len]"
    using upt_add_eq_append [of 0 k "length len - k"] upt_conv_Cons [of k "length len"] by simp
  then show ?thesis by (simp add: count_list_length rank_of_def)
qed

lemma sort_symbols_nth:
  assumes "k < length len" and "lo \<le> len ! k" and "len ! k \<le> hi" and "shorter len lo = 0"
  shows "shorter len (len ! k) + rank_of len k < length (sort_symbols lo hi len)"
    and "sort_symbols lo hi len ! (shorter len (len ! k) + rank_of len k) = k"
proof -
  let ?F = "\<lambda>i. filter (\<lambda>k. len ! k = i) [0..<length len]" and ?l = "len ! k"
  have "[lo..<hi + 1] = [lo..<?l] @ ?l # [Suc ?l..<hi + 1]"
    using assms upt_add_eq_append [of lo ?l "hi + 1 - ?l"] upt_conv_Cons [of ?l "hi + 1"] by simp
  then have split: "sort_symbols lo hi len = concat (map ?F [lo..<?l]) @ ?F ?l @ concat (map ?F [Suc ?l..<hi + 1])"
    by (simp add: sort_symbols_def)
  have len: "length (concat (map ?F [lo..<?l])) = shorter len ?l"
    using shorter_sum [OF assms(2), of len] assms(4) by simp
  have rank: "rank_of len k < length (?F ?l)"
    using rank_less [OF assms(1)] by (simp add: count_list_length)
  show "shorter len ?l + rank_of len k < length (sort_symbols lo hi len)"
    using rank by (simp add: split len)
  have "?F ?l ! rank_of len k = k"
    unfolding rank_of_def using assms(1) by (intro filter_upt_rank) simp_all
  then show "sort_symbols lo hi len ! (shorter len ?l + rank_of len k) = k"
    using rank by (simp add: split nth_append len)
qed

lemma none_shorter:
  assumes "\<forall>l\<in>set len. lo \<le> l" and "i \<le> lo"
  shows "first_code len i = 0" and "shorter len i = 0"
proof -
  have "first_code len i = 0 \<and> shorter len i = 0" using assms(2)
  proof (induction i)
    case (Suc i)
    then have "count_list len i = 0" using assms(1) by (auto simp: count_list_0_iff)
    then show ?case using Suc by simp
  qed simp
  then show "first_code len i = 0" and "shorter len i = 0" by simp_all
qed

lemma shorter_filter: "shorter len i = length (filter (\<lambda>l. l < i) len)"
proof (induction i)
  case (Suc i)
  have "length (filter (\<lambda>l. l < Suc i) len) = length (filter (\<lambda>l. l < i) len) + count_list len i"
    by (induction len) auto
  then show ?case using Suc by simp
qed simp

lemma length_zeros: "length (foldl (\<lambda>lim i. lim[i - Suc 0 := 0]) lim is) = length lim"
  by (induction "is" arbitrary: lim) simp_all

lemma lengths_okD: "lengths_ok len \<Longrightarrow> lengths_range len"
  by (simp add: lengths_ok_def)

lemma make_group_tables:
  assumes "lengths_range len" and "group_wf g"
  defines "lo \<equiv> Min (set len)" and "hi \<equiv> Max (set len)" and "h \<equiv> make_group len g"
  shows "minLen h = lo" and "maxLen h = hi" and "group_wf h"
    and "lo \<le> i \<Longrightarrow> i \<le> hi \<Longrightarrow> limit h ! (i - 1) = int (first_code len i + count_list len i) * 2 ^ (hi - i) - 1"
    and "limit h ! hi = INT_MAX"
    and "lo \<le> i \<Longrightarrow> i \<le> hi \<Longrightarrow> base h ! (i - 1) = int (first_code len i) - int (shorter len i)"
    and "k < length len \<Longrightarrow> permute h ! (shorter len (len ! k) + rank_of len k) = k"
proof -
  have ne: "len \<noteq> []" and range: "\<forall>l\<in>set len. 1 \<le> l \<and> l \<le> MAX_HUFCODE_BITS"
    using assms(1) by (auto simp: lengths_range_def)
  have lo: "\<forall>l\<in>set len. lo \<le> l \<and> l \<le> hi" "1 \<le> lo" "lo \<le> hi" "hi \<le> MAX_HUFCODE_BITS"
    using ne range Min_in [of "set len"] Max_in [of "set len"] by (auto simp: lo_def hi_def)
  let ?lim = "foldl (\<lambda>lim i. lim[i - 1 := 0]) (limit g) [lo..<hi + 1]"
  obtain pp lim bas where loop: "limit_loop (count_lengths len) hi lo 0 0 ?lim (base g) = (pp, lim, bas)"
    by (cases "limit_loop (count_lengths len) hi lo 0 0 ?lim (base g)") auto
  have h: "h = g\<lparr>limit := lim[hi - 1 := pp + int (count_lengths len ! hi) - 1, hi := INT_MAX], base := bas[lo - 1 := 0],
      permute := poke (permute g) 0 (sort_symbols lo hi len), minLen := lo, maxLen := hi\<rparr>"
    using loop by (simp add: h_def make_group_def min_max_set [OF ne] flip: lo_def hi_def)
  have temp: "count_lengths len ! j = count_list len j" if "j \<le> hi" for j
    using that lo(4) range by (intro count_lengths_nth) auto
  note zero = none_shorter [of len lo lo]
  have T: "pp = int (first_code len hi) \<and> length lim = length ?lim \<and> length bas = length (base g) \<and>
     (\<forall>j. lo \<le> j \<and> j < hi \<longrightarrow> lim ! (j - 1) = int (first_code len j + count_list len j) * 2 ^ (hi - j) - 1) \<and>
     (\<forall>j. lo < j \<and> j \<le> hi \<longrightarrow> bas ! (j - 1) = int (first_code len j) - int (shorter len j)) \<and>
     (\<forall>j. 1 \<le> j \<and> j \<le> lo \<longrightarrow> bas ! (j - 1) = base g ! (j - 1)) \<and> (\<forall>j. 1 \<le> j \<and> j < lo \<longrightarrow> lim ! (j - 1) = ?lim ! (j - 1))"
    by (rule limit_loop_tables [OF loop]) (use lo zero temp assms(2) in \<open>auto simp: group_wf_def length_zeros\<close>)
  then have lengths: "length lim = MAX_HUFCODE_BITS + 1" "length bas = MAX_HUFCODE_BITS"
    using assms(2) by (auto simp: group_wf_def length_zeros)
  have perm: "length (sort_symbols lo hi len) \<le> MAX_SYMBOLS"
  proof -
    have "shorter len (hi + 1) \<le> MAX_SYMBOLS"
      using assms(1) length_filter_le [of "\<lambda>l. l < hi + 1" len] unfolding shorter_filter lengths_range_def by linarith
    then show ?thesis
      using shorter_sum [of lo "hi + 1" len] lo(3) unfolding sort_symbols_def by linarith
  qed
  show "minLen h = lo" "maxLen h = hi" by (simp_all add: h)
  show "group_wf h" using assms(2) lengths perm by (simp add: h group_wf_def poke_def)
  show "limit h ! hi = INT_MAX" using lengths lo(4) by (simp add: h)
  show "limit h ! (i - 1) = int (first_code len i + count_list len i) * 2 ^ (hi - i) - 1" if "lo \<le> i" "i \<le> hi"
    using that T temp [of hi] lengths lo by (cases "i = hi") (auto simp: h)
  show "base h ! (i - 1) = int (first_code len i) - int (shorter len i)" if "lo \<le> i" "i \<le> hi"
    using that T lengths lo zero by (cases "i = lo") (auto simp: h)
  show "permute h ! (shorter len (len ! k) + rank_of len k) = k" if "k < length len"
    using sort_symbols_nth [of k len lo hi] that lo zero by (simp add: h poke_def nth_append)
qed

section \<open>Decoding\<close>

lemma code_less:
  assumes "lengths_ok len" and "k < length len"
  shows "code_num len k < first_code len (len ! k) + count_list len (len ! k)" and "code_num len k < 2 ^ (len ! k)"
proof -
  show *: "code_num len k < first_code len (len ! k) + count_list len (len ! k)"
    using rank_less [OF assms(2)] by (simp add: code_num_def)
  have "len ! k \<in> set len" using assms(2) by simp
  then have "first_code len (len ! k) + count_list len (len ! k) \<le> 2 ^ (len ! k)"
    using assms(1) by (simp only: lengths_ok_def lengths_range_def kraft_def)
  with * show "code_num len k < 2 ^ (len ! k)" by simp
qed

text \<open>Codes that are longer than \<open>i\<close> are behind those of length \<open>i\<close>.\<close>

lemma first_code_mono: "i < j \<Longrightarrow> (first_code len i + count_list len i) * 2 ^ (j - i) \<le> first_code len j"
proof (induction j)
  case (Suc j)
  show ?case
  proof (cases "i = j")
    case False
    then have "(first_code len i + count_list len i) * 2 ^ (j - i) \<le> first_code len j" and "Suc j - i = Suc (j - i)"
      using Suc by simp_all
    then show ?thesis by (simp add: mult.left_commute)
  qed simp
qed simp

lemma code_len_finds:
  assumes "1 \<le> i" and "i \<le> m" and "m \<le> length lim"
    and "\<And>j. i \<le> j \<Longrightarrow> j < m \<Longrightarrow> lim ! (j - 1) < v" and "v \<le> lim ! (m - 1)"
  shows "code_len lim v i = Some m"
  using assms
proof (induction "m - i" arbitrary: i)
  case 0
  then show ?case by (simp add: code_len.simps)
next
  case (Suc n)
  then have "code_len lim v (i + 1) = Some m" by simp
  moreover have "lim ! (i - 1) < v" using Suc by simp
  ultimately show ?case using Suc by (subst code_len.simps) simp
qed

lemma bits_nat_append: "bits_nat (as @ bs) = bits_nat as * 2 ^ length bs + bits_nat bs"
proof (induction bs rule: rev_induct)
  case (snoc b bs)
  then show ?case by (simp add: bits_nat_snoc algebra_simps flip: append_assoc)
qed (simp add: bits_nat_def)

lemma bits_nat_low: "c < 2 ^ n \<Longrightarrow> n \<le> 32 \<Longrightarrow> bits_nat (low_bits n (of_nat c :: u32)) = c"
proof -
  assume c: "c < 2 ^ n" and n: "n \<le> 32"
  then have "c < 2 ^ 32" using power_increasing [OF n, of "2::nat"] by simp
  then have "unat (of_nat c :: u32) = c" by (simp add: unat_u32_of_nat)
  moreover have "unat (bits_val (low_bits n (of_nat c :: u32))) = take_bit n (unat (of_nat c :: u32))"
    by (simp add: bits_val_low unsigned_take_bit_eq)
  ultimately show ?thesis
    using c n by (simp add: unat_bits_val take_bit_nat_eq_self)
qed

lemma code_value:
  assumes "lengths_ok len" and "k < length len" and "len ! k + length cs \<le> 20"
  shows "uint (bits_val (code_bits len k @ cs)) = int (code_num len k * 2 ^ length cs + bits_nat cs)"
    and "uint (drop_bit (length cs) (bits_val (code_bits len k @ cs))) = int (code_num len k)"
proof -
  have "bits_nat (code_bits len k @ cs) = code_num len k * 2 ^ length cs + bits_nat cs"
    using code_less(2) [OF assms(1,2)] assms(3) by (simp add: bits_nat_append code_bits_def bits_nat_low)
  then have u: "unat (bits_val (code_bits len k @ cs)) = code_num len k * 2 ^ length cs + bits_nat cs"
    using assms(3) by (subst unat_bits_val) (simp_all add: code_bits_def)
  then show *: "uint (bits_val (code_bits len k @ cs)) = int (code_num len k * 2 ^ length cs + bits_nat cs)"
    by (metis of_nat_unat)
  have "(int (code_num len k) * 2 ^ length cs + int (bits_nat cs)) div 2 ^ length cs = int (code_num len k)"
    using bits_nat_less [of cs] by (simp add: div_add1_eq)
  moreover have "uint (drop_bit (length cs) w) = drop_bit (length cs) (uint w)" for w :: u32
    by (simp add: unsigned_drop_bit_eq take_bit_word_eq_self flip: unsigned_take_bit_eq)
  ultimately show "uint (drop_bit (length cs) (bits_val (code_bits len k @ cs))) = int (code_num len k)"
    by (simp add: * drop_bit_eq_div)
qed

text \<open>The read that is written inline is \<open>get_bits\<close>.\<close>

lemma next_byte_count:
  "next_byte (bd\<lparr>inbufBitCount := x\<rparr>) = apsnd (\<lambda>bd. bd\<lparr>inbufBitCount := x\<rparr>) (next_byte bd)"
  by (auto simp: next_byte_def bz_bind_def refill_def grab_byte_def split: prod.splits option.splits)

lemma bits_loop_count:
  "bits_loop v c w (bd\<lparr>inbufBitCount := x\<rparr>) = apsnd (\<lambda>bd. bd\<lparr>inbufBitCount := x\<rparr>) (bits_loop v c w bd)"
proof (induction v c w bd rule: bits_loop.induct)
  case (1 v c w bd)
  show ?case
  proof (cases "w \<le> c")
    case False
    obtain r bd1 where r: "next_byte bd = (r, bd1)" by (cases "next_byte bd")
    note IH = 1 [OF False r [unfolded next_byte_def, symmetric]]
    show ?thesis
      using IH False r next_byte_count [of x bd]
      by (cases r) (simp_all add: bits_loop.simps [of v c] flip: next_byte_def)
  qed (simp add: bits_loop.simps)
qed

lemma huff_bits_get_bits:
  assumes "n \<le> 24"
  shows "fst (huff_bits n bd) = fst (get_bits n bd) \<and> (\<not> isl (fst (get_bits n bd)) \<longrightarrow> huff_bits n bd = get_bits n bd)"
  using assms
proof (induction n bd rule: huff_bits.induct)
  case (1 n bd)
  show ?case
  proof (cases "inbufBitCount bd < n \<and> inbufPos bd \<noteq> length (inbuf bd)")
    case True
    obtain r bd1 where r: "grab_byte bd = (r, bd1)" by (cases "grab_byte bd")
    let ?c = "inbufBitCount bd" and ?bd = "bd1\<lparr>inbufBitCount := inbufBitCount bd + 8\<rparr>"
    have step: "bz_bind refill (\<lambda>_. grab_byte) bd = (r, bd1)"
      using True r by (simp add: bz_bind_def refill_def)
    show ?thesis
    proof (cases r)
      case (Inl e)
      then show ?thesis
        using True step r by (simp add: huff_bits.simps [of n bd] get_bits_def bits_loop.simps [of _ _ _ bd])
    next
      case (Inr u)
      have "?c < 24" using True 1(2) by linarith
      then have loop: "bits_loop 0 ?c n bd = bits_loop 0 (?c + 8) n bd1"
        using True step Inr by (simp add: bits_loop.simps [of _ _ _ bd])
      have same: "fst (get_bits n bd) = fst (get_bits n ?bd) \<and> (\<not> isl (fst (get_bits n bd)) \<longrightarrow> get_bits n bd = get_bits n ?bd)"
        by (simp add: get_bits_def loop bits_loop_count split: prod.splits sum.splits)
      have huff: "huff_bits n bd = huff_bits n ?bd"
        using True r Inr by (simp add: huff_bits.simps [of n bd])
      have "fst (huff_bits n ?bd) = fst (get_bits n ?bd) \<and> (\<not> isl (fst (get_bits n ?bd)) \<longrightarrow> huff_bits n ?bd = get_bits n ?bd)"
        by (rule 1(1) [OF _ _ r [symmetric] Inr 1(2)]) (use True in auto)
      then show ?thesis
        using same unfolding huff by metis
    qed
  next
    case False
    then show ?thesis
    proof (cases "inbufBitCount bd < n")
      case True
      then show ?thesis using False by (simp add: huff_bits.simps [of n bd])
    next
      case le: False
      then have "bits_loop 0 (inbufBitCount bd) n bd = (Inr (0, inbufBitCount bd, n), bd)"
        by (subst bits_loop.simps) simp
      then show ?thesis using le by (simp add: huff_bits.simps [of n bd] get_bits_def)
    qed
  qed
qed

text \<open>The bits of a code, and what follows it, give its symbol.\<close>

lemma decode_code:
  assumes "lengths_ok len" and "group_wf g" and "k < length len" and "length cs = maxLen (make_group len g) - len ! k"
  defines "h \<equiv> make_group len g" and "v \<equiv> bits_val (code_bits len k @ cs)"
  shows "code_len (limit h) (uint v) (minLen h) = Some (len ! k)"
    and "len ! k \<le> maxLen h"
    and "uint (drop_bit (maxLen h - len ! k) v) - base h ! (len ! k - 1) = int (shorter len (len ! k) + rank_of len k)"
    and "permute h ! (shorter len (len ! k) + rank_of len k) = k"
proof -
  let ?l = "len ! k"
  note T = make_group_tables [OF lengths_okD [OF assms(1)] assms(2), folded h_def]
  have l: "?l \<in> set len" using assms(3) by simp
  then have range: "minLen h \<le> ?l" "?l \<le> maxLen h" "maxLen h \<le> 20" "1 \<le> minLen h"
    using assms(1) unfolding T(1,2) by (auto simp: lengths_ok_def lengths_range_def MAX_HUFCODE_BITS_def)
  then have cs: "length cs = maxLen h - ?l" "?l + length cs \<le> 20"
    using assms(4) by (auto simp: h_def)
  note val = code_value [OF assms(1,3) cs(2), folded v_def]
  note less = code_less(1) [OF assms(1,3)]
  show "?l \<le> maxLen h" by (fact range(2))
  show "permute h ! (shorter len ?l + rank_of len k) = k" by (rule T(7) [OF assms(3)])
  show "uint (drop_bit (maxLen h - ?l) v) - base h ! (?l - 1) = int (shorter len ?l + rank_of len k)"
    using T(6) [of ?l] range val(2) by (simp add: cs(1) T(1,2) code_num_def)
  show "code_len (limit h) (uint v) (minLen h) = Some ?l"
  proof (rule code_len_finds)
    show "?l \<le> length (limit h)" using T(3) range by (simp add: group_wf_def MAX_HUFCODE_BITS_def)
    have "code_num len k * 2 ^ length cs + bits_nat cs < (code_num len k + 1) * 2 ^ length cs"
      using bits_nat_less [of cs] by simp
    also have "\<dots> \<le> (first_code len ?l + count_list len ?l) * 2 ^ length cs"
      using less by (intro mult_right_mono) auto
    finally have "int (code_num len k * 2 ^ length cs + bits_nat cs) < int ((first_code len ?l + count_list len ?l) * 2 ^ length cs)"
      by (simp only: of_nat_less_iff)
    then show "uint v \<le> limit h ! (?l - 1)"
      using T(4) [of ?l] range unfolding val(1) by (simp add: T(1,2) cs(1))
    fix j
    assume j: "minLen h \<le> j" "j < ?l"
    have "(first_code len j + count_list len j) * 2 ^ (maxLen h - j) =
        (first_code len j + count_list len j) * 2 ^ (?l - j) * 2 ^ length cs"
      using j range cs(1) by (simp flip: power_add)
    also have "\<dots> \<le> first_code len ?l * 2 ^ length cs"
      using first_code_mono [OF j(2), of len] by (intro mult_right_mono) auto
    also have "\<dots> \<le> code_num len k * 2 ^ length cs + bits_nat cs"
      by (simp add: code_num_def algebra_simps)
    finally have "int ((first_code len j + count_list len j) * 2 ^ (maxLen h - j)) \<le> int (code_num len k * 2 ^ length cs + bits_nat cs)"
      by (simp only: of_nat_le_iff)
    then show "limit h ! (j - 1) < uint v"
      using T(4) [of j] j range unfolding val(1) by (simp add: T(1,2))
  qed (use range in auto)
qed

text \<open>\<open>huff_symbol\<close> reads the code of a symbol, if as many bits as a code can have are there.\<close>

lemma huff_symbol_reads:
  assumes "lengths_ok len" and "group_wf g" and "k < length len"
  shows "reads s (huff_symbol (make_group len g)) (code_bits len k) k s"
  unfolding reads_def
proof (intro allI impI)
  fix bd rest
  assume bd: "core bd = s" "bits_wf bd" "bit_stream bd = code_bits len k @ rest" and rest: "20 \<le> length rest"
  let ?h = "make_group len g" and ?l = "len ! k"
  define j where "j = maxLen ?h - ?l"
  let ?cs = "take j rest"
  have max: "maxLen ?h \<le> 20"
    using make_group_tables(2,3) [OF lengths_okD [OF assms(1)] assms(2)] assms(1) Max_in [of "set len"]
    by (auto simp: lengths_ok_def lengths_range_def MAX_HUFCODE_BITS_def)
  have cs: "length ?cs = maxLen ?h - ?l" using rest max by (simp add: j_def)
  note D = decode_code [OF assms cs]
  have len: "length (code_bits len k @ ?cs) = maxLen ?h" "length (code_bits len k) = ?l"
    using D(2) cs by (auto simp: code_bits_def)
  have str: "bit_stream bd = (code_bits len k @ ?cs) @ drop j rest" using bd(3) by simp
  have "length (code_bits len k @ ?cs) \<le> 32" using len max by simp
  then obtain bd1 where get: "get_bits (length (code_bits len k @ ?cs)) bd = (Inr (bits_val (code_bits len k @ ?cs)), bd1)"
    and giveback: "\<And>i. i = 0 \<or> i \<le> length (code_bits len k @ ?cs) \<and> length (code_bits len k @ ?cs) \<le> 20 \<Longrightarrow>
      bit_stream (unget_bits i bd1) = drop (length (code_bits len k @ ?cs) - i) (code_bits len k @ ?cs) @ drop j rest \<and>
        bits_wf (unget_bits i bd1)"
    and only: "bits_only bd bd1"
    by (rule get_bits_stream [OF str _ bd(2)]) blast+
  have "huff_bits (maxLen ?h) bd = get_bits (maxLen ?h) bd"
    using huff_bits_get_bits [of "maxLen ?h" bd] max get unfolding len by simp
  then have bits: "huff_bits (maxLen ?h) bd = (Inr (bits_val (code_bits len k @ ?cs)), bd1)"
    using get unfolding len by simp
  have rest': "bit_stream (unget_bits j bd1) = rest" "bits_wf (unget_bits j bd1)"
    using giveback [of j] len max D(2) rest by (auto simp: j_def)
  have "shorter len (Suc ?l) \<le> MAX_SYMBOLS"
    using assms(1) length_filter_le [of "\<lambda>l. l < Suc ?l" len] unfolding shorter_filter lengths_ok_def lengths_range_def by linarith
  then have "shorter len ?l + rank_of len k < MAX_SYMBOLS"
    using rank_less [OF assms(3)] by simp
  moreover have "length (permute ?h) = MAX_SYMBOLS" "?l \<le> length (base ?h)"
    using make_group_tables(3) [OF lengths_okD [OF assms(1)] assms(2)] max D(2)
    by (auto simp: group_wf_def MAX_HUFCODE_BITS_def)
  ultimately have "huff_symbol ?h bd = (Inr k, unget_bits j bd1)"
    using bits D by (simp add: huff_symbol_def bz_bind_def bz_check_def bz_ret_def bz_upd_def Let_def nat_int_add flip: j_def)
  then show "\<exists>bd'. huff_symbol ?h bd = (Inr k, bd') \<and> core bd' = s \<and> bits_wf bd' \<and> bit_stream bd' = rest"
    using rest' only bd(1) by (auto simp: bits_only_def core_def unget_bits_def)
qed

end
