(* ===== verification/Bz_Bwt.thy ===== *)
theory Bz_Bwt
  imports Bz_Huffman "HOL-Library.List_Lexorder" "HOL-Library.Multiset"
begin

text \<open>
  The Burrows-Wheeler transform: the last column of the sorted rotations of a block, and the proof that the links
  that \<open>get_next_block\<close> stores in \<open>dbuf\<close> lead from the place of the block through its bytes in order.
\<close>

section \<open>The transform\<close>

definition rotations :: "byte list \<Rightarrow> byte list list" where
  "rotations s = sort (map (\<lambda>i. rotate i s) [0..<length s])"

definition last_column :: "byte list \<Rightarrow> byte list" where
  "last_column s = map last (rotations s)"

text \<open>The places in the last column, sorted by their bytes, and among equal bytes in order.\<close>

definition links :: "byte list \<Rightarrow> nat list" where
  "links col = sort_symbols 0 255 (map unat col)"

definition rotr :: "'a list \<Rightarrow> 'a list" where
  "rotr xs = last xs # butlast xs"

lemma length_rotations [simp]: "length (rotations s) = length s"
  by (simp add: rotations_def)

lemma length_last_column [simp]: "length (last_column s) = length s"
  by (simp add: last_column_def)

lemma rotr_rotate1: "xs \<noteq> [] \<Longrightarrow> rotr (rotate1 xs) = xs"
  by (cases xs) (simp_all add: rotr_def)

lemma rotate1_rotr: "xs \<noteq> [] \<Longrightarrow> rotate1 (rotr xs) = xs"
  by (simp add: rotr_def)

lemma rotations_length: "xs \<in> set (rotations s) \<Longrightarrow> length xs = length s"
  by (auto simp: rotations_def)

text \<open>Turning every rotation by one gives the same rotations.\<close>

lemma mset_rotr: "mset (map rotr (rotations s)) = mset (rotations s)"
proof (cases "s = []")
  case False
  then obtain n where n: "length s = Suc n" by (cases s) auto
  have "rotate (Suc n) s = s" using n by (metis rotate_id mod_self)
  then have "map (\<lambda>i. rotate (Suc i) s) [0..<Suc n] = map (\<lambda>i. rotate i s) [Suc 0..<Suc n] @ [s]"
    using map_Suc_upt [of 0 "Suc n"] map_map [of "\<lambda>i. rotate i s" Suc "[0..<Suc n]"] upt_Suc_append [of "Suc 0" "Suc n"]
    by (simp add: comp_def del: upt_Suc rotate_Suc)
  moreover have "map (\<lambda>i. rotate i s) [0..<Suc n] = s # map (\<lambda>i. rotate i s) [Suc 0..<Suc n]"
    by (simp add: upt_conv_Cons del: upt_Suc)
  ultimately have "mset (map (\<lambda>i. rotate (Suc i) s) [0..<Suc n]) = mset (map (\<lambda>i. rotate i s) [0..<Suc n])"
    by simp
  moreover have "mset (rotations s) = mset (map (\<lambda>i. rotate i s) [0..<Suc n])"
    by (simp add: rotations_def n del: upt_Suc)
  ultimately have "mset (rotations s) = mset (map rotate1 (rotations s))"
    by (simp add: image_mset.compositionality comp_def del: upt_Suc)
  then have "mset (map rotr (rotations s)) = mset (map (rotr \<circ> rotate1) (rotations s))"
    by (metis mset_map list.map_comp)
  also have "map (rotr \<circ> rotate1) (rotations s) = map id (rotations s)"
    using False by (intro map_cong) (auto dest: rotations_length intro!: rotr_rotate1)
  finally show ?thesis by simp
qed (simp add: rotations_def)

lemma append_le_append: "length u = length v \<Longrightarrow> u @ [c] \<le> v @ [c] \<Longrightarrow> u \<le> v" for c :: byte
  by (induction u v rule: list_induct2) auto

lemma butlast_le:
  fixes xs ys :: "byte list"
  assumes "xs \<le> ys" and "xs \<noteq> []" and "length xs = length ys" and "last xs = last ys"
  shows "butlast xs \<le> butlast ys"
proof -
  have "butlast xs @ [last ys] \<le> butlast ys @ [last ys]"
    using assms append_butlast_last_id [of xs] append_butlast_last_id [of ys] by (cases "ys = []") auto
  then show ?thesis using assms(3) append_le_append [of "butlast xs" "butlast ys"] by simp
qed

lemma mset_links: "mset (links col) = mset [0..<length col]"
proof -
  let ?F = "\<lambda>xs i. filter (\<lambda>k. map unat col ! k = i) xs"
  have "mset (concat (map (?F xs) [0..<m])) = mset (filter (\<lambda>k. map unat col ! k < m) xs)" for xs m
  proof (induction m)
    case (Suc m)
    have "mset (filter (\<lambda>k. map unat col ! k < Suc m) xs) = mset (filter (\<lambda>k. map unat col ! k < m) xs) + mset (?F xs m)"
      by (induction xs) auto
    then show ?case using Suc by simp
  qed simp
  from this [of "[0..<length col]" 256]
  have "mset (links col) = mset (filter (\<lambda>k. map unat col ! k < 256) [0..<length col])"
    unfolding links_def sort_symbols_def length_map by simp
  moreover have "filter (\<lambda>k. map unat col ! k < 256) [0..<length col] = [0..<length col]"
    using unsigned_less [where ?'a = nat and 'b = 8] by (auto simp: filter_id_conv simp del: mset_filter)
  ultimately show ?thesis
    by simp
qed

lemma links_perm: "length (links col) = length col" "distinct (links col)" "set (links col) = {0..<length col}"
  using mset_links [of col] by (metis length_upt minus_nat.diff_0 size_mset, metis distinct_upt mset_eq_imp_distinct_iff, metis set_upt set_mset_mset)

text \<open>Along the links every rotation is turned by one.\<close>

lemma sorted_buckets:
  assumes "\<And>i j. i < j \<Longrightarrow> j < n \<Longrightarrow> key i = key j \<Longrightarrow> g i \<le> g j"
    and "\<And>i j. i < n \<Longrightarrow> j < n \<Longrightarrow> key i < key j \<Longrightarrow> g i \<le> g j"
  shows "sorted_wrt (\<lambda>i j. g i \<le> (g j :: 'a::linorder)) (concat (map (\<lambda>b. filter (\<lambda>k. key k = b) [0..<n]) [0..<m :: nat]))"
proof (induction m)
  case (Suc m)
  have "sorted_wrt (\<lambda>i j. g i \<le> g j) (filter (\<lambda>k. key k = m) [0..<n])"
  proof (rule sorted_wrt_mono_rel)
    show "sorted_wrt (<) (filter (\<lambda>k. key k = m) [0..<n])"
      by (rule sorted_wrt_filter) (simp add: sorted_wrt_upt)
  qed (use assms(1) in auto)
  then show ?case
    using Suc assms(2) by (auto simp: sorted_wrt_append)
qed simp

lemma rotations_links:
  assumes "i < length s"
  shows "rotations s ! (links (last_column s) ! i) = rotate1 (rotations s ! i)"
proof -
  let ?R = "rotations s" and ?L = "last_column s"
  have col: "?L ! i = last (?R ! i)" if "i < length s" for i using that by (simp add: last_column_def)
  have ne: "?R ! i \<noteq> [] \<and> length (?R ! i) = length s" if "i < length s" for i
    using rotations_length [of "?R ! i" s] that by auto
  have sorted: "?R ! i \<le> ?R ! j" if "i < j" "j < length s" for i j
    using that by (simp add: rotations_def sorted_nth_mono)
  have "sorted_wrt (\<lambda>i j. rotr (?R ! i) \<le> rotr (?R ! j)) (links ?L)"
    unfolding links_def sort_symbols_def length_map length_last_column
  proof (rule sorted_buckets)
    fix i j
    assume "i < j" "j < length s" "map unat ?L ! i = map unat ?L ! j"
    then show "rotr (?R ! i) \<le> rotr (?R ! j)"
      using butlast_le [of "?R ! i" "?R ! j"] sorted [of i j] ne [of i] ne [of j]
      by (auto simp: rotr_def col dest: unsigned_word_eqI)
  next
    fix i j
    assume "i < length s" "j < length s" "map unat ?L ! i < map unat ?L ! j"
    then show "rotr (?R ! i) \<le> rotr (?R ! j)"
      by (simp add: rotr_def col word_less_nat_alt)
  qed
  then have "sorted (map (\<lambda>i. rotr (?R ! i)) (links ?L))"
    by (simp add: sorted_wrt_map)
  moreover have "mset (map (\<lambda>i. rotr (?R ! i)) (links ?L)) = mset ?R"
  proof -
    have "mset (map (\<lambda>i. rotr (?R ! i)) (links ?L)) = mset (map rotr (map ((!) ?R) [0..<length s]))"
      using mset_links [of ?L] by (simp only: mset_map map_map comp_def length_last_column)
    then show ?thesis by (simp only: map_nth [of ?R, unfolded length_rotations] mset_rotr)
  qed
  ultimately have "map (\<lambda>i. rotr (?R ! i)) (links ?L) = sort ?R"
    by (metis properties_for_sort)
  then have "map (\<lambda>i. rotr (?R ! i)) (links ?L) = ?R"
    by (simp add: rotations_def sorted_sort_id)
  then have "rotr (?R ! (links ?L ! i)) = ?R ! i"
    using assms links_perm(1) [of ?L] by (metis length_last_column nth_map)
  moreover have "links ?L ! i < length s"
    using assms links_perm [of ?L] by (metis atLeastLessThan_iff length_last_column nth_mem)
  ultimately show ?thesis
    using ne rotate1_rotr by metis
qed

text \<open>The bytes behind the place of the block, along the links, are the block.\<close>

definition follow :: "nat list \<Rightarrow> nat \<Rightarrow> nat \<Rightarrow> nat" where
  "follow ls p k = ((\<lambda>i. ls ! i) ^^ k) p"

lemma follow_rotations:
  assumes "p < length s" and "rotations s ! p = s"
  shows "follow (links (last_column s)) p k < length s \<and> rotations s ! follow (links (last_column s)) p k = rotate k s"
proof (induction k)
  case (Suc k)
  let ?i = "follow (links (last_column s)) p k"
  have "links (last_column s) ! ?i < length s"
    using Suc links_perm [of "last_column s"] by (metis atLeastLessThan_iff length_last_column nth_mem)
  then show ?case
    using Suc rotations_links [of ?i s] by (simp add: follow_def)
qed (use assms in \<open>simp add: follow_def\<close>)

lemma last_rotate: "k < length s \<Longrightarrow> last (rotate (Suc k) s) = s ! k"
proof -
  assume k: "k < length s"
  show ?thesis
  proof (cases "Suc k = length s")
    case True
    then have "rotate (Suc k) s = s" and "s \<noteq> []" by auto
    then show ?thesis using True by (metis diff_Suc_1 last_conv_nth)
  next
    case False
    then show ?thesis
      using k by (simp add: rotate_drop_take take_Suc_conv_app_nth del: rotate_Suc)
  qed
qed

theorem follow_block:
  assumes "p < length s" and "rotations s ! p = s"
  shows "map (\<lambda>k. last_column s ! follow (links (last_column s)) p (Suc k)) [0..<length s] = s"
proof (rule nth_equalityI)
  fix k
  assume "k < length (map (\<lambda>k. last_column s ! follow (links (last_column s)) p (Suc k)) [0..<length s])"
  then have k: "k < length s" by simp
  then show "map (\<lambda>k. last_column s ! follow (links (last_column s)) p (Suc k)) [0..<length s] ! k = s ! k"
    using follow_rotations [OF assms, of "Suc k"] last_rotate [OF k] by (simp add: last_column_def)
qed simp

section \<open>The links in dbuf\<close>

lemma cumulate_nth: "i < length cs \<Longrightarrow> cumulate j cs ! i = j + sum_list (take i cs)"
proof (induction cs arbitrary: i j)
  case (Cons c cs)
  then show ?case by (cases i) auto
qed simp

lemma length_cumulate: "length (cumulate j cs) = length cs"
  by (induction j cs rule: cumulate.induct) simp_all

definition byte_counts :: "byte list \<Rightarrow> nat list" where
  "byte_counts col = map (count_list (map unat col)) [0..<256]"

lemma cumulate_shorter: "i < 256 \<Longrightarrow> cumulate 0 (byte_counts col) ! i = shorter (map unat col) i"
proof -
  have "sum_list (take i (byte_counts col)) = shorter (map unat col) i" if "i \<le> 256"
    using that
  proof (induction i)
    case (Suc i)
    then show ?case by (simp add: take_Suc_conv_app_nth byte_counts_def)
  qed simp
  then show "i < 256 \<Longrightarrow> ?thesis" by (simp add: cumulate_nth byte_counts_def)
qed

definition linked :: "byte list \<Rightarrow> nat \<Rightarrow> u32 list" where
  "linked col i = map (\<lambda>j. ucast (col ! j) OR (if links col ! j < i then push_bit 8 (of_nat (links col ! j)) else 0)) [0..<length col]"

definition link_counts :: "byte list \<Rightarrow> nat \<Rightarrow> nat list" where
  "link_counts col i = map (\<lambda>b. shorter (map unat col) b + length (filter (\<lambda>k. map unat col ! k = b) [0..<i])) [0..<256]"

lemma linked_low: "j < length col \<Longrightarrow> ucast (linked col i ! j) = col ! j"
  by (auto simp: linked_def bit_simps intro!: bit_word_eqI)

lemma link_step_linked:
  assumes "i < length col"
  shows "link_step i (linked col i, link_counts col i) = Some (linked col (Suc i), link_counts col (Suc i))"
proof -
  let ?len = "map unat col" and ?b = "unat (col ! i)"
  let ?q = "shorter ?len ?b + rank_of ?len i"
  have b: "?b < 256" using unsigned_less [of "col ! i", where ?'a = nat] by simp
  have q: "?q < length col" "links col ! ?q = i"
    using sort_symbols_nth [of i ?len 0 255] assms b links_perm(1) [of col] by (auto simp: links_def)
  have count: "link_counts col i ! ?b = ?q"
    using b assms by (simp add: link_counts_def rank_of_def)
  have byte: "unat (ucast (linked col i ! i) :: byte) = ?b"
    using assms by (simp add: linked_low)
  have "(linked col i)[?q := linked col i ! ?q OR push_bit 8 (of_nat i)] = linked col (Suc i)"
  proof (rule nth_equalityI)
    fix j
    assume "j < length ((linked col i)[?q := linked col i ! ?q OR push_bit 8 (of_nat i)])"
    then have j: "j < length col" by (simp add: linked_def)
    have "links col ! j = i \<longleftrightarrow> j = ?q"
      using q j links_perm(1,2) [of col] by (metis nth_eq_iff_index_eq)
    then show "(linked col i)[?q := linked col i ! ?q OR push_bit 8 (of_nat i)] ! j = linked col (Suc i) ! j"
      using j q by (auto simp: linked_def nth_list_update less_Suc_eq)
  qed (simp add: linked_def)
  moreover have "(link_counts col i)[?b := ?q + 1] = link_counts col (Suc i)"
  proof (rule nth_equalityI)
    fix j
    assume "j < length ((link_counts col i)[?b := ?q + 1])"
    then show "(link_counts col i)[?b := ?q + 1] ! j = link_counts col (Suc i) ! j"
      using assms by (auto simp: link_counts_def nth_list_update rank_of_def)
  qed (simp add: link_counts_def)
  moreover have "?q < length (linked col i)" using q(1) by (simp add: linked_def)
  ultimately show ?thesis
    by (simp add: link_step_def Let_def byte count)
qed

lemma link_dbuf_linked: "link_dbuf (byte_counts col) (map ucast col) = Some (linked col (length col))"
proof -
  have zero: "linked col 0 = map ucast col"
    by (rule nth_equalityI) (simp_all add: linked_def)
  have counts: "link_counts col 0 = cumulate 0 (byte_counts col)"
    by (rule nth_equalityI) (simp_all add: link_counts_def cumulate_shorter [symmetric] length_cumulate, simp_all add: byte_counts_def)
  have "fold (\<lambda>i s. Option.bind s (link_step i)) [0..<n] (Some (linked col 0, link_counts col 0)) =
      Some (linked col n, link_counts col n)" if "n \<le> length col" for n
    using that by (induction n) (simp_all add: link_step_linked)
  from this [of "length col"] show ?thesis
    by (simp add: link_dbuf_def zero counts)
qed

end
