(* ===== verification/Bz_Format.thy ===== *)
theory Bz_Format
  imports Bz_Bwt
begin

text \<open>
  The format of a block of bzip2 as an encoder into bits, phase by phase, with the proof for each phase
  that the code reads what was encoded.
\<close>

section \<open>Rules\<close>

lemma reads_check: "b \<Longrightarrow> reads s (bz_check b e) [] () s"
  by (simp add: bz_check_def reads_ret)

lemma reads_get:
  assumes "\<And>bd. f (core bd) = f bd"
  shows "reads s (bz_get f) [] (f s) s"
proof -
  have "f bd = f s" if "core bd = s" for bd using assms [of bd] that by simp
  then show ?thesis by (auto simp: reads_def bz_get_def)
qed

lemma reads_upd:
  assumes "\<And>bd. core (f bd) = f (core bd)" and "\<And>bd. bits_wf (f bd) = bits_wf bd" and "\<And>bd. bit_stream (f bd) = bit_stream bd"
  shows "reads s (bz_upd f) [] () (f s)"
  using assms by (auto simp: reads_def bz_upd_def)

lemma core_fields [simp]:
  "core (bd\<lparr>headerCRC := x\<rparr>) = (core bd)\<lparr>headerCRC := x\<rparr>" "core (bd\<lparr>dbuf := d\<rparr>) = (core bd)\<lparr>dbuf := d\<rparr>"
  "core (bd\<lparr>selectors := sel\<rparr>) = (core bd)\<lparr>selectors := sel\<rparr>" "core (bd\<lparr>groups := gs\<rparr>) = (core bd)\<lparr>groups := gs\<rparr>"
  "dbufSize (core bd) = dbufSize bd" "selectors (core bd) = selectors bd" "groups (core bd) = groups bd"
  "dbuf (core bd) = dbuf bd" "crc32Table (core bd) = crc32Table bd" "headerCRC (core bd) = headerCRC bd"
  "core (core bd) = core bd"
  by (simp_all add: core_def)

lemma bits_fields [simp]:
  "bits_wf (bd\<lparr>headerCRC := x\<rparr>) = bits_wf bd" "bits_wf (bd\<lparr>dbuf := d\<rparr>) = bits_wf bd"
  "bits_wf (bd\<lparr>selectors := sel\<rparr>) = bits_wf bd" "bits_wf (bd\<lparr>groups := gs\<rparr>) = bits_wf bd"
  "bit_stream (bd\<lparr>headerCRC := x\<rparr>) = bit_stream bd" "bit_stream (bd\<lparr>dbuf := d\<rparr>) = bit_stream bd"
  "bit_stream (bd\<lparr>selectors := sel\<rparr>) = bit_stream bd" "bit_stream (bd\<lparr>groups := gs\<rparr>) = bit_stream bd"
  by (simp_all add: bits_wf_def bit_stream_def)

lemma reads_last: "reads s m bs v s1 \<Longrightarrow> reads s1 (f v) [] w s2 \<Longrightarrow> reads s (bz_bind m f) bs w s2"
  using reads_bind [of s m bs v s1 f "[]"] by simp

section \<open>The header\<close>

definition nat_bits :: "nat \<Rightarrow> nat \<Rightarrow> bool list" where
  "nat_bits k n = low_bits k (of_nat n :: u32)"

lemma length_nat_bits [simp]: "length (nat_bits k n) = k"
  by (simp add: nat_bits_def)

lemma reads_nat:
  assumes "n < 2 ^ k" and "k \<le> 32"
  shows "reads s (get_bits k) (nat_bits k n) (of_nat n) s"
proof -
  have "bits_val (nat_bits k n) = of_nat n"
    using bits_nat_low [OF assms] by (simp add: bits_val_nat nat_bits_def)
  then show ?thesis using reads_bits [of "nat_bits k n" k s] assms(2) by simp
qed

lemma reads_word: "reads s (get_bits 32) (low_bits 32 w) w s" for w :: u32
  using reads_low_bits [of 32 s w] by (simp add: take_bit_word_eq_self)

definition header_bits :: "u32 \<Rightarrow> nat \<Rightarrow> bool list" where
  "header_bits crc origPtr = nat_bits 24 0x314159 @ nat_bits 24 0x265359 @ low_bits 32 crc @ nat_bits 1 0 @ nat_bits 24 origPtr"

lemma block_header_reads:
  assumes "origPtr \<le> dbufSize s" and "dbufSize s < 2 ^ 24"
  shows "reads s block_header (header_bits crc origPtr) origPtr (s\<lparr>headerCRC := crc\<rparr>)"
proof -
  have u: "unat (of_nat origPtr :: u32) = origPtr"
    using assms unfolding unat_u32_of_nat by simp
  have get: "reads (s\<lparr>headerCRC := crc\<rparr>) (bz_get dbufSize) [] (dbufSize s) (s\<lparr>headerCRC := crc\<rparr>)"
    using reads_get [of dbufSize "s\<lparr>headerCRC := crc\<rparr>"] by simp
  show ?thesis
    unfolding block_header_def header_bits_def
    by (rule reads_bind [OF reads_nat], simp, simp, rule reads_bind [OF reads_nat], simp, simp,
        rule reads_bind [OF reads_word], rule reads_then [OF reads_upd], simp, simp, simp,
        rule reads_then [OF reads_check], simp, rule reads_then [OF reads_check], simp,
        rule reads_bind [OF reads_nat], simp, simp, rule reads_then [OF reads_check], simp,
        rule reads_last [OF reads_nat], use assms in simp, simp, rule reads_then [OF get],
        rule reads_then [OF reads_check], use assms u in simp, use u reads_ret in simp)
qed

section \<open>The symbols in use\<close>

definition used_bytes :: "byte set \<Rightarrow> byte list" where
  "used_bytes B = map of_nat (filter (\<lambda>i. (of_nat i :: byte) \<in> B) [0..<256])"

definition sixteen :: "byte set \<Rightarrow> nat \<Rightarrow> bool list" where
  "sixteen B g = map (\<lambda>r. (of_nat (16 * g + r) :: byte) \<in> B) [0..<16]"

lemma length_sixteen [simp]: "length (sixteen B g) = 16"
  by (simp add: sixteen_def)

definition map_bits :: "byte set \<Rightarrow> bool list" where
  "map_bits B = map (\<lambda>g. True \<in> set (sixteen B g)) [0..<16] @
     concat (map (sixteen B) (filter (\<lambda>g. True \<in> set (sixteen B g)) [0..<16]))"

lemma bit_bits_val: "length bs \<le> 32 \<Longrightarrow> i < length bs \<Longrightarrow> bit (bits_val bs) (length bs - 1 - i) = bs ! i"
proof -
  have nat: "i < length bs \<Longrightarrow> bit (bits_nat bs) (length bs - 1 - i) = bs ! i"
  proof (induction bs arbitrary: i rule: rev_induct)
    case (snoc b bs)
    show ?case
    proof (cases "i = length bs")
      case True
      then show ?thesis by (simp add: bits_nat_snoc bit_0)
    next
      case False
      then have "length (bs @ [b]) - 1 - i = Suc (length bs - 1 - i)" and i: "i < length bs"
        using snoc.prems by auto
      then show ?thesis
        using snoc.IH [OF i] by (cases b) (simp_all add: bits_nat_snoc bit_Suc nth_append)
    qed
  qed simp
  show "length bs \<le> 32 \<Longrightarrow> i < length bs \<Longrightarrow> ?thesis"
    using nat by (auto simp: bits_val_nat bit_of_nat_iff)
qed

lemma bit_15: "(w AND 0x8000 \<noteq> 0) = bit w 15" for w :: u32
  using and_exp_eq_0_iff_not_bit [of w 15] by simp

lemma inner_loop_bits:
  assumes "length bs = 16" and "r < 16"
  shows "inner_loop (push_bit r (bits_val bs)) (16 * g + r) s =
    (s @ map (\<lambda>k. of_nat (16 * g + k)) (filter (\<lambda>k. bs ! k) [r..<16]), 16 * g + 16)"
  using assms(2)
proof (induction "15 - r" arbitrary: r s)
  case (0 r s)
  then have r: "r = 15" by simp
  have "bit (push_bit 15 (bits_val bs)) 15 = bs ! 15"
    using bit_bits_val [of bs 15] assms by (simp add: bit_push_bit_iff)
  moreover have "(16 * g + 15 + 1) mod 16 = 0" by simp
  ultimately show ?case
    unfolding r by (subst inner_loop.simps) (simp add: bit_15 Let_def upt_conv_Cons del: push_bit_numeral_minus_1)
next
  case (Suc n r s)
  let ?s = "if bs ! r then s @ [of_nat (16 * g + r)] else s"
  have bit: "bit (push_bit r (bits_val bs)) 15 = bs ! r"
    using bit_bits_val [of bs r] Suc.prems assms(1) by (simp add: bit_push_bit_iff)
  have "(16 * g + r + 1) mod 16 \<noteq> 0"
    using Suc.hyps(2) mod_mult_self4 [of 16 g "r + 1"] by (simp add: add.assoc)
  then have "inner_loop (push_bit r (bits_val bs)) (16 * g + r) s = inner_loop (push_bit (Suc r) (bits_val bs)) (16 * g + Suc r) ?s"
    by (subst inner_loop.simps) (simp add: bit_15 bit Let_def)
  also have "\<dots> = (?s @ map (\<lambda>k. of_nat (16 * g + k)) (filter (\<lambda>k. bs ! k) [Suc r..<16]), 16 * g + 16)"
    using Suc by (intro Suc.hyps(1)) auto
  finally show ?case
    using Suc.prems by (simp add: upt_conv_Cons)
qed

lemma filter_sixteen:
  "map of_nat (filter (\<lambda>i. (of_nat i :: byte) \<in> B) [16 * g..<16 * g + 16]) =
    map (\<lambda>k. of_nat (16 * g + k) :: byte) (filter (\<lambda>k. sixteen B g ! k) [0..<16])"
proof -
  have "[16 * g..<16 * g + 16] = map (\<lambda>k. 16 * g + k) [0..<16]"
    using map_add_upt [of "16 * g" 16] by (simp add: add.commute)
  moreover have "filter (\<lambda>k. (of_nat (16 * g + k) :: byte) \<in> B) [0..<16] = filter (\<lambda>k. sixteen B g ! k) [0..<16]"
    by (intro filter_cong) (auto simp: sixteen_def)
  ultimately show ?thesis by (simp add: filter_map comp_def)
qed

lemma symbol_map_reads:
  assumes "g < 16" and "length tb = 16" and "\<And>g. g < 16 \<Longrightarrow> tb ! g = (True \<in> set (sixteen B g))" and "length sy \<le> 16 * g"
  shows "reads s (symbol_map (push_bit g (bits_val tb)) (16 * g) sy)
    (concat (map (sixteen B) (filter (\<lambda>g. True \<in> set (sixteen B g)) [g..<16])))
    (sy @ map of_nat (filter (\<lambda>i. (of_nat i :: byte) \<in> B) [16 * g..<256])) s"
  using assms(1,4)
proof (induction "15 - g" arbitrary: g sy rule: less_induct)
  case less
  let ?sy = "sy @ map of_nat (filter (\<lambda>i. (of_nat i :: byte) \<in> B) [16 * g..<16 * g + 16])"
  let ?rest = "concat (map (sixteen B) (filter (\<lambda>g. True \<in> set (sixteen B g)) [Suc g..<16]))"
  have len: "length ?sy \<le> 16 * Suc g"
    using less.prems(2) length_filter_le [of "\<lambda>i. (of_nat i :: byte) \<in> B" "[16 * g..<16 * g + 16]"] by simp
  have bit: "bit (push_bit g (bits_val tb)) 15 = (True \<in> set (sixteen B g))"
    using bit_bits_val [of tb g] less.prems assms(2,3) by (simp add: bit_push_bit_iff)
  have rest: "reads s (if 16 * g + 16 < 256 then symbol_map (push_bit 1 (push_bit g (bits_val tb))) (16 * g + 16) ?sy else bz_ret ?sy)
      ?rest (sy @ map of_nat (filter (\<lambda>i. (of_nat i :: byte) \<in> B) [16 * g..<256])) s"
  proof (cases "g = 15")
    case True
    then show ?thesis by (simp add: reads_ret)
  next
    case False
    then have "[16 * g..<256] = [16 * g..<16 * g + 16] @ [16 * Suc g..<256]"
      using less.prems upt_add_eq_append [of "16 * g" "16 * g + 16" "240 - 16 * g"] by (simp add: add.commute)
    moreover have "push_bit 1 (push_bit g (bits_val tb)) = push_bit (Suc g) (bits_val tb)" by simp
    moreover have "16 * g + 16 < 256" "16 * g + 16 = 16 * Suc g" using False less.prems by auto
    ultimately show ?thesis
      using less.hyps [of "Suc g" ?sy] False less.prems len by (simp only: if_True map_append filter_append append_assoc)
  qed
  have groups: "filter (\<lambda>g. True \<in> set (sixteen B g)) [g..<16] =
      (if True \<in> set (sixteen B g) then [g] else []) @ filter (\<lambda>g. True \<in> set (sixteen B g)) [Suc g..<16]"
    using less.prems by (simp add: upt_conv_Cons)
  show ?case
  proof (cases "True \<in> set (sixteen B g)")
    case True
    have "inner_loop (bits_val (sixteen B g)) (16 * g) sy = (?sy, 16 * g + 16)"
      using inner_loop_bits [of "sixteen B g" 0 g sy] by (simp add: filter_sixteen)
    moreover have "length ?sy \<le> 256" using len less.prems(1) by simp
    ultimately show ?thesis
      using rest True bit unfolding groups
      by (subst symbol_map.simps)
        (auto simp del: length_append length_map simp: bit_15 intro!: reads_bind [OF reads_bits] reads_then [OF reads_check])
  next
    case False
    then have "filter (\<lambda>k. sixteen B g ! k) [0..<16] = []"
      by (auto simp: filter_empty_conv sixteen_def)
    then have sy: "?sy = sy" using filter_sixteen [of B g] by simp
    show ?thesis
      using rest unfolding groups sy
      by (subst symbol_map.simps) (simp only: bit_15 bit False if_False append_Nil not_True_eq_False)
  qed
qed

lemma map_bits_reads:
  "reads s (bz_bind (get_bits 16) (\<lambda>t. symbol_map t 0 [])) (map_bits B) (used_bytes B) s"
proof -
  let ?tb = "map (\<lambda>g. True \<in> set (sixteen B g)) [0..<16]"
  have "reads s (symbol_map (bits_val ?tb) 0 []) (concat (map (sixteen B) (filter (\<lambda>g. True \<in> set (sixteen B g)) [0..<16])))
      (used_bytes B) s"
    using symbol_map_reads [of 0 ?tb B "[]" s] by (simp add: used_bytes_def)
  then show ?thesis
    unfolding map_bits_def by (intro reads_bind [OF reads_bits]) simp_all
qed

section \<open>The selectors\<close>

text \<open>The place of an entry in a list, and the list with the entry moved to the front.\<close>

definition place :: "'a \<Rightarrow> 'a list \<Rightarrow> nat" where
  "place x xs = length (takeWhile (\<lambda>y. y \<noteq> x) xs)"

lemma place_nth: "x \<in> set xs \<Longrightarrow> place x xs < length xs \<and> xs ! place x xs = x"
  by (induction xs) (auto simp: place_def)

lemma mtf_shift_append: "n < length xs \<Longrightarrow> tl (mtf_shift n xs) = take n xs @ drop (Suc n) xs \<and> length (mtf_shift n xs) = length xs"
proof (induction n xs rule: mtf_shift.induct)
  case (1 xs)
  then show ?case by (cases xs) auto
next
  case (2 n xs)
  let ?ys = "xs[Suc n := xs ! n]"
  have "take n ?ys = take n xs" "drop (Suc n) ?ys = xs ! n # drop (Suc (Suc n)) xs"
    using 2(2) by (simp_all add: drop_update_swap Cons_nth_drop_Suc [symmetric])
  then show ?case
    using 2 by (simp add: take_Suc_conv_app_nth)
qed

lemma move_to_front: "n < length xs \<Longrightarrow> move_to_front n xs = xs ! n # take n xs @ drop (Suc n) xs"
  using mtf_shift_append [of n xs] by (cases "mtf_shift n xs") (auto simp: move_to_front_def)

lemma length_move_to_front [simp]: "n < length xs \<Longrightarrow> length (move_to_front n xs) = length xs"
  by (simp add: move_to_front)

lemma set_move_to_front: "n < length xs \<Longrightarrow> set (move_to_front n xs) = set xs"
  using id_take_nth_drop [of n xs] by (simp add: move_to_front) (metis insert_commute set_append set_simps(2) Un_insert_right Un_commute)

primrec selector_bits :: "nat list \<Rightarrow> nat list \<Rightarrow> bool list" where
  "selector_bits mtf [] = []"
| "selector_bits mtf (x # xs) = replicate (place x mtf) True @ False # selector_bits (move_to_front (place x mtf) mtf) xs"

lemma reads_bit: "reads s (get_bits 1) [b] (of_bool b) s"
  using reads_bits [of "[b]" 1 s] by (simp add: bits_val_def)

lemma selector_pos_reads:
  "n + k < groupCount \<Longrightarrow> reads s (selector_pos groupCount n) (replicate k True @ [False]) (n + k) s"
proof (induction k arbitrary: n)
  case 0
  have "reads s (selector_pos groupCount n) [False] n s"
    by (subst selector_pos.simps, rule reads_last [OF reads_bit]) (simp add: reads_ret)
  then show ?case by simp
next
  case (Suc k)
  have n: "\<not> groupCount \<le> n" "(of_bool True :: u32) \<noteq> 0" using Suc.prems by auto
  have "reads s (selector_pos groupCount n) ([True] @ replicate k True @ [False]) (n + 1 + k) s"
    by (subst selector_pos.simps, rule reads_bind [OF reads_bit], simp only: n if_False)
      (rule Suc.IH, use Suc.prems in simp)
  then show ?case by simp
qed

lemma set_selector_reads:
  "i < length (selectors s) \<Longrightarrow> reads s (set_selector i v) [] () (s\<lparr>selectors := (selectors s)[i := v]\<rparr>)"
  unfolding set_selector_def
  by (rule reads_then [OF reads_get], simp, rule reads_then [OF reads_check], simp,
      use reads_upd [of "\<lambda>bd. bd\<lparr>selectors := (selectors bd)[i := v]\<rparr>" s] in simp)

lemma read_selectors_reads:
  assumes "set xs \<subseteq> set mtf" and "length mtf = groupCount" and "i + length xs = n" and "n \<le> length (selectors s)"
    and "groupCount \<le> 256"
  shows "reads s (read_selectors groupCount n i mtf) (selector_bits mtf xs) ()
    (s\<lparr>selectors := take i (selectors s) @ xs @ drop n (selectors s)\<rparr>)"
  using assms
proof (induction xs arbitrary: i mtf s)
  case Nil
  then show ?case by (subst read_selectors.simps) (simp add: reads_ret)
next
  case (Cons x xs)
  have place: "place x mtf < length mtf" "mtf ! place x mtf = x"
    using Cons.prems(1) place_nth [of x mtf] by auto
  let ?s = "s\<lparr>selectors := (selectors s)[i := x]\<rparr>"
  have "reads ?s (read_selectors groupCount n (i + 1) (move_to_front (place x mtf) mtf)) (selector_bits (move_to_front (place x mtf) mtf) xs) ()
      (?s\<lparr>selectors := take (i + 1) (selectors ?s) @ xs @ drop n (selectors ?s)\<rparr>)"
    using Cons.prems place by (intro Cons.IH) (auto simp: set_move_to_front)
  moreover have "?s\<lparr>selectors := take (i + 1) (selectors ?s) @ xs @ drop n (selectors ?s)\<rparr> =
      s\<lparr>selectors := take i (selectors s) @ (x # xs) @ drop n (selectors s)\<rparr>"
    using Cons.prems by (simp add: take_Suc_conv_app_nth)
  ultimately have rest: "reads ?s (read_selectors groupCount n (i + 1) (move_to_front (place x mtf) mtf))
      (selector_bits (move_to_front (place x mtf) mtf) xs) () (s\<lparr>selectors := take i (selectors s) @ (x # xs) @ drop n (selectors s)\<rparr>)"
    by simp
  have pos: "reads s (selector_pos groupCount 0) (replicate (place x mtf) True @ [False]) (place x mtf) s"
    using selector_pos_reads [of 0 "place x mtf" groupCount s] place Cons.prems by simp
  have i: "i < n" using Cons.prems(3) by simp
  have check: "reads s (bz_check (place x mtf < 256) Overrun) [] () s"
      "reads s (bz_check (place x mtf < length mtf) (Unset_Selector (place x mtf) groupCount)) [] () s"
    by (rule reads_check, use place Cons.prems in simp)+
  have set: "reads s (set_selector i (mtf ! place x mtf)) [] () ?s"
    using set_selector_reads [of i s x] Cons.prems place by simp
  have "reads s (read_selectors groupCount n i mtf)
      ((replicate (place x mtf) True @ [False]) @ selector_bits (move_to_front (place x mtf) mtf) xs) ()
      (s\<lparr>selectors := take i (selectors s) @ (x # xs) @ drop n (selectors s)\<rparr>)"
    by (subst read_selectors.simps, simp only: i if_True,
        rule reads_bind [OF pos], rule reads_then [OF check(1)], rule reads_then [OF check(2)],
        rule reads_then [OF set], rule rest)
  then show ?case by simp
qed

section \<open>The lengths of the codes\<close>

definition delta_bits :: "nat \<Rightarrow> nat \<Rightarrow> bool list" where
  "delta_bits a b = concat (replicate (b - a) [True, False]) @ concat (replicate (a - b) [True, True]) @ [False]"

primrec lengths_bits :: "nat \<Rightarrow> nat list \<Rightarrow> bool list" where
  "lengths_bits a [] = []"
| "lengths_bits a (b # bs) = delta_bits a b @ lengths_bits b bs"

lemma code_length_stop:
  assumes "1 \<le> a" and "a \<le> 20"
  shows "reads s (code_length (int a - 1)) [False] (int a - 1) s"
  unfolding reads_def
proof (intro allI impI)
  fix bd rest
  assume bd: "core bd = s" "bits_wf bd" "bit_stream bd = [False] @ rest" "20 \<le> length rest"
  then obtain c cs where rest: "rest = c # cs" by (cases rest) auto
  obtain bd1 where get: "get_bits (length [False, c]) bd = (Inr (bits_val [False, c]), bd1)"
    and giveback: "\<And>j. j = 0 \<or> j \<le> length [False, c] \<and> length [False, c] \<le> 20 \<Longrightarrow>
      bit_stream (unget_bits j bd1) = drop (length [False, c] - j) [False, c] @ cs \<and> bits_wf (unget_bits j bd1)"
    and only: "bits_only bd bd1"
    by (rule get_bits_stream [of bd "[False, c]" cs]) (use bd rest in auto)
  have "bits_val [False, c] < 2" by (cases c) (simp_all add: bits_val_def)
  moreover have "get_bits 2 bd = (Inr (bits_val [False, c]), bd1)"
    using get by (simp add: numeral_2_eq_2)
  ultimately have "code_length (int a - 1) bd = (Inr (int a - 1), unget_bits 1 bd1)"
    using assms by (subst code_length.simps) simp
  then show "\<exists>bd'. code_length (int a - 1) bd = (Inr (int a - 1), bd') \<and> core bd' = s \<and> bits_wf bd' \<and> bit_stream bd' = rest"
    using giveback [of 1] only bd(1) rest by (auto simp: bits_only_def unget_bits_def core_def)
qed

lemma code_length_step:
  assumes "1 \<le> a" and "a \<le> 20" and "reads s (code_length (int a - 1 + (if up then 1 else - 1))) cs v s"
  shows "reads s (code_length (int a - 1)) ([True, \<not> up] @ cs) v s"
  unfolding reads_def
proof (intro allI impI)
  fix bd rest
  assume bd: "core bd = s" "bits_wf bd" "bit_stream bd = ([True, \<not> up] @ cs) @ rest" "20 \<le> length rest"
  obtain bd1 where get: "get_bits 2 bd = (Inr (bits_val [True, \<not> up]), bd1)" and bd1: "core bd1 = s" "bits_wf bd1" "bit_stream bd1 = cs @ rest"
    using readsD [OF reads_bits [of "[True, \<not> up]" 2 s] bd(1,2), of "cs @ rest"] bd(3,4) by auto
  have val: "\<not> bits_val [True, \<not> up] < 2" "uint ((bits_val [True, \<not> up] + 1) AND 2) - 1 = (if up then 1 else - 1)"
    by (cases up; simp add: bits_val_def)+
  have "code_length (int a - 1) bd = code_length (int a - 1 + (if up then 1 else - 1)) bd1"
    using assms(1,2) get val by (subst code_length.simps) simp
  then show "\<exists>bd'. code_length (int a - 1) bd = (Inr v, bd') \<and> core bd' = s \<and> bits_wf bd' \<and> bit_stream bd' = rest"
    using readsD [OF assms(3) bd1 bd(4)] by metis
qed

lemma code_length_reads:
  assumes "1 \<le> a" and "a \<le> 20" and "1 \<le> b" and "b \<le> 20"
  shows "reads s (code_length (int a - 1)) (delta_bits a b) (int b - 1) s"
proof (cases "a \<le> b")
  case True
  then show ?thesis using assms
  proof (induction a rule: inc_induct)
    case base
    then show ?case using code_length_stop [of b s] by (simp add: delta_bits_def)
  next
    case (step a)
    then have "reads s (code_length (int a - 1 + (if True then 1 else - 1))) (delta_bits (Suc a) b) (int b - 1) s"
      by simp
    moreover have "[True, \<not> True] @ delta_bits (Suc a) b = delta_bits a b"
      using step by (simp add: delta_bits_def Suc_diff_Suc [symmetric])
    ultimately show ?case using code_length_step [of a s True] step by metis
  qed
next
  case False
  then have "b \<le> a" by simp
  then show ?thesis using assms
  proof (induction a rule: dec_induct)
    case base
    then show ?case using code_length_stop [of b s] by (simp add: delta_bits_def)
  next
    case (step a)
    then have "reads s (code_length (int (Suc a) - 1 + (if False then 1 else - 1))) (delta_bits a b) (int b - 1) s"
      by simp
    moreover have "[True, \<not> False] @ delta_bits a b = delta_bits (Suc a) b"
      using step by (simp add: delta_bits_def Suc_diff_le)
    ultimately show ?case using code_length_step [of "Suc a" s False] step by metis
  qed
qed

lemma read_lengths_reads:
  assumes "1 \<le> a" and "a \<le> 20" and "\<forall>l\<in>set len. 1 \<le> l \<and> l \<le> 20"
  shows "reads s (read_lengths (length len) (int a - 1)) (lengths_bits a len) len s"
  using assms
proof (induction len arbitrary: a)
  case (Cons b bs)
  have "reads s (bz_bind (read_lengths (length bs) (int b - 1)) (\<lambda>lens. bz_ret (nat (int b - 1 + 1) # lens))) (lengths_bits b bs) (b # bs) s"
    using Cons by (intro reads_last [OF Cons.IH]) (auto simp: reads_ret)
  then show ?case
    using Cons.prems by (auto intro!: reads_bind [OF code_length_reads])
qed (simp add: reads_ret)

definition group_bits :: "nat list \<Rightarrow> bool list" where
  "group_bits len = nat_bits 5 (hd len) @ lengths_bits (hd len) len"

lemma read_group_reads:
  assumes "lengths_ok len" and "j < length (groups s)" and "group_wf (groups s ! j)"
  shows "reads s (read_group (length len) j) (group_bits len) ()
    (s\<lparr>groups := (groups s)[j := make_group len (groups s ! j)]\<rparr>)"
proof -
  have ne: "len \<noteq> []" and range: "\<forall>l\<in>set len. 1 \<le> l \<and> l \<le> 20" and size: "length len \<le> MAX_SYMBOLS"
    using assms(1) by (auto simp: lengths_ok_def lengths_range_def MAX_HUFCODE_BITS_def)
  then have a: "1 \<le> hd len" "hd len \<le> 20" by simp_all
  then have u: "uint (of_nat (hd len) :: u32) - 1 = int (hd len) - 1"
    by (simp add: uint_nat unat_u32_of_nat)
  have lens: "reads s (read_lengths (length len) (uint (of_nat (hd len) :: u32) - 1)) (lengths_bits (hd len) len) len s"
    unfolding u using a range by (rule read_lengths_reads)
  have get: "reads s (bz_get (group_fits len j)) [] (group_fits len j s) s"
    by (rule reads_get) (simp add: group_fits_def)
  have fits: "group_fits len j s"
    using assms(2,3) range size by (auto simp: group_fits_def group_wf_def MAX_HUFCODE_BITS_def)
  have upd: "reads s (bz_upd (\<lambda>bd. bd\<lparr>groups := (groups bd)[j := make_group len (groups bd ! j)]\<rparr>)) [] ()
      (s\<lparr>groups := (groups s)[j := make_group len (groups s ! j)]\<rparr>)"
    using reads_upd [of "\<lambda>bd. bd\<lparr>groups := (groups bd)[j := make_group len (groups bd ! j)]\<rparr>" s] by simp
  show ?thesis
    unfolding read_group_def group_bits_def
    by (rule reads_bind [OF reads_nat], use a in simp, simp, rule reads_then [OF reads_check], fact size,
        rule reads_last [OF lens], rule reads_then [OF get], rule reads_then [OF reads_check], fact fits, rule upd)
qed

lemma read_groups_reads:
  assumes "\<forall>len\<in>set lens. lengths_ok len \<and> length len = symCount" and "j + length lens = n" and "n \<le> length (groups s)"
    and "\<forall>i. j \<le> i \<and> i < n \<longrightarrow> group_wf (groups s ! i)"
  shows "reads s (read_groups symCount n j) (concat (map group_bits lens)) ()
    (s\<lparr>groups := take j (groups s) @ map2 make_group lens (take (length lens) (drop j (groups s))) @ drop n (groups s)\<rparr>)"
  using assms
proof (induction lens arbitrary: j s)
  case Nil
  then show ?case by (subst read_groups.simps) (simp add: reads_ret)
next
  case (Cons len lens)
  let ?s = "s\<lparr>groups := (groups s)[j := make_group len (groups s ! j)]\<rparr>"
  have j: "j < n" "j < length (groups s)" using Cons.prems by auto
  have drop: "take (length (len # lens)) (drop j (groups s)) = groups s ! j # take (length lens) (drop (j + 1) (groups s))"
    using j by (simp add: Cons_nth_drop_Suc [symmetric])
  have group: "reads s (read_group symCount j) (group_bits len) () ?s"
    using read_group_reads [of len j s] Cons.prems j by simp
  have "reads ?s (read_groups symCount n (j + 1)) (concat (map group_bits lens)) ()
      (?s\<lparr>groups := take (j + 1) (groups ?s) @ map2 make_group lens (take (length lens) (drop (j + 1) (groups ?s))) @ drop n (groups ?s)\<rparr>)"
    using Cons.prems by (intro Cons.IH) auto
  moreover have "?s\<lparr>groups := take (j + 1) (groups ?s) @ map2 make_group lens (take (length lens) (drop (j + 1) (groups ?s))) @ drop n (groups ?s)\<rparr> =
      s\<lparr>groups := take j (groups s) @ map2 make_group (len # lens) (take (length (len # lens)) (drop j (groups s))) @ drop n (groups s)\<rparr>"
    unfolding drop using j by (simp add: take_Suc_conv_app_nth)
  ultimately have rest: "reads ?s (read_groups symCount n (j + 1)) (concat (map group_bits lens)) ()
      (s\<lparr>groups := take j (groups s) @ map2 make_group (len # lens) (take (length (len # lens)) (drop j (groups s))) @ drop n (groups s)\<rparr>)"
    by simp
  have "reads s (read_groups symCount n j) (group_bits len @ concat (map group_bits lens)) ()
      (s\<lparr>groups := take j (groups s) @ map2 make_group (len # lens) (take (length (len # lens)) (drop j (groups s))) @ drop n (groups s)\<rparr>)"
    by (subst read_groups.simps, simp only: j(1) if_True, rule reads_bind [OF group], rule rest)
  then show ?case by simp
qed

end
