(* ===== verification/Bz_Symbols.thy ===== *)
theory Bz_Symbols
  imports Bz_Format
begin

text \<open>
  The symbols of a block: the encoder writes the place of every byte in a move-to-front list, and the number of
  zeros in a row in the digits 1 and 2 of a bijective numeral; the loops of \<open>get_next_block\<close> read it
  back into \<open>dbuf\<close>, one group of fifty symbols after the other.
\<close>

section \<open>The encoder\<close>

function run_digits :: "nat \<Rightarrow> nat list" where
  "run_digits n = (if n = 0 then [] else if odd n then 0 # run_digits (n div 2) else 1 # run_digits (n div 2 - 1))"
  by pat_completeness auto
termination
  by (relation "measure id") auto

declare run_digits.simps [simp del]

text \<open>\<open>n\<close> zeros are pending; those at the end stay pending.\<close>

fun mtf_symbols :: "nat list \<Rightarrow> nat \<Rightarrow> nat list \<Rightarrow> nat list" where
  "mtf_symbols mtf n [] = run_digits n"
| "mtf_symbols mtf n (x # xs) =
     (if place x mtf = 0 then mtf_symbols mtf (n + 1) xs
      else run_digits n @ (place x mtf + 1) # mtf_symbols (move_to_front (place x mtf) mtf) 0 xs)"

section \<open>Feeding symbols\<close>

inductive feeds :: "byte list \<Rightarrow> bunzip_data \<Rightarrow> block_vars \<Rightarrow> nat list \<Rightarrow> bunzip_data \<Rightarrow> block_vars \<Rightarrow> bool" where
  feeds_Nil: "feeds sy s v [] s v"
| feeds_Cons: "next_symbol sy k v s = (Inr (False, v1), s1) \<Longrightarrow> feeds sy s1 v1 ks s2 v2 \<Longrightarrow> feeds sy s v (k # ks) s2 v2"

inductive_cases feeds_ConsE: "feeds sy s v (k # ks) s2 v2"
inductive_cases feeds_NilE: "feeds sy s v [] s2 v2"

lemma feeds_append: "feeds sy s v ks s1 v1 \<Longrightarrow> feeds sy s1 v1 ls s2 v2 \<Longrightarrow> feeds sy s v (ks @ ls) s2 v2"
  by (induction rule: feeds.induct) (auto intro: feeds_Cons)

lemma feeds_appendE:
  assumes "feeds sy s v (ks @ ls) s2 v2"
  obtains s1 v1 where "feeds sy s v ks s1 v1" and "feeds sy s1 v1 ls s2 v2"
  using assms
proof (induction ks arbitrary: s v thesis)
  case Nil
  show ?case by (rule Nil.prems(1) [OF feeds_Nil]) (use Nil.prems(2) in simp)
next
  case (Cons k ks)
  from Cons.prems(2) obtain v1 s1 where step: "next_symbol sy k v s = (Inr (False, v1), s1)" and rest: "feeds sy s1 v1 (ks @ ls) s2 v2"
    by (auto elim: feeds_ConsE)
  show ?case
    using Cons.IH [OF _ rest] Cons.prems(1) feeds_Cons [OF step] by metis
qed

subsection \<open>Only dbuf changes\<close>

text \<open>The operations on symbols depend on \<open>dbuf\<close> and \<open>dbufSize\<close> only, and change \<open>dbuf\<close> only.\<close>

definition dbuf_only :: "'a bz \<Rightarrow> bool" where
  "dbuf_only m \<longleftrightarrow> (\<forall>bd bd'. dbuf bd = dbuf bd' \<longrightarrow> dbufSize bd = dbufSize bd' \<longrightarrow>
     fst (m bd) = fst (m bd') \<and> snd (m bd) = bd\<lparr>dbuf := dbuf (snd (m bd'))\<rparr>)"

lemma dbuf_onlyD:
  assumes "dbuf_only m" and "m bd' = (r, bd1)"
  shows "dbuf bd = dbuf bd' \<Longrightarrow> dbufSize bd = dbufSize bd' \<Longrightarrow> m bd = (r, bd\<lparr>dbuf := dbuf bd1\<rparr>)"
    and "bd1 = bd'\<lparr>dbuf := dbuf bd1\<rparr>"
proof -
  show "dbuf bd = dbuf bd' \<Longrightarrow> dbufSize bd = dbufSize bd' \<Longrightarrow> m bd = (r, bd\<lparr>dbuf := dbuf bd1\<rparr>)"
    using assms(1) [unfolded dbuf_only_def, rule_format, of bd bd'] assms(2) by (simp add: prod_eq_iff)
  show "bd1 = bd'\<lparr>dbuf := dbuf bd1\<rparr>"
    using assms(1) [unfolded dbuf_only_def, rule_format, of bd' bd'] assms(2) by simp
qed

named_theorems dbuf_only_intro

lemma dbuf_only_plain [dbuf_only_intro]:
  "dbuf_only (bz_ret a)" "dbuf_only (bz_check b e)" "dbuf_only (bz_get dbufSize)" "dbuf_only (bz_get (\<lambda>bd. length (dbuf bd)))"
  by (auto simp: dbuf_only_def bz_ret_def bz_check_def bz_stop_def bz_get_def)

lemma dbuf_only_bind [dbuf_only_intro]:
  assumes "dbuf_only m" and "\<And>a. dbuf_only (f a)"
  shows "dbuf_only (bz_bind m f)"
  unfolding dbuf_only_def
proof (intro allI impI)
  fix bd bd' :: bunzip_data
  assume eq: "dbuf bd = dbuf bd'" "dbufSize bd = dbufSize bd'"
  obtain r bd1 where m': "m bd' = (r, bd1)" by (cases "m bd'")
  note m = dbuf_onlyD(1) [OF assms(1) m' eq]
  have size: "dbufSize bd1 = dbufSize bd'"
    using arg_cong [OF dbuf_onlyD(2) [OF assms(1) m'], of dbufSize] by simp
  show "fst (bz_bind m f bd) = fst (bz_bind m f bd') \<and> snd (bz_bind m f bd) = bd\<lparr>dbuf := dbuf (snd (bz_bind m f bd'))\<rparr>"
  proof (cases r)
    case (Inr a)
    obtain q bd2 where f': "f a bd1 = (q, bd2)" by (cases "f a bd1")
    have "f a (bd\<lparr>dbuf := dbuf bd1\<rparr>) = (q, bd\<lparr>dbuf := dbuf bd1\<rparr>\<lparr>dbuf := dbuf bd2\<rparr>)"
      by (rule dbuf_onlyD(1) [OF assms(2) f']) (use eq size in simp_all)
    then show ?thesis using Inr m m' f' by (simp add: bz_bind_def)
  qed (simp add: bz_bind_def m m')
qed

lemma dbuf_only_if [dbuf_only_intro]: "(b \<Longrightarrow> dbuf_only m) \<Longrightarrow> (\<not> b \<Longrightarrow> dbuf_only m') \<Longrightarrow> dbuf_only (if b then m else m')"
  by simp

lemma dbuf_only_put [dbuf_only_intro]: "dbuf_only (put_dbuf uc)"
  by (auto simp: dbuf_only_def put_dbuf_def)

lemma dbuf_only_run [dbuf_only_intro]: "dbuf_only (put_run n uc)"
  by (induction n) (auto intro!: dbuf_only_intro)

lemma dbuf_only_next: "dbuf_only (next_symbol sy k v)"
  unfolding next_symbol_def run_symbol_def end_run_def literal_symbol_def Let_def by (intro dbuf_only_intro)

lemma reads_next_symbol:
  assumes "next_symbol sy k v s = (Inr r, s1)" and "core s = s"
  shows "reads s (next_symbol sy k v) [] r s1" and "s1 = s\<lparr>dbuf := dbuf s1\<rparr>" and "core s1 = s1"
proof -
  note only = dbuf_onlyD [OF dbuf_only_next assms(1)]
  show s1: "s1 = s\<lparr>dbuf := dbuf s1\<rparr>" by (rule only(2))
  have "core (s\<lparr>dbuf := dbuf s1\<rparr>) = s\<lparr>dbuf := dbuf s1\<rparr>" using assms(2) by simp
  then show "core s1 = s1" using s1 [symmetric] by simp
  show "reads s (next_symbol sy k v) [] r s1"
    unfolding reads_def
  proof (intro allI impI)
    fix bd rest
    assume bd: "core bd = s" "bits_wf bd" "bit_stream bd = [] @ rest"
    have "dbuf bd = dbuf s" "dbufSize bd = dbufSize s" using bd(1) by auto
    then have "next_symbol sy k v bd = (Inr r, bd\<lparr>dbuf := dbuf s1\<rparr>)" by (rule only(1))
    then show "\<exists>bd'. next_symbol sy k v bd = (Inr r, bd') \<and> core bd' = s1 \<and> bits_wf bd' \<and> bit_stream bd' = rest"
      using bd s1 [symmetric] by auto
  qed
qed

subsection \<open>Runs\<close>

text \<open>So many digits of a run were read, and stand for \<open>c\<close>.\<close>

definition in_run :: "block_vars \<Rightarrow> nat \<Rightarrow> nat \<Rightarrow> bool" where
  "in_run v i c \<longleftrightarrow> (if i = 0 then runPos v = 0 \<and> c = 0 else runPos v = 2 ^ i \<and> runCnt v = int c)"

lemma run_symbol_step:
  assumes "in_run v i c" and "c + 2 ^ i * 2 ^ k < dbufSize s" and "dbufSize s < 2 ^ 24"
  obtains v' where "run_symbol k v s = (Inr v', s)" and "in_run v' (Suc i) (c + 2 ^ i * 2 ^ k)"
    and "mtfSymbol v' = mtfSymbol v" and "byteCount v' = byteCount v"
proof -
  let ?v = "if runPos v = 0 then v\<lparr>runPos := 1, runCnt := 0\<rparr> else v"
  have v: "runPos ?v = 2 ^ i" "runCnt ?v = int c"
    using assms(1) by (auto simp: in_run_def split: if_splits)
  have less: "(2 :: nat) ^ i < dbufSize s"
  proof -
    have "(2 :: nat) ^ i \<le> 2 ^ i * 2 ^ k" by simp
    then show ?thesis using assms(2) by linarith
  qed
  have "int (c + 2 ^ i * 2 ^ k) \<le> INT_MAX"
  proof -
    have "x < 2 ^ 24 \<Longrightarrow> int x \<le> INT_MAX" for x :: nat by (simp add: INT_MAX_def)
    then show ?thesis using less_trans [OF assms(2,3)] .
  qed
  then have "run_symbol k v s = (Inr (?v\<lparr>runCnt := int (c + 2 ^ i * 2 ^ k), runPos := 2 ^ Suc i\<rparr>), s)"
    using v less by (simp add: run_symbol_def Let_def bz_bind_def bz_check_def bz_ret_def bz_get_def)
  then show thesis
    by (rule that) (auto simp: in_run_def)
qed

lemma feeds_run:
  assumes "in_run v i c" and "c + n * 2 ^ i < dbufSize s" and "dbufSize s < 2 ^ 24"
  shows "\<exists>v' j. feeds sy s v (run_digits n) s v' \<and> in_run v' j (c + n * 2 ^ i) \<and>
    mtfSymbol v' = mtfSymbol v \<and> byteCount v' = byteCount v"
  using assms
proof (induction n arbitrary: v i c rule: run_digits.induct)
  case (1 n)
  have step: "\<exists>v' j. feeds sy s v (k # run_digits m) s v' \<and> in_run v' j (c + n * 2 ^ i) \<and>
      mtfSymbol v' = mtfSymbol v \<and> byteCount v' = byteCount v"
    if k: "k \<le> 1" and n: "n * 2 ^ i = 2 ^ i * 2 ^ k + m * 2 ^ Suc i"
      and IH: "\<And>v i c. in_run v i c \<Longrightarrow> c + m * 2 ^ i < dbufSize s \<Longrightarrow> dbufSize s < 2 ^ 24 \<Longrightarrow>
        \<exists>v' j. feeds sy s v (run_digits m) s v' \<and> in_run v' j (c + m * 2 ^ i) \<and> mtfSymbol v' = mtfSymbol v \<and> byteCount v' = byteCount v"
    for k m
  proof -
    have lt: "c + 2 ^ i * 2 ^ k < dbufSize s"
      using "1.prems"(2) n by linarith
    obtain v1 where v1: "run_symbol k v s = (Inr v1, s)" "in_run v1 (Suc i) (c + 2 ^ i * 2 ^ k)"
        "mtfSymbol v1 = mtfSymbol v" "byteCount v1 = byteCount v"
      using run_symbol_step [OF "1.prems"(1) lt "1.prems"(3)] by metis
    have symbol: "next_symbol sy k v s = (Inr (False, v1), s)"
      using k v1(1) by (simp add: next_symbol_def bz_bind_def bz_ret_def)
    obtain v' j where "feeds sy s v1 (run_digits m) s v'" "in_run v' j (c + 2 ^ i * 2 ^ k + m * 2 ^ Suc i)"
        "mtfSymbol v' = mtfSymbol v1" "byteCount v' = byteCount v1"
      using IH [OF v1(2) _ "1.prems"(3)] "1.prems"(2) unfolding n add.assoc by metis
    then show ?thesis
      using feeds_Cons [OF symbol] v1(3,4) unfolding n add.assoc by metis
  qed
  consider "n = 0" | "n \<noteq> 0" "odd n" | "n \<noteq> 0" "even n" by blast
  then show ?case
  proof cases
    case 1
    then show ?thesis using "1.prems"(1) feeds_Nil by (auto simp: run_digits.simps)
  next
    case 2
    then obtain m where m: "n = 2 * m + 1" by (auto elim: oddE)
    then have "run_digits n = 0 # run_digits m" by (subst run_digits.simps) simp
    moreover have "\<exists>v' j. feeds sy s v (0 # run_digits m) s v' \<and> in_run v' j (c + n * 2 ^ i) \<and>
        mtfSymbol v' = mtfSymbol v \<and> byteCount v' = byteCount v"
    proof (rule step)
      show "n * 2 ^ i = 2 ^ i * 2 ^ 0 + m * 2 ^ Suc i" by (simp add: m algebra_simps)
      have div: "n div 2 = m" using m by simp
      show "\<exists>v' j. feeds sy s v (run_digits m) s v' \<and> in_run v' j (c + m * 2 ^ i) \<and> mtfSymbol v' = mtfSymbol v \<and> byteCount v' = byteCount v"
        if "in_run v i c" "c + m * 2 ^ i < dbufSize s" "dbufSize s < 2 ^ 24" for v i c
        using "1.IH"(1) [OF 2(1), unfolded div] 2(2) that by blast
    qed simp
    ultimately show ?thesis by simp
  next
    case 3
    then obtain q where "n = 2 * q" by (auto elim: evenE)
    with 3(1) obtain m where m: "n = 2 * m + 2" by (cases q) auto
    then have "run_digits n = 1 # run_digits m" by (subst run_digits.simps) simp
    moreover have "\<exists>v' j. feeds sy s v (1 # run_digits m) s v' \<and> in_run v' j (c + n * 2 ^ i) \<and>
        mtfSymbol v' = mtfSymbol v \<and> byteCount v' = byteCount v"
    proof (rule step)
      show "n * 2 ^ i = 2 ^ i * 2 ^ 1 + m * 2 ^ Suc i" by (simp add: m algebra_simps)
      have div: "n div 2 - 1 = m" using m by simp
      show "\<exists>v' j. feeds sy s v (run_digits m) s v' \<and> in_run v' j (c + m * 2 ^ i) \<and> mtfSymbol v' = mtfSymbol v \<and> byteCount v' = byteCount v"
        if "in_run v i c" "c + m * 2 ^ i < dbufSize s" "dbufSize s < 2 ^ 24" for v i c
        using "1.IH"(2) [OF 3(1), unfolded div] 3(2) that by blast
    qed simp
    ultimately show ?thesis by simp
  qed
qed

subsection \<open>Bytes\<close>

lemma put_run_appends:
  "length (dbuf s) + n \<le> dbufSize s \<Longrightarrow> put_run n uc s = (Inr (), s\<lparr>dbuf := dbuf s @ replicate n (ucast uc)\<rparr>)"
proof (induction n arbitrary: s)
  case (Suc n)
  have "put_dbuf uc s = (Inr (), s\<lparr>dbuf := dbuf s @ [ucast uc]\<rparr>)"
    using Suc.prems by (simp add: put_dbuf_def)
  then show ?case
    using Suc.IH [of "s\<lparr>dbuf := dbuf s @ [ucast uc]\<rparr>"] Suc.prems by (simp add: bz_bind_def)
qed (simp add: bz_ret_def)

lemma length_byte_counts [simp]: "length (byte_counts d) = 256"
  by (simp add: byte_counts_def)

lemma byte_counts_run: "byte_counts (d @ replicate n b) = (byte_counts d)[unat b := byte_counts d ! unat b + n]"
proof (rule nth_equalityI)
  fix i
  assume "i < length (byte_counts (d @ replicate n b))"
  moreover have "unat b < 256" using unsigned_less [of b, where ?'a = nat] by simp
  moreover have "count_list (replicate n (unat b)) i = (if i = unat b then n else 0)" by (induction n) auto
  ultimately show "byte_counts (d @ replicate n b) ! i = (byte_counts d)[unat b := byte_counts d ! unat b + n] ! i"
    by (auto simp: byte_counts_def nth_list_update)
qed simp

text \<open>The bytes so far, in \<open>dbuf\<close> and in \<open>byteCount\<close>.\<close>

definition holds_bytes :: "bunzip_data \<Rightarrow> block_vars \<Rightarrow> byte list \<Rightarrow> bool" where
  "holds_bytes s v d \<longleftrightarrow> dbuf s = map ucast d \<and> byteCount v = byte_counts d"

lemma end_run_bytes:
  assumes "in_run v j n" and "holds_bytes s v d" and "length d + n < dbufSize s" and "dbufSize s < 2 ^ 24"
    and "mtfSymbol v ! 0 < length sy"
  obtains s' v' where "end_run sy v s = (Inr v', s')" and "holds_bytes s' v' (d @ replicate n (sy ! (mtfSymbol v ! 0)))"
    and "runPos v' = 0" and "mtfSymbol v' = mtfSymbol v" and "dbufSize s' = dbufSize s"
proof (cases "j = 0")
  case True
  then have "runPos v = 0" "n = 0" using assms(1) by (auto simp: in_run_def)
  then show thesis
    using assms(2) by (intro that [of v s]) (simp_all add: end_run_def bz_ret_def)
next
  case False
  let ?b = "sy ! (mtfSymbol v ! 0)"
  have run: "runPos v \<noteq> 0" "runCnt v = int n" using False assms(1) by (auto simp: in_run_def)
  have len: "length (dbuf s) = length d" using assms(2) by (simp add: holds_bytes_def)
  have max: "int (length d) + int n \<le> INT_MAX"
  proof -
    have "x < 2 ^ 24 \<Longrightarrow> int x \<le> INT_MAX" for x :: nat by (simp add: INT_MAX_def)
    from this [OF less_trans [OF assms(3,4)]] show ?thesis by simp
  qed
  have "put_run n ?b s = (Inr (), s\<lparr>dbuf := dbuf s @ replicate n (ucast ?b)\<rparr>)"
    using put_run_appends assms(3) len by simp
  then have "end_run sy v s = (Inr (v\<lparr>byteCount := (byteCount v)[unat ?b := byteCount v ! unat ?b + n], runPos := 0\<rparr>),
      s\<lparr>dbuf := dbuf s @ replicate n (ucast ?b)\<rparr>)"
    using run len max assms(3,5)
    by (simp add: end_run_def bz_bind_def bz_get_def bz_check_def bz_ret_def Let_def)
  then show thesis
    by (rule that) (use assms(2) in \<open>auto simp: holds_bytes_def byte_counts_run\<close>)
qed

lemma literal_bytes:
  assumes "holds_bytes s v d" and "length d < dbufSize s" and "0 < i" and "i < length (mtfSymbol v)" and "mtfSymbol v ! i < length sy"
  obtains s' v' where "literal_symbol sy (i + 1) v s = (Inr v', s')" and "holds_bytes s' v' (d @ [sy ! (mtfSymbol v ! i)])"
    and "runPos v' = runPos v" and "mtfSymbol v' = move_to_front i (mtfSymbol v)" and "dbufSize s' = dbufSize s"
proof -
  let ?b = "sy ! (mtfSymbol v ! i)"
  have "put_dbuf ?b s = (Inr (), s\<lparr>dbuf := dbuf s @ [ucast ?b]\<rparr>)"
    using assms(1,2) by (simp add: put_dbuf_def holds_bytes_def)
  then have "literal_symbol sy (i + 1) v s = (Inr (v\<lparr>mtfSymbol := move_to_front i (mtfSymbol v),
      byteCount := (byteCount v)[unat ?b := byteCount v ! unat ?b + 1]\<rparr>), s\<lparr>dbuf := dbuf s @ [ucast ?b]\<rparr>)"
    using assms by (simp add: literal_symbol_def bz_bind_def bz_get_def bz_check_def bz_ret_def Let_def holds_bytes_def)
  then show thesis
    by (rule that) (use assms(1) byte_counts_run [of d 1 ?b] in \<open>auto simp: holds_bytes_def\<close>)
qed

text \<open>The first \<open>k\<close> places of the list hold the numbers below \<open>k\<close>.\<close>

definition mtf_ok :: "nat \<Rightarrow> nat list \<Rightarrow> bool" where
  "mtf_ok k mtf \<longleftrightarrow> k \<le> length mtf \<and> set (take k mtf) = {0..<k}"

lemma mtf_ok_place:
  assumes "mtf_ok k mtf" and "x < k"
  shows "place x mtf < k" and "mtf ! place x mtf = x" and "mtf ! 0 < k" and "mtf_ok k (move_to_front (place x mtf) mtf)"
proof -
  have x: "x \<in> set (take k mtf)" and len: "length (take k mtf) = k"
    using assms by (auto simp: mtf_ok_def)
  have "takeWhile (\<lambda>y. y \<noteq> x) (take k mtf @ drop k mtf) = takeWhile (\<lambda>y. y \<noteq> x) (take k mtf)"
    by (rule takeWhile_append1 [OF x]) simp
  then have "place x mtf = place x (take k mtf)"
    by (simp add: place_def)
  then show p: "place x mtf < k" and "mtf ! place x mtf = x"
    using place_nth [OF x] len nth_take [of "place x (take k mtf)" k mtf] by auto
  have "mtf ! 0 \<in> set (take k mtf)"
    using assms by (cases mtf; cases k) (auto simp: mtf_ok_def)
  then show "mtf ! 0 < k" using assms(1) by (simp add: mtf_ok_def)
  have plen: "place x mtf < length mtf" using p assms(1) by (simp add: mtf_ok_def)
  have "take k (move_to_front (place x mtf) mtf) = move_to_front (place x mtf) (take k mtf)"
    using p plen len by (cases k) (auto simp: move_to_front drop_take min_def le_less_Suc_eq)
  then show "mtf_ok k (move_to_front (place x mtf) mtf)"
    using assms(1) p len plen by (simp add: mtf_ok_def set_move_to_front)
qed

lemma mtf_symbols_feed:
  assumes "mtf_ok (length sy) (mtfSymbol v)" and "runPos v = 0" and "holds_bytes s v d"
    and "set xs \<subseteq> {0..<length sy}" and "sy \<noteq> []" and "length d + n + length xs < dbufSize s" and "dbufSize s < 2 ^ 24"
  shows "\<exists>s1 v1 s2 v2. feeds sy s v (mtf_symbols (mtfSymbol v) n xs) s1 v1 \<and>
    next_symbol sy (length sy + 1) v1 s1 = (Inr (True, v2), s2) \<and>
    holds_bytes s2 v2 (d @ replicate n (sy ! (mtfSymbol v ! 0)) @ map (\<lambda>x. sy ! x) xs)"
  using assms
proof (induction xs arbitrary: s v d n)
  case Nil
  have "in_run v 0 0" using Nil.prems(2) by (simp add: in_run_def)
  then obtain v1 j where v1: "feeds sy s v (run_digits n) s v1" "in_run v1 j n" "mtfSymbol v1 = mtfSymbol v" "byteCount v1 = byteCount v"
    using feeds_run [of v 0 0 n s sy] Nil.prems by auto
  have front: "mtfSymbol v ! 0 < length sy"
    using mtf_ok_place(3) [OF Nil.prems(1), of 0] Nil.prems(5) by simp
  have d: "holds_bytes s v1 d" "length d + n < dbufSize s"
    using Nil.prems(3,6) v1(4) by (simp_all add: holds_bytes_def)
  obtain s2 v2 where "end_run sy v1 s = (Inr v2, s2)" "holds_bytes s2 v2 (d @ replicate n (sy ! (mtfSymbol v ! 0)))"
    using end_run_bytes [OF v1(2) d Nil.prems(7), of sy, unfolded v1(3), OF front] by metis
  then have "next_symbol sy (length sy + 1) v1 s = (Inr (True, v2), s2)"
    using Nil.prems(5) by (simp add: next_symbol_def bz_bind_def bz_ret_def)
  with v1(1) \<open>holds_bytes s2 v2 _\<close> show ?case by auto
next
  case (Cons x xs)
  let ?p = "place x (mtfSymbol v)"
  have x: "x < length sy" using Cons.prems(4) by simp
  note place = mtf_ok_place [OF Cons.prems(1) x]
  show ?case
  proof (cases "?p = 0")
    case True
    then have "sy ! (mtfSymbol v ! 0) = sy ! x" using place(2) by simp
    moreover have "replicate (n + 1) b @ ys = replicate n b @ b # ys" for b :: byte and ys
      by (simp add: replicate_append_same)
    ultimately show ?thesis
      using Cons.IH [OF Cons.prems(1-3), of "n + 1"] Cons.prems(4-7) True by simp
  next
    case False
    have "in_run v 0 0" using Cons.prems(2) by (simp add: in_run_def)
    then obtain v1 j where v1: "feeds sy s v (run_digits n) s v1" "in_run v1 j n" "mtfSymbol v1 = mtfSymbol v" "byteCount v1 = byteCount v"
      using feeds_run [of v 0 0 n s sy] Cons.prems by auto
    let ?d = "d @ replicate n (sy ! (mtfSymbol v ! 0))"
    have d: "holds_bytes s v1 d" "length d + n < dbufSize s"
      using Cons.prems(3,6) v1(4) by (simp_all add: holds_bytes_def)
    obtain s2 v2 where run: "end_run sy v1 s = (Inr v2, s2)" and v2: "holds_bytes s2 v2 ?d"
        "runPos v2 = 0" "mtfSymbol v2 = mtfSymbol v" "dbufSize s2 = dbufSize s"
      using end_run_bytes [OF v1(2) d Cons.prems(7), of sy, unfolded v1(3), OF place(3)] by metis
    have lens: "length ?d < dbufSize s" "0 < ?p" "?p < length (mtfSymbol v)"
      using Cons.prems(1,6) False place(1) by (auto simp: mtf_ok_def)
    obtain s3 v3 where lit: "literal_symbol sy (?p + 1) v2 s2 = (Inr v3, s3)" and v3: "holds_bytes s3 v3 (?d @ [sy ! x])"
        "runPos v3 = 0" "mtfSymbol v3 = move_to_front ?p (mtfSymbol v)" "dbufSize s3 = dbufSize s"
      using literal_bytes [OF v2(1), of ?p sy, unfolded v2(2-4) place(2), OF lens x] by metis
    have step: "next_symbol sy (?p + 1) v1 s = (Inr (False, v3), s3)"
      using False place(1) run lit by (simp add: next_symbol_def bz_bind_def bz_ret_def)
    have "\<exists>s4 v4 s5 v5. feeds sy s3 v3 (mtf_symbols (mtfSymbol v3) 0 xs) s4 v4 \<and>
        next_symbol sy (length sy + 1) v4 s4 = (Inr (True, v5), s5) \<and>
        holds_bytes s5 v5 ((?d @ [sy ! x]) @ replicate 0 (sy ! (mtfSymbol v3 ! 0)) @ map (\<lambda>x. sy ! x) xs)"
      by (rule Cons.IH) (use v3 place Cons.prems in simp_all)
    then obtain s4 v4 s5 v5 where "feeds sy s3 v3 (mtf_symbols (mtfSymbol v3) 0 xs) s4 v4"
        "next_symbol sy (length sy + 1) v4 s4 = (Inr (True, v5), s5)" "holds_bytes s5 v5 (?d @ map (\<lambda>x. sy ! x) (x # xs))"
      by auto
    moreover from this(1) have "feeds sy s v (run_digits n @ (?p + 1) # mtf_symbols (move_to_front ?p (mtfSymbol v)) 0 xs) s4 v4"
      using feeds_append [OF v1(1) feeds_Cons [OF step]] v3(3) by simp
    ultimately show ?thesis
      using False by (intro exI [of _ s4] exI [of _ v4] exI [of _ s5] exI [of _ v5]) simp
  qed
qed

section \<open>Groups of symbols\<close>

text \<open>Fifty symbols each are coded by the group that the next selector names.\<close>

fun symbol_bits :: "nat list list \<Rightarrow> nat list \<Rightarrow> nat list \<Rightarrow> bool list" where
  "symbol_bits lens [] ks = []"
| "symbol_bits lens (i # sel) ks =
     concat (map (code_bits (lens ! i)) (take GROUP_SIZE ks)) @ symbol_bits lens sel (drop GROUP_SIZE ks)"

lemma feeds_core:
  "feeds sy s v ks s' v' \<Longrightarrow> core s = s \<Longrightarrow> core s' = s' \<and> s' = s\<lparr>dbuf := dbuf s'\<rparr>"
proof (induction rule: feeds.induct)
  case (feeds_Cons sy k v s v1 s1 ks s2 v2)
  note step = reads_next_symbol(2,3) [OF feeds_Cons.hyps(1) feeds_Cons.prems]
  then have "core s2 = s2" and s2: "s2 = s1\<lparr>dbuf := dbuf s2\<rparr>" using feeds_Cons.IH by auto
  moreover have "s1\<lparr>dbuf := dbuf s2\<rparr> = s\<lparr>dbuf := dbuf s2\<rparr>"
    using arg_cong [OF step(1), of "\<lambda>s. s\<lparr>dbuf := dbuf s2\<rparr>"] by simp
  ultimately show ?case by simp
qed simp

lemma group_loop_all:
  assumes "lengths_ok len" and "group_wf g" and "feeds sy s v ks s' v'" and "core s = s" and "\<forall>k\<in>set ks. k < length len"
  shows "reads s (group_loop (length ks) (make_group len g) sy v) (concat (map (code_bits len) ks)) (False, v') s'"
  using assms(3-5)
proof (induction rule: feeds.induct)
  case (feeds_Cons sy k v s v1 s1 ks s2 v2)
  have k: "k < length len" using feeds_Cons.prems(2) by simp
  note next_ok = reads_next_symbol [OF feeds_Cons.hyps(1) feeds_Cons.prems(1)]
  have rest: "reads s1 (group_loop (length ks) (make_group len g) sy v1) (concat (map (code_bits len) ks)) (False, v2) s2"
    using feeds_Cons.IH next_ok(3) feeds_Cons.prems(2) by simp
  have "reads s (group_loop (Suc (length ks)) (make_group len g) sy v) (code_bits len k @ concat (map (code_bits len) ks)) (False, v2) s2"
    unfolding group_loop.simps
    by (rule reads_bind [OF huff_symbol_reads [OF assms(1,2) k]], rule reads_then [OF next_ok(1)]) (use rest in simp)
  then show ?case by simp
qed (simp add: reads_ret)

lemma group_loop_end:
  assumes "lengths_ok len" and "group_wf g" and "feeds sy s v ks s1 v1" and "core s = s" and "\<forall>k\<in>set (ks @ [e]). k < length len"
    and "next_symbol sy e v1 s1 = (Inr (True, v2), s2)" and "length ks < n"
  shows "reads s (group_loop n (make_group len g) sy v) (concat (map (code_bits len) (ks @ [e]))) (True, v2) s2"
  using assms(3-7)
proof (induction arbitrary: n rule: feeds.induct)
  case (feeds_Nil sy s v)
  then obtain m where n: "n = Suc m" by (cases n) auto
  have e: "e < length len" using feeds_Nil.prems(2) by simp
  have "reads s (group_loop n (make_group len g) sy v) (code_bits len e) (True, v2) s2"
    unfolding n group_loop.simps
    by (rule reads_last [OF huff_symbol_reads [OF assms(1,2) e]],
        rule reads_then [OF reads_next_symbol(1) [OF feeds_Nil.prems(3,1)]]) (simp add: reads_ret)
  then show ?case by simp
next
  case (feeds_Cons sy k v s v' s' ks s3 v3)
  then obtain m where n: "n = Suc m" by (cases n) auto
  have k: "k < length len" using feeds_Cons.prems(2) by simp
  note next_ok = reads_next_symbol [OF feeds_Cons.hyps(1) feeds_Cons.prems(1)]
  have rest: "reads s' (group_loop m (make_group len g) sy v') (concat (map (code_bits len) (ks @ [e]))) (True, v2) s2"
    using feeds_Cons.IH [of m] next_ok(3) feeds_Cons.prems n by simp
  have "reads s (group_loop n (make_group len g) sy v) (code_bits len k @ concat (map (code_bits len) (ks @ [e]))) (True, v2) s2"
    unfolding n group_loop.simps
    by (rule reads_bind [OF huff_symbol_reads [OF assms(1,2) k]], rule reads_then [OF next_ok(1)]) (use rest in simp)
  then show ?case by simp
qed

lemma get_group_reads:
  assumes "i < length (selectors s)" and "selectors s ! i < length (groups s)"
  shows "reads s (get_group i) [] (groups s ! (selectors s ! i)) s"
  using assms by (auto simp: reads_def get_group_def)

lemma symbol_loop_reads:
  assumes "feeds sy s v ks s1 v1" and "core s = s" and "next_symbol sy e v1 s1 = (Inr (True, v2), s2)"
    and "n = i + length sel" and "n \<le> length (selectors s)" and "\<forall>j<length sel. selectors s ! (i + j) = sel ! j"
    and "\<forall>j\<in>set sel. j < length lens" and "length lens \<le> length (groups s)"
    and "\<forall>j<length lens. \<exists>g. group_wf g \<and> groups s ! j = make_group (lens ! j) g"
    and "\<forall>len\<in>set lens. lengths_ok len \<and> (\<forall>k\<in>set (ks @ [e]). k < length len)"
    and "length ks < GROUP_SIZE * length sel"
  shows "reads s (symbol_loop sy n i v) (symbol_bits lens sel (ks @ [e])) v2 s2"
  using assms
proof (induction sel arbitrary: s v ks i)
  case (Cons x sel)
  have x: "x < length lens" "selectors s ! i = x" "i < n" using Cons.prems(4,6,7) by (auto simp: nth_Cons')
  obtain g where g: "group_wf g" "groups s ! x = make_group (lens ! x) g" using Cons.prems(9) x by blast
  have ok: "lengths_ok (lens ! x)" "\<forall>k\<in>set (ks @ [e]). k < length (lens ! x)"
    using Cons.prems(10) x(1) nth_mem by blast+
  have get: "reads s (get_group i) [] (make_group (lens ! x) g) s"
    using get_group_reads [of i s] x g(2) Cons.prems(5,8) by simp
  show ?case
  proof (cases "length ks < GROUP_SIZE")
    case True
    have none: "symbol_bits lens sel [] = []" by (induction sel) simp_all
    have "reads s (group_loop GROUP_SIZE (make_group (lens ! x) g) sy v) (concat (map (code_bits (lens ! x)) (ks @ [e]))) (True, v2) s2"
      by (rule group_loop_end [OF ok(1) g(1) Cons.prems(1,2) ok(2) Cons.prems(3) True])
    then have "reads s (symbol_loop sy n i v) (concat (map (code_bits (lens ! x)) (ks @ [e]))) v2 s2"
      using x(3) by (subst symbol_loop.simps, simp only: not_le [symmetric] if_False)
        (rule reads_then [OF get], rule reads_last, assumption, simp add: reads_ret)
    then show ?thesis using True none by simp
  next
    case False
    have "feeds sy s v (take GROUP_SIZE ks @ drop GROUP_SIZE ks) s1 v1" using Cons.prems(1) by simp
    then obtain s3 v3 where f: "feeds sy s v (take GROUP_SIZE ks) s3 v3" "feeds sy s3 v3 (drop GROUP_SIZE ks) s1 v1"
      by (rule feeds_appendE)
    have s3: "core s3 = s3" "s3 = s\<lparr>dbuf := dbuf s3\<rparr>" using feeds_core [OF f(1) Cons.prems(2)] by auto
    have same: "selectors s3 = selectors s" "groups s3 = groups s"
      by (subst s3(2), simp)+
    have all: "reads s (group_loop GROUP_SIZE (make_group (lens ! x) g) sy v) (concat (map (code_bits (lens ! x)) (take GROUP_SIZE ks))) (False, v3) s3"
      using group_loop_all [OF ok(1) g(1) f(1) Cons.prems(2)] ok(2) False by (auto dest: in_set_takeD)
    have rest: "reads s3 (symbol_loop sy n (i + 1) v3) (symbol_bits lens sel (drop GROUP_SIZE ks @ [e])) v2 s2"
    proof (rule Cons.IH [OF f(2) s3(1) Cons.prems(3)])
      show "\<forall>j<length sel. selectors s3 ! (i + 1 + j) = sel ! j"
        using Cons.prems(6) same by auto
      show "\<forall>len\<in>set lens. lengths_ok len \<and> (\<forall>k\<in>set (drop GROUP_SIZE ks @ [e]). k < length len)"
        using Cons.prems(10) by (auto dest: in_set_dropD)
    qed (use Cons.prems same False in auto)
    have "reads s (symbol_loop sy n i v) (concat (map (code_bits (lens ! x)) (take GROUP_SIZE ks)) @ symbol_bits lens sel (drop GROUP_SIZE ks @ [e])) v2 s2"
      using x(3) by (subst symbol_loop.simps, simp only: not_le [symmetric] if_False)
        (rule reads_then [OF get], rule reads_bind [OF all], use rest in simp)
    then show ?thesis using False by simp
  qed
qed simp

end
