(* ===== verification/Bz_Block.thy ===== *)
theory Bz_Block
  imports Bz_Symbols
begin

text \<open>
  A whole block: the encoder of the format, with any choice of Huffman codes and selectors, and the proof that
  \<open>get_next_block\<close> reads the block back, up to the links of the Burrows-Wheeler transform.
\<close>

section \<open>The encoder\<close>

definition block_symbols :: "byte list \<Rightarrow> nat list" where
  "block_symbols s = mtf_symbols [0..<256] 0 (map (\<lambda>b. place b (used_bytes (set s))) (last_column s))"

definition block_bits :: "u32 \<Rightarrow> nat \<Rightarrow> nat list list \<Rightarrow> nat list \<Rightarrow> byte list \<Rightarrow> bool list" where
  "block_bits crc origPtr lens sels s =
     header_bits crc origPtr @ map_bits (set s) @ nat_bits 3 (length lens) @ nat_bits 15 (length sels) @
     selector_bits [0..<length lens] sels @ concat (map group_bits lens) @
     symbol_bits lens sels (block_symbols s @ [length (used_bytes (set s)) + 1])"

text \<open>The choices that an encoder has: from two to six codes, and enough selectors.\<close>

definition codes_ok :: "nat list list \<Rightarrow> nat list \<Rightarrow> byte list \<Rightarrow> bool" where
  "codes_ok lens sels s \<longleftrightarrow>
     2 \<le> length lens \<and> length lens \<le> MAX_GROUPS \<and> sels \<noteq> [] \<and> length sels < 2 ^ 15 \<and>
     (\<forall>x\<in>set sels. x < length lens) \<and> (\<forall>len\<in>set lens. lengths_ok len \<and> length len = length (used_bytes (set s)) + 2) \<and>
     length (block_symbols s) < GROUP_SIZE * length sels"

text \<open>The state of the decompressor between blocks.\<close>

definition bunzip_wf :: "bunzip_data \<Rightarrow> bool" where
  "bunzip_wf bd \<longleftrightarrow> length (selectors bd) = 2 ^ 15 \<and> length (groups bd) = MAX_GROUPS \<and> (\<forall>g\<in>set (groups bd). group_wf g) \<and>
     dbufSize bd < 2 ^ 24"

section \<open>Bytes and symbols\<close>

lemma used_bytes_set: "set (used_bytes B) = B"
proof -
  have "b \<in> (of_nat :: nat \<Rightarrow> byte) ` {i. i < 256 \<and> (of_nat i :: byte) \<in> B}" if "b \<in> B" for b
    using that unsigned_less [of b, where ?'a = nat] by (intro image_eqI [of _ _ "unat b"]) auto
  then show ?thesis by (auto simp: used_bytes_def)
qed

lemma length_used_bytes: "length (used_bytes B) \<le> 256"
  using length_filter_le [of "\<lambda>i. (of_nat i :: byte) \<in> B" "[0..<256]"] by (simp add: used_bytes_def)

lemma last_column_set: "set (last_column s) \<subseteq> set s"
proof
  fix b
  assume "b \<in> set (last_column s)"
  then obtain xs where xs: "xs \<in> set (rotations s)" "b = last xs" by (auto simp: last_column_def)
  then obtain i where "xs = rotate i s" "i < length s" by (auto simp: rotations_def)
  then have "set xs = set s" "xs \<noteq> []" by auto
  then show "b \<in> set s" using xs(2) by (metis last_in_set)
qed

lemma run_digits_less: "k \<in> set (run_digits n) \<Longrightarrow> k \<le> 1"
  by (induction n rule: run_digits.induct) (subst (asm) run_digits.simps, auto split: if_splits)

lemma mtf_symbols_less:
  "mtf_ok m mtf \<Longrightarrow> set xs \<subseteq> {0..<m} \<Longrightarrow> 0 < m \<Longrightarrow> k \<in> set (mtf_symbols mtf n xs) \<Longrightarrow> k < m + 2"
proof (induction xs arbitrary: mtf n)
  case Nil
  then show ?case using run_digits_less [of k n] by simp
next
  case (Cons x xs)
  have "x < m" using Cons.prems(2) by simp
  note place = mtf_ok_place [OF Cons.prems(1) this]
  show ?case
    using Cons.IH [OF Cons.prems(1)] Cons.IH [OF place(4)] Cons.prems place(1) run_digits_less [of k n]
    by (auto split: if_splits)
qed

lemma linked_high:
  assumes "j < length col" and "length col < 2 ^ 24"
  shows "unat (drop_bit 8 (linked col (length col) ! j)) = links col ! j"
proof -
  have i: "links col ! j < length col"
    using assms(1) links_perm [of col] by (metis atLeastLessThan_iff nth_mem)
  have "take_bit 24 (links col ! j) = links col ! j" using i assms(2) by (simp add: take_bit_nat_eq_self)
  then have "bit (links col ! j) n \<Longrightarrow> n < 24" for n by (metis bit_take_bit_iff)
  then have "drop_bit 8 (ucast (col ! j) OR push_bit 8 (of_nat (links col ! j)) :: u32) = of_nat (links col ! j)"
    by (intro bit_word_eqI) (auto simp: bit_simps dest: bit_imp_le_length)
  then show ?thesis
    using assms i by (simp add: linked_def unat_u32_of_nat)
qed

section \<open>The block\<close>

lemma bz_bind_assoc: "bz_bind (bz_bind m f) g = bz_bind m (\<lambda>a. bz_bind (f a) g)"
  by (auto simp: bz_bind_def split: prod.splits sum.splits)

lemma start_output_reads:
  assumes "dbuf s = linked col (length col)" and "origPtr < length col" and "length col < 2 ^ 24" and "core s = s"
  shows "reads s (start_output origPtr) [] () (s\<lparr>writeCurrent := col ! origPtr, writePos := links col ! origPtr,
    writeRunCountdown := 5, writeCount := int (length col)\<rparr>)"
proof -
  have len: "length (dbuf s) = length col" using assms(1) by (simp add: linked_def)
  have "start_output origPtr bd = (Inr (), bd\<lparr>writeCurrent := col ! origPtr, writePos := links col ! origPtr,
      writeRunCountdown := 5, writeCount := int (length col)\<rparr>)" if "core bd = s" for bd
  proof -
    have d: "dbuf bd = linked col (length col)" using that assms(1) by auto
    then have "length (dbuf bd) = length col" "dbuf bd \<noteq> []" using assms(2) by (auto simp: linked_def)
    then show ?thesis
      using assms(2) linked_low [OF assms(2), of "length col"] linked_high [OF assms(2,3)] d
      by (simp add: start_output_def Let_def)
  qed
  then show ?thesis by (auto simp: reads_def core_def bits_wf_def bit_stream_def)
qed

theorem get_next_block_reads:
  assumes "bunzip_wf s0" and "core s0 = s0" and "s \<noteq> []" and "length s < dbufSize s0"
    and "origPtr < length s" and "rotations s ! origPtr = s" and "codes_ok lens sels s"
  obtains s1 where "reads s0 get_next_block (block_bits crc origPtr lens sels s) () s1" and "bunzip_wf s1" and "core s1 = s1"
    and "dbuf s1 = linked (last_column s) (length s)" and "dbufSize s1 = dbufSize s0" and "headerCRC s1 = crc"
    and "writeCurrent s1 = last_column s ! origPtr" and "writePos s1 = links (last_column s) ! origPtr"
    and "writeRunCountdown s1 = 5" and "writeCount s1 = int (length s)" and "writeCopies s1 = writeCopies s0"
    and "totalCRC s1 = totalCRC s0" and "crc32Table s1 = crc32Table s0" and "writeCRC s1 = writeCRC s0"
    and "in_fd s1 = in_fd s0"
proof -
  let ?B = "set s" and ?sy = "used_bytes (set s)" and ?col = "last_column s" and ?ks = "block_symbols s"
  let ?xs = "map (\<lambda>b. place b ?sy) ?col" and ?v = "\<lparr>runPos = 0, runCnt = 0, byteCount = replicate 256 0, mtfSymbol = [0..<256]\<rparr>"
  let ?G = "length lens" and ?n = "length sels"
  have sy: "set ?sy = set s" "length ?sy \<le> 256" "?sy \<noteq> []"
    using used_bytes_set length_used_bytes assms(3) by (auto, metis set_empty used_bytes_set)
  have codes: "2 \<le> ?G" "?G \<le> MAX_GROUPS" "?n < 2 ^ 15" "?n \<noteq> 0" "\<forall>x\<in>set sels. x < ?G"
    "\<forall>len\<in>set lens. lengths_ok len \<and> length len = length ?sy + 2" "length ?ks < GROUP_SIZE * ?n"
    using assms(7) by (auto simp: codes_ok_def)
  have place: "place b ?sy < length ?sy \<and> ?sy ! place b ?sy = b" if "b \<in> set ?col" for b
    using that last_column_set [of s] sy(1) by (intro place_nth) auto
  have mtf: "mtf_ok (length ?sy) [0..<256]" using sy(2) by (simp add: mtf_ok_def take_upt)
  have xs: "set ?xs \<subseteq> {0..<length ?sy}" "map (\<lambda>x. ?sy ! x) ?xs = ?col"
    using place by (auto simp: map_idI)
  define s1 where "s1 = s0\<lparr>headerCRC := crc\<rparr>"
  define s2 where "s2 = s1\<lparr>selectors := sels @ drop ?n (selectors s0)\<rparr>"
  define s3 where "s3 = s2\<lparr>groups := map2 make_group lens (take ?G (groups s0)) @ drop ?G (groups s0)\<rparr>"
  define s4 where "s4 = s3\<lparr>dbuf := []\<rparr>"
  have wf: "length (selectors s0) = 2 ^ 15" "length (groups s0) = MAX_GROUPS" "\<forall>g\<in>set (groups s0). group_wf g" "dbufSize s0 < 2 ^ 24"
    using assms(1) by (auto simp: bunzip_wf_def)
  have bits: "reads s0 block_header (header_bits crc origPtr) origPtr s1"
    unfolding s1_def using assms(4,5) wf(4) by (intro block_header_reads) auto
  have map: "reads s1 (bz_bind (get_bits 16) (\<lambda>t. symbol_map t 0 [])) (map_bits ?B) ?sy s1"
    by (rule map_bits_reads)
  have G: "?G < 2 ^ 3" "unat (of_nat ?G :: u32) = ?G" using codes(2) by (simp_all add: MAX_GROUPS_def unat_u32_of_nat)
  have n: "unat (of_nat ?n :: u32) = ?n" "(of_nat ?n :: u32) \<noteq> 0"
    using codes(3,4) unsigned_0 by (auto simp: unat_u32_of_nat word_of_nat_eq_0_iff dest!: dvd_imp_le)
  have sel: "reads s1 (read_selectors (unat (of_nat ?G :: u32)) (unat (of_nat ?n :: u32)) 0 [0..<unat (of_nat ?G :: u32)])
      (selector_bits [0..<?G] sels) () s2"
  proof -
    have "set sels \<subseteq> {0..<?G}" using codes(5) by auto
    then show ?thesis
      unfolding G n s2_def using read_selectors_reads [of sels "[0..<?G]" ?G 0 ?n s1] codes(2,3) wf(1) by (simp add: s1_def MAX_GROUPS_def)
  qed
  have grp: "reads s2 (read_groups (length ?sy + 2) (unat (of_nat ?G :: u32)) 0) (concat (map group_bits lens)) () s3"
    unfolding G s3_def using read_groups_reads [of lens "length ?sy + 2" 0 ?G s2] codes(2,6) wf(2,3) by (simp add: s2_def s1_def)
  have upd: "reads s3 (bz_upd (\<lambda>bd. bd\<lparr>dbuf := []\<rparr>)) [] () s4"
    unfolding s4_def by (rule reads_upd) simp_all
  have core4: "core s4 = s4" using assms(2) by (simp add: s4_def s3_def s2_def s1_def)
  obtain s5 v5 s6 v6 where feed: "feeds ?sy s4 ?v ?ks s5 v5" "next_symbol ?sy (length ?sy + 1) v5 s5 = (Inr (True, v6), s6)"
      "holds_bytes s6 v6 ?col"
  proof -
    have "byte_counts [] = replicate 256 0" by (rule nth_equalityI) (simp_all add: byte_counts_def)
    then have "\<exists>s5 v5 s6 v6. feeds ?sy s4 ?v (mtf_symbols (mtfSymbol ?v) 0 ?xs) s5 v5 \<and>
        next_symbol ?sy (length ?sy + 1) v5 s5 = (Inr (True, v6), s6) \<and>
        holds_bytes s6 v6 ([] @ replicate 0 (?sy ! (mtfSymbol ?v ! 0)) @ map (\<lambda>x. ?sy ! x) ?xs)"
      by (intro mtf_symbols_feed)
        (use mtf xs(1) sy(3) assms(4) wf(4) in \<open>simp_all add: holds_bytes_def s4_def s3_def s2_def s1_def\<close>)
    then show thesis
      using that unfolding xs(2) block_symbols_def by (metis append_Nil block_vars.select_convs(4) replicate_0)
  qed
  have G4: "groups s4 ! j = make_group (lens ! j) (groups s0 ! j)" "group_wf (groups s0 ! j)" if "j < ?G" for j
    using that codes(2) wf(2,3) by (simp_all add: s4_def s3_def nth_append)
  have "\<forall>k\<in>set (?ks @ [length ?sy + 1]). k < length ?sy + 2"
    using mtf_symbols_less [OF mtf xs(1)] sy(3) by (auto simp: block_symbols_def)
  then have lens: "\<forall>len\<in>set lens. lengths_ok len \<and> (\<forall>k\<in>set (?ks @ [length ?sy + 1]). k < length len)"
    using codes(6) by auto
  have loop: "reads s4 (symbol_loop ?sy (unat (of_nat ?n :: u32)) 0 ?v) (symbol_bits lens sels (?ks @ [length ?sy + 1])) v6 s6"
    unfolding n
  proof (rule symbol_loop_reads [OF feed(1) core4 feed(2)])
    show "\<forall>j<?G. \<exists>g. group_wf g \<and> groups s4 ! j = make_group (lens ! j) g" using G4 by blast
  qed (use lens codes wf in \<open>auto simp: s4_def s3_def s2_def s1_def nth_append\<close>)
  have s6: "core s6 = s6" "s6 = s4\<lparr>dbuf := dbuf s6\<rparr>"
  proof -
    note s5 = feeds_core [OF feed(1) core4]
    note step = reads_next_symbol [OF feed(2) s5 [THEN conjunct1]]
    show "core s6 = s6" by (rule step(3))
    have "s5\<lparr>dbuf := dbuf s6\<rparr> = s4\<lparr>dbuf := dbuf s6\<rparr>"
      using arg_cong [OF s5 [THEN conjunct2], of "\<lambda>s. s\<lparr>dbuf := dbuf s6\<rparr>"] by simp
    with step(2) show "s6 = s4\<lparr>dbuf := dbuf s6\<rparr>" by simp
  qed
  define s7 where "s7 = s4\<lparr>dbuf := linked ?col (length ?col)\<rparr>"
  have link: "reads s6 (link_block (byteCount v6)) [] () s7"
  proof -
    have "s6\<lparr>dbuf := linked ?col (length ?col)\<rparr> = s7"
      using arg_cong [OF s6(2), of "\<lambda>s. s\<lparr>dbuf := linked ?col (length ?col)\<rparr>"] by (simp add: s7_def)
    moreover have "link_block (byteCount v6) bd = bz_upd (\<lambda>bd. bd\<lparr>dbuf := linked ?col (length ?col)\<rparr>) bd" if "core bd = s6" for bd
      using feed(3) that by (auto simp: link_block_def bz_upd_def holds_bytes_def link_dbuf_linked)
    ultimately show ?thesis
      using reads_upd [of "\<lambda>bd. bd\<lparr>dbuf := linked ?col (length ?col)\<rparr>" s6] by (simp add: reads_def)
  qed
  define s8 where "s8 = s7\<lparr>writeCurrent := ?col ! origPtr, writePos := links ?col ! origPtr, writeRunCountdown := 5,
    writeCount := int (length ?col)\<rparr>"
  have out: "reads s7 (start_output origPtr) [] () s8"
    unfolding s8_def by (rule start_output_reads) (use assms core4 wf(4) in \<open>simp_all add: s7_def\<close>)
  have "reads s0 get_next_block (block_bits crc origPtr lens sels s) () s8"
  proof -
    have block: "get_next_block = bz_bind block_header (\<lambda>origPtr.
       bz_bind (bz_bind (get_bits 16) (\<lambda>t. symbol_map t 0 [])) (\<lambda>symToByte.
       bz_bind (get_bits 3) (\<lambda>groupCount.
       bz_bind (bz_check (2 \<le> unat groupCount \<and> unat groupCount \<le> MAX_GROUPS) data_error) (\<lambda>_.
       bz_bind (get_bits 15) (\<lambda>nSelectors.
       bz_bind (bz_check (nSelectors \<noteq> 0) data_error) (\<lambda>_.
       bz_bind (read_selectors (unat groupCount) (unat nSelectors) 0 [0..<unat groupCount]) (\<lambda>_.
       bz_bind (read_groups (length symToByte + 2) (unat groupCount) 0) (\<lambda>_.
       bz_bind (bz_upd (\<lambda>bd. bd\<lparr>dbuf := []\<rparr>)) (\<lambda>_.
       bz_bind (symbol_loop symToByte (unat nSelectors) 0
         \<lparr>runPos = 0, runCnt = 0, byteCount = replicate 256 0, mtfSymbol = [0..<256]\<rparr>) (\<lambda>v.
       bz_bind (link_block (byteCount v)) (\<lambda>_.
       start_output origPtr)))))))))))"
      by (simp add: get_next_block_def bz_bind_assoc)
    show ?thesis
      unfolding block_bits_def block
      by (rule reads_bind [OF bits], rule reads_bind [OF map], rule reads_bind [OF reads_nat], rule G, simp,
        rule reads_then [OF reads_check], use codes G in simp, rule reads_bind [OF reads_nat], rule codes, simp,
        rule reads_then [OF reads_check], rule n, rule reads_bind [OF sel], rule reads_bind [OF grp],
        rule reads_then [OF upd], rule reads_last [OF loop], rule reads_then [OF link], rule out)
  qed
  moreover have "bunzip_wf s8"
  proof -
    have "group_wf g" if "g \<in> set (map2 make_group lens (take ?G (groups s0)))" for g
    proof -
      from that obtain j where "j < ?G" "g = make_group (lens ! j) (groups s0 ! j)"
        using codes(2) wf(2) by (auto simp: in_set_conv_nth)
      then show ?thesis using G4(2) codes(6) make_group_tables(3) lengths_okD by simp
    qed
    then show ?thesis
      using codes(2,3) wf by (auto simp: bunzip_wf_def s8_def s7_def s4_def s3_def s2_def s1_def dest: in_set_dropD)
  qed
  moreover have "core s8 = s8"
  proof -
    have "core s8 = (core s4)\<lparr>dbuf := linked ?col (length ?col), writeCurrent := ?col ! origPtr, writePos := links ?col ! origPtr,
        writeRunCountdown := 5, writeCount := int (length ?col)\<rparr>"
      by (simp add: s8_def s7_def core_def)
    then show ?thesis by (simp add: core4 s8_def s7_def)
  qed
  ultimately show thesis
    by (rule that) (simp_all add: s8_def s7_def s4_def s3_def s2_def s1_def)
qed

end
