(* ===== verification/Bb_Unbzip.thy ===== *)
theory Bb_Unbzip
  imports Bb_Bunzip
begin

text \<open>
  The output half of \<open>busybox/archival/libarchive/decompress_bunzip2.c\<close>: \<open>read_bunzip\<close>, which undoes the
  Burrows-Wheeler transform and the runs of the block, \<open>start_bunzip\<close> and \<open>unpack_bz2_stream\<close>, with
  \<open>full_write\<close> and \<open>xread\<close> of \<open>libbb\<close>.
\<close>

section \<open>Bits that an operation uses up\<close>

text \<open>A computation that was cut off, other than by a \<open>return\<close> of the code.\<close>

definition cut :: "bz_stop + 'a \<Rightarrow> bool" where
  "cut r \<longleftrightarrow> (case r of Inl (Retval _) \<Rightarrow> False | Inl _ \<Rightarrow> True | Inr _ \<Rightarrow> False)"

lemma cut_Inr [simp]: "\<not> cut (Inr a)"
  by (simp add: cut_def)

lemma cut_Inl [simp]: "cut (Inl e) \<longleftrightarrow> (\<forall>i. e \<noteq> Retval i)"
  by (simp add: cut_def split: bz_stop.splits)

definition uses :: "nat \<Rightarrow> 'a bz \<Rightarrow> bool" where
  "uses n m \<longleftrightarrow> (\<forall>bd r bd'. m bd = (r, bd') \<longrightarrow> bits_left bd' + (if cut r then 0 else n) \<le> bits_left bd)"

lemma usesI: "(\<And>bd r bd'. m bd = (r, bd') \<Longrightarrow> bits_left bd' + (if cut r then 0 else n) \<le> bits_left bd) \<Longrightarrow> uses n m"
  by (simp add: uses_def)

lemma usesD: "uses n m \<Longrightarrow> m bd = (r, bd') \<Longrightarrow> bits_left bd' + (if cut r then 0 else n) \<le> bits_left bd"
  by (simp add: uses_def)

named_theorems uses_intro

lemma uses_bind: "uses n m \<Longrightarrow> (\<And>a. uses 0 (f a)) \<Longrightarrow> uses n (bz_bind m f)"
proof (rule usesI)
  fix bd r bd'
  assume m: "uses n m" and f: "\<And>a. uses 0 (f a)" and eq: "bz_bind m f bd = (r, bd')"
  obtain r1 bd1 where r1: "m bd = (r1, bd1)" by (cases "m bd")
  show "bits_left bd' + (if cut r then 0 else n) \<le> bits_left bd"
  proof (cases r1)
    case (Inr a)
    then have "f a bd1 = (r, bd')" using eq r1 by (simp add: bz_bind_def)
    from usesD [OF m r1] usesD [OF f this] show ?thesis using Inr by auto
  qed (use usesD [OF m r1] eq r1 in \<open>auto simp: bz_bind_def\<close>)
qed

lemma uses_bind0 [uses_intro]: "uses 0 m \<Longrightarrow> (\<And>a. uses 0 (f a)) \<Longrightarrow> uses 0 (bz_bind m f)"
  by (rule uses_bind)

lemma uses_plain [uses_intro]:
  "uses 0 (bz_ret a)" "uses 0 (bz_stop e)" "uses 0 (bz_get g)" "uses 0 (bz_check b e)"
  by (auto simp: uses_def bz_ret_def bz_stop_def bz_get_def bz_check_def)

lemma uses_if [uses_intro]: "(b \<Longrightarrow> uses n m) \<Longrightarrow> (\<not> b \<Longrightarrow> uses n m') \<Longrightarrow> uses n (if b then m else m')"
  by simp

lemma uses_prod [uses_intro]: "(\<And>a b. p = (a, b) \<Longrightarrow> uses n (f a b)) \<Longrightarrow> uses n (case p of (a, b) \<Rightarrow> f a b)"
  by (cases p) simp

lemma uses_upd [uses_intro]: "(\<And>bd. bits_left (f bd) = bits_left bd) \<Longrightarrow> uses 0 (bz_upd f)"
  by (simp add: uses_def bz_upd_def)

lemma uses_get_bits: "uses k (get_bits k)"
proof (rule usesI)
  fix bd :: bunzip_data and r bd'
  assume "get_bits k bd = (r, bd')"
  then show "bits_left bd' + (if cut r then 0 else k) \<le> bits_left bd"
    using get_bits_left [of k bd _ bd'] get_bits_stopped [of k bd _ bd'] by (cases r) auto
qed

lemma uses_less: "uses n m \<Longrightarrow> uses 0 m"
  unfolding uses_def by (metis (full_types) add_0_right add_leD1)

lemmas uses_get_bits0 [uses_intro] = uses_less [OF uses_get_bits]

lemma uses_symbol_map [uses_intro]: "uses 0 (symbol_map t i s)"
proof (induction t i s rule: symbol_map.induct)
  case (1 t i s)
  show ?case
    by (subst symbol_map.simps) (intro uses_intro; ((rule 1(1) [OF _ sym]; assumption) | (rule 1(2); assumption)))
qed

lemma uses_selector_pos [uses_intro]: "uses 0 (selector_pos g n)"
proof (induction g n rule: selector_pos.induct)
  case (1 g n)
  show ?case
    by (subst selector_pos.simps) (intro uses_intro 1; simp)
qed

lemma uses_read_selectors [uses_intro]: "uses 0 (read_selectors g k i m)"
proof (induction g k i m rule: read_selectors.induct)
  case (1 g k i m)
  show ?case
    by (subst read_selectors.simps) (intro uses_intro 1; simp add: set_selector_def bits_left_def uses_intro)
qed

lemma bits_left_unget: "bits_left (unget_bits j bd) = bits_left bd + j"
  by (simp add: bits_left_def unget_bits_def)

lemma uses_code_length [uses_intro]: "uses 0 (code_length l)"
proof -
  have "code_length l bd = (r, bd') \<Longrightarrow> bits_left bd' \<le> bits_left bd" for bd r bd'
  proof (induction l bd rule: code_length.induct)
    case (1 l bd)
    obtain q bd1 where q: "get_bits 2 bd = (q, bd1)" by (cases "get_bits 2 bd")
    show ?case
      using 1(1) [OF _ q [symmetric]] 1(2) q usesD [OF uses_get_bits q]
      by (auto simp: code_length.simps [of l bd] bits_left_unget split: if_splits sum.splits)
  qed
  then show ?thesis by (simp add: uses_def)
qed

lemma uses_read_lengths [uses_intro]: "uses 0 (read_lengths n l)"
  by (induction n arbitrary: l) (auto intro!: uses_intro)

lemma uses_read_group [uses_intro]: "uses 0 (read_group n j)"
  unfolding read_group_def by (intro uses_intro) (simp add: bits_left_def)

lemma uses_read_groups [uses_intro]: "uses 0 (read_groups n k j)"
proof (induction n k j rule: read_groups.induct)
  case (1 n k j)
  show ?case
    by (subst read_groups.simps) (intro uses_intro 1)
qed

lemma uses_huff_bits: "uses n (huff_bits n)"
proof -
  have "huff_bits n bd = (r, bd') \<Longrightarrow> bits_left bd' + (if cut r then 0 else n) \<le> bits_left bd" for bd r bd'
  proof (induction n bd rule: huff_bits.induct)
    case (1 n bd)
    show ?case
    proof (cases "inbufBitCount bd < n \<and> inbufPos bd \<noteq> length (inbuf bd)")
      case True
      obtain q bd1 where q: "grab_byte bd = (q, bd1)" by (cases "grab_byte bd")
      then have "bits_left (bd1\<lparr>inbufBitCount := inbufBitCount bd + 8\<rparr>) = bits_left bd" if "q = Inr ()"
        using that by (auto simp: grab_byte_def bits_left_def split: if_splits)
      moreover have "bits_left bd1 \<le> bits_left bd \<and> cut q" if "isl q"
        using that q by (auto simp: grab_byte_def split: if_splits)
      ultimately show ?thesis
        using 1(1) [OF _ _ q [symmetric]] 1(2) True q
        by (auto simp: huff_bits.simps [of n bd] split: sum.splits)
    qed (use 1(2) usesD [OF uses_get_bits, of n bd r bd'] in
      \<open>auto simp: huff_bits.simps [of n bd] bits_left_def split: if_splits\<close>)
  qed
  then show ?thesis by (rule usesI)
qed

lemma uses_huff_symbol [uses_intro]: "uses 0 (huff_symbol g)"
proof -
  have "huff_symbol g bd = (r, bd') \<Longrightarrow> bits_left bd' \<le> bits_left bd" for bd r bd'
    using usesD [OF uses_huff_bits, of "maxLen g" bd]
    by (auto simp: huff_symbol_def bz_bind_def bz_check_def bz_stop_def bz_ret_def bz_upd_def Let_def
          bits_left_unget split: if_splits prod.splits sum.splits option.splits)
  then show ?thesis by (simp add: uses_def)
qed

lemma uses_put_dbuf [uses_intro]: "uses 0 (put_dbuf uc)"
  by (auto simp: uses_def put_dbuf_def bits_left_def split: if_splits)

lemma uses_put_run [uses_intro]: "uses 0 (put_run n uc)"
  by (induction n) (auto intro!: uses_intro)

lemma uses_next_symbol [uses_intro]: "uses 0 (next_symbol s k v)"
  unfolding next_symbol_def run_symbol_def end_run_def literal_symbol_def Let_def by (intro uses_intro)

lemma uses_group_loop [uses_intro]: "uses 0 (group_loop n g s v)"
  by (induction n arbitrary: v) (auto intro!: uses_intro)

lemma uses_get_group [uses_intro]: "uses 0 (get_group i)"
  by (auto simp: uses_def get_group_def split: if_splits)

lemma uses_symbol_loop [uses_intro]: "uses 0 (symbol_loop s k i v)"
proof (induction s k i v rule: symbol_loop.induct)
  case (1 s k i v)
  show ?case
    by (subst symbol_loop.simps) (intro uses_intro 1)
qed

lemma uses_start_output [uses_intro]: "uses 0 (start_output p)"
  by (auto simp: uses_def start_output_def bits_left_def Let_def split: if_splits)

lemma uses_link_block [uses_intro]: "uses 0 (link_block c)"
  by (auto simp: uses_def link_block_def bits_left_def split: option.splits)

lemma uses_get_next_block: "uses 24 get_next_block"
proof -
  have "uses 24 block_header"
    unfolding block_header_def by (intro uses_bind [OF uses_get_bits] uses_intro) (simp add: bits_left_def)
  then show ?thesis
    unfolding get_next_block_def by (rule uses_bind) (intro uses_intro; simp add: bits_left_def)
qed

section \<open>read_bunzip\<close>

text \<open>
  The labels of the loop: \<open>dec_writeCopies\<close>, the start of \<open>for (;;)\<close> and \<open>decode_next_byte\<close>; the
  variables that are held in registers, with the bytes written to \<open>outbuf\<close>; and how the loop is left.
\<close>

datatype out_label = Dec_Copies | Put_Byte | Decode_Next

record out_vars =
  out_pos :: nat
  out_current :: byte
  out_CRC :: u32
  out_len :: nat
  outbuf :: "byte list"

datatype out_end = Outbuf_Full | Block_Done

fun label_rank :: "out_label \<Rightarrow> nat" where
  "label_rank Dec_Copies = 1"
| "label_rank _ = 0"

text \<open>\<open>decode_next_byte\<close> up to the end of the body of the loop; the label to go to, if it does not \<open>break\<close>.\<close>

definition decode_next :: "out_vars \<Rightarrow> (out_label option \<times> out_vars) bz" where
  "decode_next v bd =
     (let bd = bd\<lparr>writeCount := writeCount bd - 1\<rparr>
      in if writeCount bd < 0 then (Inr (None, v), bd)
         else if length (dbuf bd) \<le> out_pos v then (Inl Overrun, bd)
         else
           let previous = out_current v;
               w = dbuf bd ! out_pos v;
               v = v\<lparr>out_pos := unat (drop_bit 8 w), out_current := ucast w\<rparr>;
               bd = bd\<lparr>writeRunCountdown := writeRunCountdown bd - 1\<rparr>
           in if writeRunCountdown bd \<noteq> 0 then
                (Inr (Some Put_Byte, v), if out_current v \<noteq> previous then bd\<lparr>writeRunCountdown := 4\<rparr> else bd)
              else
                let bd = bd\<lparr>writeCopies := unat (out_current v), writeRunCountdown := 5\<rparr>;
                    v = v\<lparr>out_current := previous\<rparr>
                in if writeCopies bd = 0 then (Inr (Some Decode_Next, v), bd)
                   else (Inr (Some Put_Byte, v), bd\<lparr>writeCopies := writeCopies bd - 1\<rparr>))"

lemma decode_next_shrinks:
  "decode_next v bd = (Inr (Some l, v'), bd') \<Longrightarrow>
     nat (writeCount bd') < nat (writeCount bd) \<and> out_len v' = out_len v \<and> label_rank l = 0"
  by (auto simp: decode_next_def Let_def split: if_splits)

function out_loop :: "out_label \<Rightarrow> out_vars \<Rightarrow> (out_end \<times> out_vars) bz" where
  "out_loop Dec_Copies v bd = out_loop Put_Byte v (bd\<lparr>writeCopies := writeCopies bd - 1\<rparr>)"
| "out_loop Put_Byte v bd =
     (if out_len v = 0 then (Inr (Outbuf_Full, v), bd)
      else
        let v = v\<lparr>out_len := out_len v - 1, outbuf := outbuf v @ [out_current v],
                  out_CRC := push_bit 8 (out_CRC v) XOR
                    crc32Table bd ! unat (drop_bit 24 (out_CRC v) XOR ucast (out_current v))\<rparr>
        in if writeCopies bd \<noteq> 0 then out_loop Dec_Copies v bd else out_loop Decode_Next v bd)"
| "out_loop Decode_Next v bd =
     (case decode_next v bd of
        (Inl e, bd) \<Rightarrow> (Inl e, bd)
      | (Inr (None, v), bd) \<Rightarrow> (Inr (Block_Done, v), bd)
      | (Inr (Some l, v), bd) \<Rightarrow> out_loop l v bd)"
  by pat_completeness auto
termination
  by (relation "measure (\<lambda>(l, v, bd). 2 * (out_len v + nat (writeCount bd)) + label_rank l)")
    (auto dest!: decode_next_shrinks [OF sym])

declare out_loop.simps [simp del]

text \<open>
  The loop with what follows it: \<open>outbuf_full\<close>, where the variables are saved and the result is 0, or
  the end of the block, where the result is \<open>None\<close> when the next one is due.
\<close>

definition end_block :: "out_vars \<Rightarrow> int option bz" where
  "end_block v bd =
     (let CRC = NOT (out_CRC v);
          bd' = bd\<lparr>writeCRC := CRC, totalCRC := (push_bit 1 (totalCRC bd) OR drop_bit 31 (totalCRC bd)) XOR CRC\<rparr>
      in if CRC \<noteq> headerCRC bd' then (Inr (Some RETVAL_LAST_BLOCK), bd'\<lparr>totalCRC := headerCRC bd' + 1\<rparr>)
         else (Inr None, bd'))"

definition out_block :: "out_label \<Rightarrow> out_vars \<Rightarrow> (int option \<times> out_vars) bz" where
  "out_block l v =
     bz_bind (out_loop l v) (\<lambda>(e, v).
     case e of
       Outbuf_Full \<Rightarrow>
         bz_bind (bz_upd (\<lambda>bd. bd\<lparr>writePos := out_pos v, writeCurrent := out_current v, writeCRC := out_CRC v,
                     writeCopies := writeCopies bd + 1\<rparr>)) (\<lambda>_. bz_ret (Some 0, v))
     | Block_Done \<Rightarrow> bz_bind (end_block v) (\<lambda>r. bz_ret (r, v)))"

lemma decode_next_left: "decode_next v bd = (r, bd') \<Longrightarrow> bits_left bd' = bits_left bd"
  by (auto simp: decode_next_def Let_def bits_left_def split: if_splits)

lemma out_loop_left: "out_loop l v bd = (r, bd') \<Longrightarrow> bits_left bd' = bits_left bd"
proof (induction l v bd rule: out_loop.induct)
  case (3 v bd)
  then show ?case
    by (auto simp: out_loop.simps(3) dest!: decode_next_left split: prod.splits sum.splits option.splits)
qed (auto simp: out_loop.simps(1,2) Let_def bits_left_def split: if_splits)

lemma uses_out_block: "uses 0 (out_block l v)"
proof -
  have "uses 0 (out_loop l v)" by (auto intro!: usesI simp: out_loop_left)
  moreover have "uses 0 (end_block v)" for v
    by (auto intro!: usesI simp: end_block_def bits_left_def Let_def split: if_splits)
  ultimately show ?thesis
    unfolding out_block_def
    by (intro uses_intro) (auto split: out_end.splits intro!: uses_intro simp: bits_left_def)
qed

text \<open>From the refill of the intermediate buffer on; the return value and the bytes in \<open>outbuf\<close>.\<close>

function next_blocks :: "out_vars \<Rightarrow> (int \<times> byte list) bz" where
  "next_blocks v bd =
     (case get_next_block bd of
        (Inl (Retval r), bd) \<Rightarrow>
          (Inr (if r \<noteq> RETVAL_LAST_BLOCK then r else int (out_len v), outbuf v), bd\<lparr>writeCount := r\<rparr>)
      | (Inl e, bd) \<Rightarrow> (Inl e, bd)
      | (Inr _, bd) \<Rightarrow>
          (case out_block Decode_Next (v\<lparr>out_CRC := NOT 0, out_pos := writePos bd, out_current := writeCurrent bd\<rparr>) bd of
             (Inl e, bd) \<Rightarrow> (Inl e, bd)
           | (Inr (Some r, v), bd) \<Rightarrow> (Inr (r, outbuf v), bd)
           | (Inr (None, v), bd) \<Rightarrow> next_blocks v bd))"
  by pat_completeness auto
termination
proof (relation "measure (\<lambda>(v, bd). bits_left bd)")
  fix v bd r bd1 u r' bd2 q v' and w :: "int option"
  assume "(r, bd1) = get_next_block bd" "r = Inr u"
    "(r', bd2) = out_block Decode_Next (v\<lparr>out_CRC := NOT 0, out_pos := writePos bd1, out_current := writeCurrent bd1\<rparr>) bd1"
    "r' = Inr q" "(w, v') = q" "w = None"
  then show "((v', bd2), v, bd) \<in> measure (\<lambda>(v, bd). bits_left bd)"
    using usesD [OF uses_get_next_block, of bd r bd1] usesD [OF uses_out_block, of _ _ bd1 r' bd2] by fastforce
qed simp

declare next_blocks.simps [simp del]

definition read_bunzip :: "nat \<Rightarrow> (int \<times> byte list) bz" where
  "read_bunzip len bd =
     (if writeCount bd < 0 then (Inr (writeCount bd, []), bd)
      else
        let v = \<lparr>out_pos = writePos bd, out_current = writeCurrent bd, out_CRC = writeCRC bd, out_len = len, outbuf = []\<rparr>
        in if writeCopies bd \<noteq> 0 then
             (case out_block Dec_Copies v bd of
                (Inl e, bd) \<Rightarrow> (Inl e, bd)
              | (Inr (Some r, v), bd) \<Rightarrow> (Inr (r, outbuf v), bd)
              | (Inr (None, v), bd) \<Rightarrow> next_blocks v bd)
           else next_blocks v bd)"

section \<open>Writing\<close>

text \<open>
  A call of \<open>write\<close> takes up to so many bytes, is interrupted or fails; behind the end of the list every call
  takes everything. An output is the list of what the calls will do and the bytes that were written.
\<close>

datatype write_result = Accept nat | Write_Eintr | Write_Fail

type_synonym outfile = "write_result list \<times> byte list"

fun safe_write :: "byte list \<Rightarrow> outfile \<Rightarrow> nat option \<times> outfile" where
  "safe_write buf ([], out) = (Some (length buf), [], out @ buf)"
| "safe_write buf (Accept n # w, out) = (Some (min n (length buf)), w, out @ take n buf)"
| "safe_write buf (Write_Eintr # w, out) = safe_write buf (w, out)"
| "safe_write buf (Write_Fail # w, out) = (None, w, out)"

lemma safe_write_progress:
  "safe_write buf (w, out) = (Some cc, w', out') \<Longrightarrow> buf \<noteq> [] \<Longrightarrow> length buf - cc + length w' < length buf + length w"
  by (induction buf "(w, out)" arbitrary: w rule: safe_write.induct) (auto simp: le_less_Suc_eq)

function full_write_loop :: "byte list \<Rightarrow> nat \<Rightarrow> outfile \<Rightarrow> int \<times> outfile" where
  "full_write_loop buf cnt fd =
     (if buf = [] then (int cnt, fd)
      else case safe_write buf fd of
          (None, fd) \<Rightarrow> (if cnt \<noteq> 0 then int cnt else - 1, fd)
        | (Some cc, fd) \<Rightarrow> full_write_loop (drop cc buf) (cnt + cc) fd)"
  by pat_completeness auto
termination
  by (relation "measure (\<lambda>(buf, cnt, fd). length buf + length (fst fd))") (auto dest!: safe_write_progress [OF sym])

declare full_write_loop.simps [simp del]

definition full_write :: "byte list \<Rightarrow> outfile \<Rightarrow> int \<times> outfile" where
  "full_write buf fd = full_write_loop buf 0 fd"

section \<open>start_bunzip and unpack_bz2_stream\<close>

text \<open>
  \<open>start_bunzip\<close> with a descriptor and the \<open>len\<close> bytes of \<open>inbuf\<close>, which \<open>get_bits\<close> reads first. \<open>malloc\<close>
  says how much can be allocated; \<open>xzalloc\<close> and \<open>xfunc_die\<close> end the program when that is not enough.
  \<open>BUNZIP_DATA_SIZE\<close> is \<open>sizeof(bunzip_data)\<close>.
\<close>

definition new_bunzip :: "infile \<Rightarrow> byte list \<Rightarrow> bunzip_data" where
  "new_bunzip fd buf =
     \<lparr>inbufBitCount = 0, inbufBits = 0, in_fd = fd, inbuf = buf, inbufPos = 0, writeCopies = 0, writePos = 0,
      writeRunCountdown = 0, writeCount = 0, writeCurrent = 0, headerCRC = 0, totalCRC = 0, writeCRC = 0, dbuf = [],
      dbufSize = 0, crc32Table = crc32_filltable True, selectors = replicate 32768 0,
      groups = replicate MAX_GROUPS \<lparr>limit = replicate (MAX_HUFCODE_BITS + 1) 0, base = replicate MAX_HUFCODE_BITS 0,
        permute = replicate MAX_SYMBOLS 0, minLen = 0, maxLen = 0\<rparr>\<rparr>"

definition start_bunzip :: "nat \<Rightarrow> (nat \<Rightarrow> bool) \<Rightarrow> infile \<Rightarrow> byte list \<Rightarrow> (bz_stop + int) \<times> bunzip_data" where
  "start_bunzip BUNZIP_DATA_SIZE malloc fd buf =
     (let h0 = push_bit 8 0x68 + 0x30;
          bd = new_bunzip fd buf
      in if \<not> malloc (BUNZIP_DATA_SIZE + IOBUF_SIZE) then (Inl Died, bd)
         else case get_bits 16 bd of
             (Inl (Longjmp r), bd) \<Rightarrow> (Inr r, bd)
           | (Inl e, bd) \<Rightarrow> (Inl e, bd)
           | (Inr i, bd) \<Rightarrow>
               if 9 \<le> i - h0 - 1 then (Inr RETVAL_NOT_BZIP_DATA, bd)
               else
                 let bd = bd\<lparr>dbufSize := 100000 * unat (i - h0)\<rparr>
                 in if malloc (4 * dbufSize bd) then (Inr RETVAL_OK, bd) else (Inl Died, bd))"

text \<open>
  The number of bytes that are still pending in the block, which \<open>read_bunzip\<close> lowers with every byte it
  gives, for the termination of the loop that produces output.
\<close>

definition pending :: "bunzip_data \<Rightarrow> nat" where
  "pending bd = 256 * nat (writeCount bd) + writeCopies bd"

lemma decode_next_pending:
  "decode_next v bd = (Inr (q, v'), bd') \<Longrightarrow> writeCopies bd = 0 \<Longrightarrow>
     outbuf v' = outbuf v \<and> (case q of
       None \<Rightarrow> pending bd' \<le> pending bd
     | Some l \<Rightarrow> l \<noteq> Dec_Copies \<and> (l = Decode_Next \<longrightarrow> writeCopies bd' = 0) \<and> pending bd' < pending bd)"
  using unsigned_less [of "ucast (dbuf bd ! out_pos v) :: byte", where ?'a = nat]
  by (auto simp: decode_next_def pending_def Let_def split: if_splits)

lemma out_loop_pending:
  "out_loop l v bd = (Inr (e, v'), bd') \<Longrightarrow> (l = Dec_Copies \<longrightarrow> 0 < writeCopies bd) \<Longrightarrow> (l = Decode_Next \<longrightarrow> writeCopies bd = 0) \<Longrightarrow>
     pending bd' + (if e = Outbuf_Full then 1 else 0) + length (outbuf v') \<le>
       pending bd + (if l = Put_Byte then 1 else 0) + length (outbuf v)"
proof (induction l v bd rule: out_loop.induct)
  case (1 v bd)
  then show ?case by (simp add: out_loop.simps(1) pending_def)
next
  case (2 v bd)
  then show ?case by (auto simp: out_loop.simps(2) Let_def pending_def split: if_splits)
next
  case (3 v bd)
  obtain q bd1 where q: "decode_next v bd = (q, bd1)" by (cases "decode_next v bd")
  obtain l v1 where l: "q = Inr (l, v1)"
    using 3(2) q by (auto simp: out_loop.simps(3) split: sum.splits)
  show ?case
  proof (cases l)
    case None
    then show ?thesis
      using 3(2,4) q l decode_next_pending [of v bd l v1 bd1] by (auto simp: out_loop.simps(3))
  next
    case (Some l')
    then show ?thesis
      using 3(1) [of q bd1 "(l, v1)" l v1 l'] 3(2,4) q l decode_next_pending [of v bd l v1 bd1]
      by (cases l') (auto simp: out_loop.simps(3))
  qed
qed

text \<open>The loop that produces output: \<open>None\<close> for a short write, or else the value of \<open>i\<close>.\<close>

definition output_weight :: "bunzip_data \<Rightarrow> nat" where
  "output_weight bd = (if writeCount bd < 0 then 0 else Suc (bits_left bd))"

lemma out_loop_len:
  "out_loop l v bd = (Inr (e, v'), bd') \<Longrightarrow>
     out_len v' + length (outbuf v') = out_len v + length (outbuf v) \<and> (e = Outbuf_Full \<longrightarrow> out_len v' = 0)"
proof (induction l v bd rule: out_loop.induct)
  case (3 v bd)
  then show ?case
    by (auto simp: out_loop.simps(3) decode_next_def Let_def split: if_splits sum.splits option.splits prod.splits)
next
  case (2 v bd)
  then show ?case by (auto simp: out_loop.simps(2) Let_def split: if_splits)
qed (simp add: out_loop.simps(1))

lemma next_blocks_left: "next_blocks v bd = (Inr p, bd') \<Longrightarrow> bits_left bd' < bits_left bd"
proof (induction v bd rule: next_blocks.induct)
  case (1 v bd)
  obtain r bd1 where r: "get_next_block bd = (r, bd1)" by (cases "get_next_block bd")
  have left: "\<not> cut r \<Longrightarrow> bits_left bd1 < bits_left bd" using usesD [OF uses_get_next_block r] by simp
  show ?case
  proof (cases r)
    case (Inl e)
    then show ?thesis
      using 1(2) r left by (cases e) (auto simp: next_blocks.simps [of v bd] bits_left_def)
  next
    case (Inr u)
    let ?v = "v\<lparr>out_CRC := NOT 0, out_pos := writePos bd1, out_current := writeCurrent bd1\<rparr>"
    obtain q bd2 where q: "out_block Decode_Next ?v bd1 = (q, bd2)" by (cases "out_block Decode_Next ?v bd1")
    show ?thesis
      using 1(1) [OF r [symmetric] Inr q [symmetric]] 1(2) Inr r left q usesD [OF uses_out_block q]
      by (fastforce simp: next_blocks.simps [of v bd] split: sum.splits option.splits)
  qed
qed

lemma read_bunzip_weight:
  assumes "read_bunzip len bd = (Inr (r, out), bd')" and "0 \<le> r" and "len \<noteq> 0"
  shows "output_weight bd' < output_weight bd \<or> output_weight bd' = output_weight bd \<and> pending bd' < pending bd"
proof -
  have count: "0 \<le> writeCount bd" using assms(1,2) by (auto simp: read_bunzip_def split: if_splits)
  let ?v = "\<lparr>out_pos = writePos bd, out_current = writeCurrent bd, out_CRC = writeCRC bd, out_len = len, outbuf = []\<rparr>"
  have blocks: "next_blocks v bd1 = (Inr (r, out), bd') \<Longrightarrow> bits_left bd1 \<le> bits_left bd \<Longrightarrow> ?thesis" for v bd1
    using next_blocks_left [of v bd1 _ bd'] count by (auto simp: output_weight_def)
  show ?thesis
  proof (cases "writeCopies bd = 0")
    case True
    then show ?thesis using assms(1) blocks [of ?v bd] count by (simp add: read_bunzip_def)
  next
    case False
    obtain q bd1 where q: "out_block Dec_Copies ?v bd = (q, bd1)" by (cases "out_block Dec_Copies ?v bd")
    then obtain s v1 where s: "q = Inr (s, v1)"
      using assms(1) False count by (auto simp: read_bunzip_def split: sum.splits)
    have left: "bits_left bd1 \<le> bits_left bd" using usesD [OF uses_out_block q] by simp
    show ?thesis
    proof (cases s)
      case None
      then show ?thesis using assms(1) False count q s left blocks [of v1 bd1] by (simp add: read_bunzip_def)
    next
      case (Some r1)
      then have "r1 = r" "bd1 = bd'" using assms(1) False count q s by (simp_all add: read_bunzip_def)
      then obtain v2 bd2 where loop: "out_loop Dec_Copies ?v bd = (Inr (Outbuf_Full, v2), bd2)"
          and bd': "bd' = bd2\<lparr>writePos := out_pos v2, writeCurrent := out_current v2, writeCRC := out_CRC v2,
            writeCopies := writeCopies bd2 + 1\<rparr>"
        using q s Some assms(2)
        by (auto simp: out_block_def bz_bind_def bz_upd_def bz_ret_def end_block_def Let_def RETVAL_LAST_BLOCK_def
            split: prod.splits sum.splits out_end.splits if_splits)
      have "pending bd' = pending bd2 + 1" by (simp add: bd' pending_def)
      then show ?thesis
        using out_loop_pending [OF loop] out_loop_len [OF loop] False assms(3) out_loop_left [OF loop] count
        by (auto simp: output_weight_def bd' bits_left_def)
    qed
  qed
qed

lemma uses_next_blocks: "uses 0 (next_blocks v)"
proof (rule usesI)
  fix bd r bd'
  assume eq: "next_blocks v bd = (r, bd')"
  have "bits_left bd' \<le> bits_left bd" using eq
  proof (induction v bd rule: next_blocks.induct)
    case (1 v bd)
    obtain r1 bd1 where r: "get_next_block bd = (r1, bd1)" by (cases "get_next_block bd")
    have left: "bits_left bd1 \<le> bits_left bd" using usesD [OF uses_get_next_block r] by simp
    show ?case
    proof (cases r1)
      case (Inl e)
      then show ?thesis
        using 1(2) r left by (cases e) (auto simp: next_blocks.simps [of v bd] bits_left_def)
    next
      case (Inr u)
      let ?v = "v\<lparr>out_CRC := NOT 0, out_pos := writePos bd1, out_current := writeCurrent bd1\<rparr>"
      obtain q bd2 where q: "out_block Decode_Next ?v bd1 = (q, bd2)" by (cases "out_block Decode_Next ?v bd1")
      show ?thesis
        using 1(1) [OF r [symmetric] Inr q [symmetric]] 1(2) Inr r left q usesD [OF uses_out_block q]
        by (fastforce simp: next_blocks.simps [of v bd] split: sum.splits option.splits)
    qed
  qed
  then show "bits_left bd' + (if cut r then 0 else 0) \<le> bits_left bd" by simp
qed

lemma uses_read_bunzip: "uses 0 (read_bunzip n)"
proof (rule usesI)
  fix bd r bd'
  assume eq: "read_bunzip n bd = (r, bd')"
  let ?v = "\<lparr>out_pos = writePos bd, out_current = writeCurrent bd, out_CRC = writeCRC bd, out_len = n, outbuf = []\<rparr>"
  obtain q bd1 where q: "out_block Dec_Copies ?v bd = (q, bd1)" by (cases "out_block Dec_Copies ?v bd")
  show "bits_left bd' + (if cut r then 0 else 0) \<le> bits_left bd"
    using eq q usesD [OF uses_out_block q] usesD [OF uses_next_blocks, of _ bd1 r bd'] usesD [OF uses_next_blocks, of _ bd r bd']
    by (fastforce simp: read_bunzip_def Let_def split: if_splits sum.splits option.splits)
qed

section \<open>unpack_bz2_stream\<close>

text \<open>
  The loop that produces some output bytes: \<open>None\<close> for a short write, or the value of \<open>i\<close>. The frame of
  \<open>start_bunzip\<close>, where \<open>setjmp\<close> was called, is gone here, so that a \<open>longjmp\<close> is undefined.
\<close>

function produce :: "bunzip_data \<Rightarrow> outfile \<Rightarrow> (bz_stop + int option) \<times> bunzip_data \<times> outfile" where
  "produce bd dst =
     (case read_bunzip IOBUF_SIZE bd of
        (Inl (Longjmp _), bd) \<Rightarrow> (Inl Undefined, bd, dst)
      | (Inl e, bd) \<Rightarrow> (Inl e, bd, dst)
      | (Inr (r, out), bd) \<Rightarrow>
          if r < 0 then (Inr (Some r), bd, dst)
          else
            let i = IOBUF_SIZE - nat r
            in if i = 0 then (Inr (Some 0), bd, dst)
               else case full_write (take i out) dst of
                   (n, dst) \<Rightarrow> if n \<noteq> int i then (Inr None, bd, dst) else produce bd dst)"
  by pat_completeness auto
termination
proof (relation "inv_image (less_than <*lex*> less_than) (\<lambda>(bd, dst). (output_weight bd, pending bd))")
  fix bd dst p bd1 u r out i q n and dst1 :: outfile
  assume "(p, bd1) = read_bunzip IOBUF_SIZE bd" "p = Inr u" "(r, out) = u" "\<not> r < 0"
  then show "((bd1, dst1), bd, dst) \<in> inv_image (less_than <*lex*> less_than) (\<lambda>(bd, dst). (output_weight bd, pending bd))"
    using read_bunzip_weight [of IOBUF_SIZE bd r out bd1] by (auto simp: IOBUF_SIZE_def)
qed auto

declare produce.simps [simp del]

lemma produce_left: "produce bd dst = (r, bd', dst') \<Longrightarrow> bits_left bd' \<le> bits_left bd"
proof (induction bd dst rule: produce.induct)
  case (1 bd dst)
  obtain p bd1 where p: "read_bunzip IOBUF_SIZE bd = (p, bd1)" by (cases "read_bunzip IOBUF_SIZE bd")
  have left: "bits_left bd1 \<le> bits_left bd" using usesD [OF uses_read_bunzip p] by simp
  show ?case
  proof (cases p)
    case (Inl e)
    then show ?thesis using 1(2) p left by (cases e) (auto simp: produce.simps [of bd dst])
  next
    case (Inr u)
    obtain r1 out where u: "u = (r1, out)" by (cases u)
    obtain n dst1 where w: "full_write (take (IOBUF_SIZE - nat r1) out) dst = (n, dst1)"
      by (cases "full_write (take (IOBUF_SIZE - nat r1) out) dst")
    show ?thesis
      using 1(1) [OF p [symmetric] Inr u [symmetric] _ refl _ w [symmetric]] 1(2) Inr p left u w
      by (auto simp: produce.simps [of bd dst] Let_def split: if_splits)
  qed
qed

text \<open>The test for \<open>BZ\<close> behind a stream: what is in the buffer then, starting with it.\<close>

definition next_magic :: "byte list \<Rightarrow> infile \<Rightarrow> byte list option \<times> infile" where
  "next_magic buf fd =
     (case (if length buf < 2 then safe_read (2 - length buf) fd else (Some [], fd)) of
        (None, fd) \<Rightarrow> (None, fd)
      | (Some bs, fd) \<Rightarrow>
          if length buf + length bs < 2 \<or> take 2 (buf @ bs) \<noteq> [0x42, 0x5A] then (None, fd)
          else (Some (buf @ bs), fd))"

lemma safe_read_bytes: "safe_read n fd = (Some bs, fd') \<Longrightarrow> length bs + fd_bytes fd' = fd_bytes fd"
  by (induction n fd rule: safe_read.induct) (auto split: if_splits)

lemma next_magic_bytes: "next_magic buf fd = (Some buf', fd') \<Longrightarrow> 2 \<le> length buf' \<and> length buf' + fd_bytes fd' = length buf + fd_bytes fd"
  by (auto simp: next_magic_def split: if_splits prod.splits option.splits dest!: safe_read_bytes)

lemma start_bunzip_left: "start_bunzip sz malloc fd buf = (r, bd) \<Longrightarrow> bits_left bd \<le> 8 * (length buf + fd_bytes fd)"
proof -
  assume start: "start_bunzip sz malloc fd buf = (r, bd)"
  obtain q bd1 where q: "get_bits 16 (new_bunzip fd buf) = (q, bd1)" by (cases "get_bits 16 (new_bunzip fd buf)")
  have new: "bits_left (new_bunzip fd buf) = 8 * (length buf + fd_bytes fd)" by (simp add: bits_left_def new_bunzip_def)
  then have "bits_left bd1 \<le> 8 * (length buf + fd_bytes fd)" using usesD [OF uses_get_bits0 q] by simp
  then show ?thesis
    using start q new by (auto simp: start_bunzip_def Let_def bits_left_def split: if_splits sum.splits bz_stop.splits)
qed

text \<open>What \<open>xzalloc\<close>, \<open>malloc_or_warn\<close> and \<open>xmalloc\<close> say.\<close>

definition memory_exhausted :: "bb_msg list" where
  "memory_exhausted = [Error_Msg (bytes_of ''memory exhausted'')]"

function unpack_loop ::
  "nat \<Rightarrow> (nat \<Rightarrow> bool) \<Rightarrow> infile \<Rightarrow> byte list \<Rightarrow> outfile \<Rightarrow> (bz_stop + int) \<times> bb_msg list \<times> infile \<times> outfile" where
  "unpack_loop sz malloc src buf dst =
     (case start_bunzip sz malloc src buf of
        (Inl e, bd) \<Rightarrow> (Inl e, if e = Died then memory_exhausted else [], in_fd bd, dst)
      | (Inr i, bd) \<Rightarrow>
          (case (if i = 0 then produce bd dst else (Inr (Some i), bd, dst)) of
             (Inl e, bd, dst) \<Rightarrow> (Inl e, [], in_fd bd, dst)
           | (Inr None, bd, dst) \<Rightarrow> (Inr RETVAL_SHORT_WRITE, [Error_Msg (bytes_of ''short write'')], in_fd bd, dst)
           | (Inr (Some i), bd, dst) \<Rightarrow>
               if i \<noteq> RETVAL_LAST_BLOCK then (Inr i, [Error_Msg (bytes_of ''bunzip error '' @ decimal i)], in_fd bd, dst)
               else if headerCRC bd \<noteq> totalCRC bd then (Inr i, [Error_Msg (bytes_of ''CRC error'')], in_fd bd, dst)
               else
                 (case next_magic (drop (inbufPos bd) (inbuf bd)) (in_fd bd) of
                    (None, src) \<Rightarrow> (Inr RETVAL_OK, [], src, dst)
                  | (Some buf, src) \<Rightarrow> unpack_loop sz malloc src (drop 2 buf) dst)))"
  by pat_completeness auto
termination
proof (relation "measure (\<lambda>(sz, malloc, src, buf, dst). length buf + fd_bytes src)")
  fix sz malloc src buf dst p bd i q bd1 dst1 m src1 buf1
  fix x :: "bunzip_data \<times> outfile"
  assume start: "(p, bd) = start_bunzip sz malloc src buf"
    and out: "(q, x) = (if i = 0 then produce bd dst else (Inr (Some i), bd, dst))" "(bd1, dst1) = x"
    and magic: "(m, src1) = next_magic (drop (inbufPos bd1) (inbuf bd1)) (in_fd bd1)" "m = Some buf1"
  have "bits_left bd1 \<le> bits_left bd"
    using out produce_left [of bd dst q bd1 dst1] by (simp split: if_splits)
  also have "\<dots> \<le> 8 * (length buf + fd_bytes src)"
    using start_bunzip_left start by metis
  finally have "length (drop (inbufPos bd1) (inbuf bd1)) + fd_bytes (in_fd bd1) \<le> length buf + fd_bytes src"
    by (simp add: bits_left_def)
  moreover have "2 \<le> length buf1" "length buf1 + fd_bytes src1 = length (drop (inbufPos bd1) (inbuf bd1)) + fd_bytes (in_fd bd1)"
    using next_magic_bytes [OF magic(1) [symmetric, unfolded magic(2)]] by auto
  ultimately have "length buf1 - 2 + fd_bytes src1 < length buf + fd_bytes src"
    by linarith
  then show "((sz, malloc, src1, drop 2 buf1, dst1), sz, malloc, src, buf, dst) \<in>
      measure (\<lambda>(sz, malloc, src, buf, dst). length buf + fd_bytes src)"
    by simp
qed auto

declare unpack_loop.simps [simp del]

definition unpack_bz2_stream :: "nat \<Rightarrow> (nat \<Rightarrow> bool) \<Rightarrow> infile \<Rightarrow> outfile \<Rightarrow> (bz_stop + int) \<times> bb_msg list \<times> infile \<times> outfile" where
  "unpack_bz2_stream sz malloc src dst =
     (if malloc IOBUF_SIZE then unpack_loop sz malloc src [] dst else (Inl Died, memory_exhausted, src, dst))"

text \<open>\<open>xread\<close> of two bytes, which dies with a message for fewer, and the first test for \<open>BZ\<close>.\<close>

definition unpack_bz2_stream_prime ::
  "nat \<Rightarrow> (nat \<Rightarrow> bool) \<Rightarrow> infile \<Rightarrow> outfile \<Rightarrow> (bz_stop + int) \<times> bb_msg list \<times> infile \<times> outfile" where
  "unpack_bz2_stream_prime sz malloc src dst =
     (case full_read 2 src of
        (None, src) \<Rightarrow> (Inl Died, [Error_Msg (bytes_of ''short read'')], src, dst)
      | (Some magic2, src) \<Rightarrow>
          if length magic2 \<noteq> 2 then (Inl Died, [Error_Msg (bytes_of ''short read'')], src, dst)
          else if magic2 \<noteq> [0x42, 0x5A] then (Inl Died, [Error_Msg (bytes_of ''invalid magic'')], src, dst)
          else unpack_bz2_stream sz malloc src dst)"

end
