(* ===== verification/Bz_Output.thy ===== *)
theory Bz_Output
  imports Bz_Block Bb_Unbzip
begin

text \<open>
  The bytes that \<open>read_bunzip\<close> gives: the block, found along the links, with its runs undone. They do not depend
  on how many bytes are asked for at a time.
\<close>

section \<open>Runs of a block\<close>

text \<open>
  After four equal bytes, the next one says how often that byte is repeated; \<open>k\<close> counts the equal bytes before,
  which are \<open>prev\<close>. The encoder writes runs of at most 259.
\<close>

fun unrun :: "nat \<Rightarrow> byte \<Rightarrow> byte list \<Rightarrow> byte list" where
  "unrun k prev [] = []"
| "unrun k prev (b # bs) =
     (if k = 4 then replicate (unat b) prev @ unrun 0 prev bs
      else b # unrun (if b = prev \<and> k \<noteq> 0 then k + 1 else 1) b bs)"

definition run_bytes :: "byte \<Rightarrow> nat \<Rightarrow> byte list" where
  "run_bytes b n = (if n < 4 then replicate n b else replicate 4 b @ [of_nat (n - 4)])"

fun runs_from :: "byte \<Rightarrow> nat \<Rightarrow> byte list \<Rightarrow> byte list" where
  "runs_from b n [] = run_bytes b n"
| "runs_from b n (x # xs) =
     (if x = b \<and> n < 259 then runs_from b (n + 1) xs else run_bytes b n @ runs_from x 1 xs)"

definition runs :: "byte list \<Rightarrow> byte list" where
  "runs xs = (if xs = [] then [] else runs_from (hd xs) 1 (tl xs))"

lemma unrun_same: "k + n \<le> 4 \<Longrightarrow> 0 < k \<Longrightarrow> unrun k b (replicate n b @ ys) = replicate n b @ unrun (k + n) b ys"
  by (induction n arbitrary: k) auto

lemma unrun_start:
  assumes "0 < n" and "n \<le> 4" and "k = 0 \<or> k < 4 \<and> prev \<noteq> b"
  shows "unrun k prev (replicate n b @ ys) = replicate n b @ unrun n b ys"
proof -
  obtain m where "n = Suc m" using assms(1) by (cases n) auto
  then show ?thesis using assms unrun_same [of 1 m b ys] by auto
qed

lemma unrun_other: "k < 4 \<Longrightarrow> c \<noteq> b \<Longrightarrow> unrun k b (c # cs) = unrun 0 b (c # cs)"
  by simp

lemma unrun_run:
  assumes "0 < n" and "n \<le> 259" and "n < 4 \<Longrightarrow> ys = [] \<or> hd ys \<noteq> b" and "k = 0 \<or> k < 4 \<and> prev \<noteq> b"
  shows "unrun k prev (run_bytes b n @ ys) = replicate n b @ unrun 0 b ys"
proof (cases "n < 4")
  case True
  have "unrun n b ys = unrun 0 b ys"
    using assms(3) [OF True] True by (cases ys) auto
  then show ?thesis
    using unrun_start [of n k prev b ys] assms True by (simp add: run_bytes_def)
next
  case False
  have "unrun 4 b (of_nat (n - 4) # ys) = replicate (n - 4) b @ unrun 0 b ys"
    using assms(2) by (simp add: unat_of_nat)
  moreover have "replicate n b = replicate 4 b @ replicate (n - 4) b"
    using False by (simp flip: replicate_add)
  ultimately show ?thesis
    using unrun_start [of 4 k prev b "of_nat (n - 4) # ys"] assms(4) False by (simp add: run_bytes_def)
qed

lemma runs_from_hd: "0 < n \<Longrightarrow> runs_from b n xs \<noteq> [] \<and> hd (runs_from b n xs) = b"
  by (induction b n xs rule: runs_from.induct) (auto simp: run_bytes_def hd_append)

lemma unrun_runs_from:
  "0 < n \<Longrightarrow> n \<le> 259 \<Longrightarrow> unrun 0 prev (runs_from b n xs) = replicate n b @ xs"
proof (induction b n xs arbitrary: prev rule: runs_from.induct)
  case (1 b n)
  then show ?case using unrun_run [of n "[]" b 0] by simp
next
  case (2 b n x xs)
  show ?case
  proof (cases "x = b \<and> n < 259")
    case True
    then show ?thesis using 2 by (simp add: replicate_append_same flip: replicate_app_Cons_same)
  next
    case False
    then have "n < 4 \<Longrightarrow> hd (runs_from x 1 xs) \<noteq> b" using runs_from_hd [of 1 x xs] by auto
    then show ?thesis using 2 False unrun_run [of n "runs_from x 1 xs" b 0] by auto
  qed
qed

theorem unrun_runs: "unrun 0 prev (runs xs) = xs"
  using unrun_runs_from [of 1 prev "hd xs" "tl xs"] by (simp add: runs_def)

section \<open>The loop\<close>

definition pends :: "out_label \<Rightarrow> byte \<Rightarrow> nat \<Rightarrow> byte list \<Rightarrow> byte list \<Rightarrow> bool" where
  "pends l c copies after T \<longleftrightarrow>
     (case l of
        Decode_Next \<Rightarrow> copies = 0 \<and> T = after
      | Put_Byte \<Rightarrow> T = c # replicate copies c @ after
      | Dec_Copies \<Rightarrow> copies \<noteq> 0 \<and> T = replicate copies c @ after)"

definition at_block :: "byte list \<Rightarrow> nat \<Rightarrow> out_label \<Rightarrow> out_vars \<Rightarrow> bunzip_data \<Rightarrow> byte list \<Rightarrow> bool" where
  "at_block s p l v bd T \<longleftrightarrow> dbuf bd = linked (last_column s) (length s) \<and>
     (\<exists>j k. j \<le> length s \<and> k \<le> 4 \<and> writeCount bd = int (length s - j) \<and>
        out_pos v = follow (links (last_column s)) p (j + 1) \<and> writeRunCountdown bd = 5 - k \<and>
        pends l (out_current v) (writeCopies bd) (unrun k (out_current v) (drop j s)) T)"

lemma at_blockI:
  assumes "dbuf bd = linked (last_column s) (length s)" "j \<le> length s" "k \<le> 4" "writeCount bd = int (length s - j)"
    "out_pos v = follow (links (last_column s)) p (j + 1)" "writeRunCountdown bd = 5 - k"
    "pends l (out_current v) (writeCopies bd) (unrun k (out_current v) (drop j s)) T"
  shows "at_block s p l v bd T"
  unfolding at_block_def by (intro conjI exI [of _ j] exI [of _ k] assms)

lemma at_block_map:
  assumes "at_block s p l v bd T" "dbuf bd' = dbuf bd" "writeCount bd' = writeCount bd"
    "writeRunCountdown bd' = writeRunCountdown bd" "out_pos v' = out_pos v" "out_current v' = out_current v"
    "\<And>after. pends l (out_current v) (writeCopies bd) after T \<Longrightarrow> pends l' (out_current v) (writeCopies bd') after T'"
  shows "at_block s p l' v' bd' T'"
proof -
  obtain j k where "j \<le> length s" "k \<le> 4" "writeCount bd = int (length s - j)"
      "out_pos v = follow (links (last_column s)) p (j + 1)" "writeRunCountdown bd = 5 - k"
      "pends l (out_current v) (writeCopies bd) (unrun k (out_current v) (drop j s)) T"
      "dbuf bd = linked (last_column s) (length s)"
    using assms(1) by (auto simp: at_block_def)
  then show ?thesis using assms(2-6) assms(7) by (intro at_blockI [of _ _ j k]) simp_all
qed

text \<open>Only the counters of the output have changed.\<close>

definition counters_only :: "bunzip_data \<Rightarrow> bunzip_data \<Rightarrow> bool" where
  "counters_only bd bd' \<longleftrightarrow> bd' = bd\<lparr>writeCount := writeCount bd', writeRunCountdown := writeRunCountdown bd', writeCopies := writeCopies bd'\<rparr>"

lemma counters_only_refl [simp]: "counters_only bd bd"
  by (simp add: counters_only_def)

lemma counters_only_trans: "counters_only a b \<Longrightarrow> counters_only b c \<Longrightarrow> counters_only a c"
  by (cases a, cases b, cases c) (simp add: counters_only_def)

lemma decode_next_block:
  assumes "at_block s p Decode_Next v bd T" and "p < length s" and "rotations s ! p = s" and "length s < 2 ^ 24"
  shows "(\<exists>bd'. decode_next v bd = (Inr (None, v), bd') \<and> T = [] \<and> counters_only bd bd' \<and> writeCopies bd' = 0) \<or>
    (\<exists>l v' bd'. decode_next v bd = (Inr (Some l, v'), bd') \<and> at_block s p l v' bd' T \<and> counters_only bd bd' \<and>
       out_len v' = out_len v \<and> outbuf v' = outbuf v \<and> out_CRC v' = out_CRC v)"
proof -
  let ?col = "last_column s" and ?n = "length s"
  obtain j k where j: "j \<le> ?n" "k \<le> 4" "writeCount bd = int (?n - j)" "out_pos v = follow (links ?col) p (j + 1)"
      "writeRunCountdown bd = 5 - k" "writeCopies bd = 0" "T = unrun k (out_current v) (drop j s)"
    and dbuf: "dbuf bd = linked ?col ?n"
    using assms(1) by (auto simp: at_block_def pends_def)
  show ?thesis
  proof (cases "j = ?n")
    case True
    then show ?thesis using j by (auto simp: decode_next_def Let_def counters_only_def)
  next
    case False
    then have jn: "j < ?n" using j(1) by simp
    let ?pos = "follow (links ?col) p (j + 1)"
    have pos: "?pos < ?n" "?col ! ?pos = s ! j"
      using follow_rotations [OF assms(2,3), of "j + 1"] last_rotate [OF jn] by (auto simp: last_column_def)
    have w: "ucast (dbuf bd ! ?pos) = s ! j" "unat (drop_bit 8 (dbuf bd ! ?pos)) = follow (links ?col) p (Suc j + 1)"
      using linked_low [of ?pos ?col ?n] linked_high [of ?pos ?col] pos assms(4) by (simp_all add: dbuf follow_def)
    have drop: "drop j s = s ! j # drop (Suc j) s" using jn by (simp add: Cons_nth_drop_Suc)
    have len: "length (dbuf bd) = ?n" by (simp add: dbuf linked_def)
    have count: "writeCount bd - 1 = int (?n - Suc j)" "\<not> writeCount bd - 1 < 0" using j(3) jn by simp_all
    have here: "dbuf bd ! out_pos v = dbuf bd ! ?pos" "out_pos v < length (dbuf bd)" using j(4) len pos by simp_all
    let ?previous = "out_current v" and ?v = "v\<lparr>out_pos := follow (links ?col) p (Suc j + 1), out_current := s ! j\<rparr>"
    let ?bd = "bd\<lparr>writeCount := writeCount bd - 1\<rparr>"
    show ?thesis
    proof (cases "k = 4")
      case True
      have T: "T = replicate (unat (s ! j)) ?previous @ unrun 0 ?previous (drop (Suc j) s)"
        using j(7) drop True by simp
      define l where "l = (if s ! j = 0 then Decode_Next else Put_Byte)"
      let ?v' = "?v\<lparr>out_current := ?previous\<rparr>" and ?bd' = "?bd\<lparr>writeRunCountdown := 5, writeCopies := unat (s ! j) - 1\<rparr>"
      have step: "decode_next v bd = (Inr (Some l, ?v'), ?bd')"
        using j(5) True w here count(2) by (auto simp: decode_next_def Let_def l_def unat_eq_zero)
      have "replicate (unat (s ! j)) ?previous = ?previous # replicate (unat (s ! j) - 1) ?previous" if "s ! j \<noteq> 0"
        using that by (cases "unat (s ! j)") (simp_all add: unat_eq_zero)
      then have "at_block s p l ?v' ?bd' T"
        using dbuf jn count T by (intro at_blockI [of _ _ "Suc j" 0]) (auto simp: l_def pends_def split: if_splits)
      then show ?thesis using step by (auto simp: counters_only_def)
    next
      case False
      let ?k = "if s ! j = ?previous \<and> k \<noteq> 0 then k + 1 else 1"
      let ?bd' = "?bd\<lparr>writeRunCountdown := 5 - ?k\<rparr>"
      have T: "T = s ! j # unrun ?k (s ! j) (drop (Suc j) s)"
        using j(7) drop False by simp
      have step: "decode_next v bd = (Inr (Some Put_Byte, ?v), ?bd')"
        using j(2,5) False w here count(2) by (auto simp: decode_next_def Let_def)
      have "at_block s p Put_Byte ?v ?bd' T"
        using dbuf jn count T j(2,6) False by (intro at_blockI [of _ _ "Suc j" ?k]) (auto simp: pends_def)
      then show ?thesis using step by (auto simp: counters_only_def)
    qed
  qed
qed

text \<open>
  What the loop gives when \<open>T\<close> is pending: all of it and the end of the block when there is room, or else as much
  as there is room for, and the rest of it stays pending.
\<close>

definition gives :: "byte list \<Rightarrow> nat \<Rightarrow> out_vars \<Rightarrow> bunzip_data \<Rightarrow> byte list \<Rightarrow>
    (bz_stop + out_end \<times> out_vars) \<times> bunzip_data \<Rightarrow> bool" where
  "gives s p v bd T r \<longleftrightarrow>
     (\<exists>e v' bd'. r = (Inr (e, v'), bd') \<and> counters_only bd bd' \<and> out_len v' = out_len v - length T \<and>
        outbuf v' = outbuf v @ take (out_len v) T \<and>
        out_CRC v' = crc32_block_endian1 (out_CRC v) (take (out_len v) T) (crc32Table bd) \<and>
        (if length T \<le> out_len v then e = Block_Done \<and> writeCopies bd' = 0
         else e = Outbuf_Full \<and> at_block s p Put_Byte v' bd' (drop (out_len v) T)))"

lemma counters_only_fields:
  assumes "counters_only bd bd'"
  shows "crc32Table bd' = crc32Table bd" and "headerCRC bd' = headerCRC bd" and "totalCRC bd' = totalCRC bd"
    and "dbuf bd' = dbuf bd" and "dbufSize bd' = dbufSize bd" and "selectors bd' = selectors bd" and "groups bd' = groups bd"
    and "bits_wf bd' = bits_wf bd" and "bit_stream bd' = bit_stream bd" and "rest_bytes bd' = rest_bytes bd"
    and "in_fd bd' = in_fd bd"
  using assms by (cases bd, cases bd', simp add: counters_only_def bits_wf_def bit_stream_def rest_bytes_def)+

lemma gives_later:
  assumes "counters_only bd bd0" and "gives s p v0 bd0 T r" and "out_len v0 = out_len v" and "outbuf v0 = outbuf v"
    and "out_CRC v0 = out_CRC v"
  shows "gives s p v bd T r"
  using assms(2) counters_only_fields(1) [OF assms(1)] counters_only_trans [OF assms(1)]
  unfolding gives_def assms(3-5) by (elim exE conjE) (intro exI conjI; simp)

lemma gives_step:
  assumes "gives s p w bd U r" and "out_len v = Suc (out_len w)" and "outbuf w = outbuf v @ [c]"
    and "out_CRC w = push_bit 8 (out_CRC v) XOR crc32Table bd ! unat (drop_bit 24 (out_CRC v) XOR ucast c)"
  shows "gives s p v bd (c # U) r"
proof -
  have "crc32_block_endian1 (out_CRC w) X (crc32Table bd) = crc32_block_endian1 (out_CRC v) (c # X) (crc32Table bd)" for X
    by (simp add: crc32_block_endian1_def assms(4))
  moreover obtain e v' bd' where "r = (Inr (e, v'), bd')" "counters_only bd bd'" "out_len v' = out_len w - length U"
      "outbuf v' = outbuf w @ take (out_len w) U"
      "out_CRC v' = crc32_block_endian1 (out_CRC w) (take (out_len w) U) (crc32Table bd)"
      "if length U \<le> out_len w then e = Block_Done \<and> writeCopies bd' = 0
        else e = Outbuf_Full \<and> at_block s p Put_Byte v' bd' (drop (out_len w) U)"
    using assms(1) unfolding gives_def by blast
  ultimately show ?thesis
    unfolding gives_def by (intro exI [of _ e] exI [of _ v'] exI [of _ bd']) (simp add: assms(2,3))
qed

lemma out_loop_gives:
  assumes "at_block s p l v bd T" and "p < length s" and "rotations s ! p = s" and "length s < 2 ^ 24"
  shows "gives s p v bd T (out_loop l v bd)"
  using assms(1)
proof (induction l v bd arbitrary: T rule: out_loop.induct)
  case (1 v bd)
  let ?bd = "bd\<lparr>writeCopies := writeCopies bd - 1\<rparr>"
  have "replicate (writeCopies bd) c = c # replicate (writeCopies bd - 1) c" if "writeCopies bd \<noteq> 0" for c :: byte
    using that by (cases "writeCopies bd") simp_all
  then have "at_block s p Put_Byte v ?bd T" by (intro at_block_map [OF 1(2)]) (auto simp: pends_def)
  from 1(1) [OF this] have "gives s p v ?bd T (out_loop Dec_Copies v bd)" by (simp add: out_loop.simps(1))
  moreover have "counters_only bd ?bd" by (simp add: counters_only_def)
  ultimately show ?case using gives_later by blast
next
  case (2 v bd)
  obtain U where U: "T = out_current v # U"
    using 2(3) by (auto simp: at_block_def pends_def)
  show ?case
  proof (cases "out_len v = 0")
    case True
    then show ?thesis
      using 2(3) U by (simp add: out_loop.simps(2) gives_def crc32_block_endian1_def)
  next
    case False
    let ?v = "v\<lparr>out_len := out_len v - 1, outbuf := outbuf v @ [out_current v],
        out_CRC := push_bit 8 (out_CRC v) XOR crc32Table bd ! unat (drop_bit 24 (out_CRC v) XOR ucast (out_current v))\<rparr>"
    have "at_block s p (if writeCopies bd \<noteq> 0 then Dec_Copies else Decode_Next) ?v bd U"
      by (rule at_block_map [OF 2(3)]) (auto simp: pends_def U)
    then have "gives s p ?v bd U (out_loop (if writeCopies bd \<noteq> 0 then Dec_Copies else Decode_Next) ?v bd)"
      using 2(1) [OF False refl] 2(2) [OF False refl] by (cases "writeCopies bd = 0") simp_all
    moreover have "out_loop Put_Byte v bd = out_loop (if writeCopies bd \<noteq> 0 then Dec_Copies else Decode_Next) ?v bd"
      using False by (simp add: out_loop.simps(2) Let_def)
    ultimately have "gives s p ?v bd U (out_loop Put_Byte v bd)" by (simp only:)
    then show ?thesis
      unfolding U by (rule gives_step) (use False in simp_all)
  qed
next
  case (3 v bd)
  consider bd' where "decode_next v bd = (Inr (None, v), bd')" "T = []" "counters_only bd bd'" "writeCopies bd' = 0"
    | l v' bd' where "decode_next v bd = (Inr (Some l, v'), bd')" "at_block s p l v' bd' T" "counters_only bd bd'"
        "out_len v' = out_len v" "outbuf v' = outbuf v" "out_CRC v' = out_CRC v"
    using decode_next_block [OF 3(2) assms(2-4)] by blast
  then show ?case
  proof cases
    case 1
    then show ?thesis by (simp add: out_loop.simps(3) gives_def crc32_block_endian1_def)
  next
    case 2
    have "gives s p v' bd' T (out_loop Decode_Next v bd)"
      using 3(1) [OF 2(1) [symmetric] refl refl refl 2(2)] 2(1) by (simp add: out_loop.simps(3))
    then show ?thesis
      by (rule gives_later [OF 2(3)]) (simp_all add: 2(4-6))
  qed
qed

end
