(* ===== verification/Bz_File.thy ===== *)
theory Bz_File
  imports Bz_Output
begin

text \<open>
  A whole \<open>.bz2\<close> stream: blocks behind each other and the footer with the CRC of them all. \<open>read_bunzip\<close> gives the
  data in pieces of any length, and \<open>unpack_bz2_stream\<close> writes it all.
\<close>

section \<open>The stream\<close>

text \<open>A block as an encoder makes it: its data, and the choices of the encoder.\<close>

record bz_block =
  block_data :: "byte list"
  origin :: nat
  code_lengths :: "nat list list"
  code_choice :: "nat list"

definition block_ok :: "nat \<Rightarrow> bz_block \<Rightarrow> bool" where
  "block_ok dbuf_size b \<longleftrightarrow>
     (let s = runs (block_data b)
      in block_data b \<noteq> [] \<and> length s < dbuf_size \<and> origin b < length s \<and> rotations s ! origin b = s \<and>
         codes_ok (code_lengths b) (code_choice b) s)"

definition block_crc :: "byte list \<Rightarrow> u32" where
  "block_crc data = NOT (crc32_block_endian1 (NOT 0) data (crc32_filltable True))"

definition roll_crc :: "u32 \<Rightarrow> u32 \<Rightarrow> u32" where
  "roll_crc all crc = (push_bit 1 all OR drop_bit 31 all) XOR crc"

definition footer_bits :: "u32 \<Rightarrow> bool list" where
  "footer_bits all = nat_bits 24 0x177245 @ nat_bits 24 0x385090 @ low_bits 32 all"

fun stream_bits :: "u32 \<Rightarrow> bz_block list \<Rightarrow> bool list" where
  "stream_bits all [] = footer_bits all"
| "stream_bits all (b # bs) =
     block_bits (block_crc (block_data b)) (origin b) (code_lengths b) (code_choice b) (runs (block_data b)) @
     stream_bits (roll_crc all (block_crc (block_data b))) bs"

definition blocks_data :: "bz_block list \<Rightarrow> byte list" where
  "blocks_data bs = concat (map block_data bs)"

section \<open>States in the middle of a stream\<close>

text \<open>The blocks \<open>bs\<close> are to be read, \<open>rest\<close> is behind the stream, and \<open>F\<close> is what ends the data.\<close>

definition expects :: "bz_block list \<Rightarrow> bool list \<Rightarrow> infile \<Rightarrow> bunzip_data \<Rightarrow> bool" where
  "expects bs rest F bd \<longleftrightarrow> bits_wf bd \<and> bunzip_wf bd \<and> crc32Table bd = crc32_filltable True \<and> writeCopies bd = 0 \<and>
     (\<forall>b\<in>set bs. block_ok (dbufSize bd) b) \<and> bit_stream bd = stream_bits (totalCRC bd) bs @ rest \<and>
     fd_behind (in_fd bd) = F"

text \<open>As well, the bytes \<open>T\<close> of a block are pending.\<close>

definition amid :: "byte list \<Rightarrow> nat \<Rightarrow> byte list \<Rightarrow> bz_block list \<Rightarrow> bool list \<Rightarrow> infile \<Rightarrow> bunzip_data \<Rightarrow> out_vars \<Rightarrow>
    out_label \<Rightarrow> bool" where
  "amid s p T bs rest F bd v l \<longleftrightarrow> bits_wf bd \<and> bunzip_wf bd \<and> crc32Table bd = crc32_filltable True \<and>
     p < length s \<and> rotations s ! p = s \<and> length s < dbufSize bd \<and>
     at_block s p l v bd T \<and> NOT (crc32_block_endian1 (out_CRC v) T (crc32Table bd)) = headerCRC bd \<and>
     (\<forall>b\<in>set bs. block_ok (dbufSize bd) b) \<and>
     bit_stream bd = stream_bits (roll_crc (totalCRC bd) (headerCRC bd)) bs @ rest \<and> fd_behind (in_fd bd) = F"

definition holds :: "byte list \<Rightarrow> bool list \<Rightarrow> infile \<Rightarrow> bunzip_data \<Rightarrow> bool" where
  "holds X rest F bd \<longleftrightarrow> 0 \<le> writeCount bd \<and>
     ((\<exists>bs. expects bs rest F bd \<and> X = blocks_data bs) \<or>
      (\<exists>s p T bs v. amid s p T bs rest F bd v Dec_Copies \<and> X = T @ blocks_data bs \<and>
         out_pos v = writePos bd \<and> out_current v = writeCurrent bd \<and> out_CRC v = writeCRC bd))"

text \<open>At the end, less than a byte of the stream is left in \<open>inbufBits\<close>.\<close>

definition finished :: "bool list \<Rightarrow> infile \<Rightarrow> bunzip_data \<Rightarrow> bool" where
  "finished rest F bd \<longleftrightarrow> writeCount bd = RETVAL_LAST_BLOCK \<and> headerCRC bd = totalCRC bd \<and> bits_wf bd \<and>
     bit_stream bd = rest \<and> inbufBitCount bd < 8 \<and> fd_behind (in_fd bd) = F"

section \<open>The footer\<close>

lemma get_bits_append:
  assumes "bit_stream bd = bs @ rest" and "length bs = k" and "k \<le> 32" and "bits_wf bd"
  obtains bd' where "get_bits k bd = (Inr (bits_val bs), bd')" and "bits_wf bd'" and "bit_stream bd' = rest" and "bits_only bd bd'"
proof -
  have "length bs \<le> 32" using assms(2,3) by simp
  then obtain bd' where "get_bits (length bs) bd = (Inr (bits_val bs), bd')"
    and "\<And>j. j = 0 \<or> j \<le> length bs \<and> length bs \<le> 20 \<Longrightarrow>
      bit_stream (unget_bits j bd') = drop (length bs - j) bs @ rest \<and> bits_wf (unget_bits j bd')"
    and "bits_only bd bd'"
    by (rule get_bits_stream [OF assms(1) _ assms(4)]) blast
  from this(1) this(2) [of 0] this(3) show thesis using that assms(2) by simp
qed

lemma footer_reads:
  assumes "bits_wf bd" and "bit_stream bd = footer_bits all @ rest"
  obtains bd' where "get_next_block bd = (Inl (Retval RETVAL_LAST_BLOCK), bd')" and "bits_wf bd'" and "bit_stream bd' = rest"
    and "core bd' = (core bd)\<lparr>headerCRC := all\<rparr>" and "inbufBitCount bd' < 8"
proof -
  have s: "bit_stream bd = nat_bits 24 0x177245 @ nat_bits 24 0x385090 @ low_bits 32 all @ rest"
    using assms(2) by (simp add: footer_bits_def)
  obtain bd1 where 1: "get_bits 24 bd = (Inr (bits_val (nat_bits 24 0x177245)), bd1)" "bits_wf bd1"
      "bit_stream bd1 = nat_bits 24 0x385090 @ low_bits 32 all @ rest" "bits_only bd bd1"
    by (rule get_bits_append [OF s, where k = 24]) (simp_all add: nat_bits_def assms(1))
  obtain bd2 where 2: "get_bits 24 bd1 = (Inr (bits_val (nat_bits 24 0x385090)), bd2)" "bits_wf bd2"
      "bit_stream bd2 = low_bits 32 all @ rest" "bits_only bd1 bd2"
    by (rule get_bits_append [OF 1(3), where k = 24]) (simp_all add: nat_bits_def 1(2))
  obtain bd3 where 3: "get_bits 32 bd2 = (Inr (bits_val (low_bits 32 all)), bd3)" "bits_wf bd3"
      "bit_stream bd3 = rest" "bits_only bd2 bd3"
    by (rule get_bits_append [OF 2(3), where k = 32]) (simp_all add: 2(2))
  have val: "bits_val (nat_bits 24 0x177245) = 0x177245" "bits_val (nat_bits 24 0x385090) = 0x385090"
      "bits_val (low_bits 32 all) = all"
    by (simp_all add: nat_bits_def bits_val_low take_bit_word_eq_self)
  show thesis
  proof
    show "get_next_block bd = (Inl (Retval RETVAL_LAST_BLOCK), bd3\<lparr>headerCRC := all\<rparr>)"
      by (simp add: get_next_block_def block_header_def bz_bind_def bz_upd_def bz_check_def bz_stop_def 1 2 3 val)
    have "core bd3 = core bd" using 1(4) 2(4) 3(4) by (simp add: bits_only_def)
    then show "core (bd3\<lparr>headerCRC := all\<rparr>) = (core bd)\<lparr>headerCRC := all\<rparr>"
      by simp
    show "bits_wf (bd3\<lparr>headerCRC := all\<rparr>)" using 3(2) by (simp add: bits_wf_def)
    show "inbufBitCount (bd3\<lparr>headerCRC := all\<rparr>) < 8"
      using get_bits_over [OF 3(1)] 2(2) by (simp add: bits_wf_def)
    show "bit_stream (bd3\<lparr>headerCRC := all\<rparr>) = rest" using 3(3) by (simp add: bit_stream_def)
  qed
qed

section \<open>The blocks\<close>

lemma bunzip_wf_core [simp]: "bunzip_wf (core bd) = bunzip_wf bd"
  by (simp add: bunzip_wf_def core_def)

lemma core_writes [simp]:
  "writeCurrent (core bd) = writeCurrent bd" "writePos (core bd) = writePos bd" "writeCount (core bd) = writeCount bd"
  "writeRunCountdown (core bd) = writeRunCountdown bd" "writeCopies (core bd) = writeCopies bd"
  "totalCRC (core bd) = totalCRC bd" "writeCRC (core bd) = writeCRC bd" "in_fd (core bd) = fd_behind (in_fd bd)"
  by (simp_all add: core_def)

lemma stream_bits_long: "80 \<le> length (stream_bits all bs)"
  by (induction bs arbitrary: all) (auto simp: footer_bits_def intro: le_trans trans_le_add2)

lemma runs_Nil [simp]: "runs xs = [] \<longleftrightarrow> xs = []"
  using unrun_runs [of _ xs] by (cases xs) (force simp: runs_def)+

lemma crc_append: "crc32_block_endian1 c (as @ bs) t = crc32_block_endian1 (crc32_block_endian1 c as t) bs t"
  by (simp add: crc32_block_endian1_def)

text \<open>The block that comes next, with any CRC in its header.\<close>

lemma next_block_at:
  assumes "bits_wf bd" and "bunzip_wf bd" and "writeCopies bd = 0" and "block_ok (dbufSize bd) b"
    and "bit_stream bd = block_bits crc (origin b) (code_lengths b) (code_choice b) (runs (block_data b)) @ ahead"
    and "20 \<le> length ahead"
  obtains bd1 where "get_next_block bd = (Inr (), bd1)" and "bits_wf bd1" and "bunzip_wf bd1" and "bit_stream bd1 = ahead"
    and "headerCRC bd1 = crc" and "totalCRC bd1 = totalCRC bd" and "dbufSize bd1 = dbufSize bd"
    and "crc32Table bd1 = crc32Table bd" and "fd_behind (in_fd bd1) = fd_behind (in_fd bd)"
    and "\<And>v. out_pos v = writePos bd1 \<Longrightarrow> out_current v = writeCurrent bd1 \<Longrightarrow>
      at_block (runs (block_data b)) (origin b) Decode_Next v bd1 (block_data b)"
proof -
  let ?s = "runs (block_data b)" and ?d = "block_data b" and ?p = "origin b"
  have b: "?d \<noteq> []" "length ?s < dbufSize bd" "?p < length ?s" "rotations ?s ! ?p = ?s" "codes_ok (code_lengths b) (code_choice b) ?s"
    using assms(4) by (auto simp: block_ok_def Let_def)
  obtain s1 where reads: "reads (core bd) get_next_block (block_bits crc ?p (code_lengths b) (code_choice b) ?s) () s1"
    and s1: "bunzip_wf s1" "core s1 = s1" "dbuf s1 = linked (last_column ?s) (length ?s)" "dbufSize s1 = dbufSize (core bd)"
      "headerCRC s1 = crc" "writeCurrent s1 = last_column ?s ! ?p" "writePos s1 = links (last_column ?s) ! ?p"
      "writeRunCountdown s1 = 5" "writeCount s1 = int (length ?s)" "writeCopies s1 = writeCopies (core bd)"
      "totalCRC s1 = totalCRC (core bd)" "crc32Table s1 = crc32Table (core bd)" "writeCRC s1 = writeCRC (core bd)"
      "in_fd s1 = in_fd (core bd)"
    using b assms(2) by - (rule get_next_block_reads [of "core bd" ?s ?p "code_lengths b" "code_choice b" crc], simp_all)
  obtain bd1 where bd1: "get_next_block bd = (Inr (), bd1)" "core bd1 = s1" "bits_wf bd1" "bit_stream bd1 = ahead"
    using readsD [OF reads refl assms(1,5,6)] by metis
  have f: "bunzip_wf bd1" "fd_behind (in_fd bd1) = fd_behind (in_fd bd)" "dbuf bd1 = linked (last_column ?s) (length ?s)"
      "dbufSize bd1 = dbufSize bd" "headerCRC bd1 = crc" "writeCurrent bd1 = last_column ?s ! ?p"
      "writePos bd1 = links (last_column ?s) ! ?p" "writeRunCountdown bd1 = 5" "writeCount bd1 = int (length ?s)"
      "writeCopies bd1 = 0" "totalCRC bd1 = totalCRC bd" "crc32Table bd1 = crc32Table bd"
    using s1 assms(3) unfolding bd1(2) [symmetric] by simp_all
  have "at_block ?s ?p Decode_Next v bd1 ?d" if "out_pos v = writePos bd1" "out_current v = writeCurrent bd1" for v
    using f b(3) that unrun_runs [of _ ?d] by (intro at_blockI [of _ _ 0 0]) (simp_all add: pends_def follow_def)
  then show thesis using that bd1(1,3,4) f by blast
qed

lemma next_block_amid:
  assumes "expects (b # bs) rest F bd"
  obtains bd1 where "get_next_block bd = (Inr (), bd1)" and "totalCRC bd1 = totalCRC bd"
    and "amid (runs (block_data b)) (origin b) (block_data b) bs rest F bd1
      (v\<lparr>out_CRC := NOT 0, out_pos := writePos bd1, out_current := writeCurrent bd1\<rparr>) Decode_Next"
proof -
  have e: "bits_wf bd" "bunzip_wf bd" "writeCopies bd = 0" "block_ok (dbufSize bd) b" and
    str: "bit_stream bd = block_bits (block_crc (block_data b)) (origin b) (code_lengths b) (code_choice b) (runs (block_data b)) @
      (stream_bits (roll_crc (totalCRC bd) (block_crc (block_data b))) bs @ rest)"
    using assms by (auto simp: expects_def)
  have "20 \<le> length (stream_bits (roll_crc (totalCRC bd) (block_crc (block_data b))) bs @ rest)"
    using stream_bits_long [of "roll_crc (totalCRC bd) (block_crc (block_data b))" bs] by simp
  from next_block_at [OF e str this] obtain bd1 where "get_next_block bd = (Inr (), bd1)" "bits_wf bd1" "bunzip_wf bd1"
      "bit_stream bd1 = stream_bits (roll_crc (totalCRC bd) (block_crc (block_data b))) bs @ rest"
      "headerCRC bd1 = block_crc (block_data b)" "totalCRC bd1 = totalCRC bd" "dbufSize bd1 = dbufSize bd"
      "crc32Table bd1 = crc32Table bd" "fd_behind (in_fd bd1) = fd_behind (in_fd bd)"
      "\<And>v. out_pos v = writePos bd1 \<Longrightarrow> out_current v = writeCurrent bd1 \<Longrightarrow>
        at_block (runs (block_data b)) (origin b) Decode_Next v bd1 (block_data b)"
    by metis
  then show thesis
    using that [of bd1] assms by (simp add: amid_def block_crc_def expects_def block_ok_def Let_def)
qed

lemma out_block_amid0:
  assumes "amid s p T bs rest F bd v l"
  shows "\<exists>q v' bd'. out_block l v bd = (Inr (q, v'), bd') \<and> out_len v' = out_len v - length T \<and>
     outbuf v' = outbuf v @ take (out_len v) T \<and>
     (if length T \<le> out_len v then q = None \<and> expects bs rest F bd'
      else q = Some 0 \<and> 0 \<le> writeCount bd' \<and> amid s p (drop (out_len v) T) bs rest F bd' v' Dec_Copies \<and>
        out_pos v' = writePos bd' \<and> out_current v' = writeCurrent bd' \<and> out_CRC v' = writeCRC bd')"
proof -
  have a: "bits_wf bd" "bunzip_wf bd" "crc32Table bd = crc32_filltable True" "p < length s" "rotations s ! p = s"
      "length s < dbufSize bd" "at_block s p l v bd T" "NOT (crc32_block_endian1 (out_CRC v) T (crc32Table bd)) = headerCRC bd"
      "\<forall>b\<in>set bs. block_ok (dbufSize bd) b" "fd_behind (in_fd bd) = F"
      "bit_stream bd = stream_bits (roll_crc (totalCRC bd) (headerCRC bd)) bs @ rest"
    using assms unfolding amid_def by blast+
  have "length s < 2 ^ 24" using a(2,6) by (simp add: bunzip_wf_def)
  then obtain e v' bd' where loop: "out_loop l v bd = (Inr (e, v'), bd')" and only: "counters_only bd bd'"
    and v': "out_len v' = out_len v - length T" "outbuf v' = outbuf v @ take (out_len v) T"
      "out_CRC v' = crc32_block_endian1 (out_CRC v) (take (out_len v) T) (crc32Table bd)"
    and e: "if length T \<le> out_len v then e = Block_Done \<and> writeCopies bd' = 0
      else e = Outbuf_Full \<and> at_block s p Put_Byte v' bd' (drop (out_len v) T)"
    using out_loop_gives [OF a(7,4,5)] unfolding gives_def by blast
  note f = counters_only_fields [OF only]
  have wf: "bunzip_wf bd'" using a(2) f by (simp add: bunzip_wf_def)
  show ?thesis
  proof (cases "length T \<le> out_len v")
    case True
    then have "e = Block_Done" "writeCopies bd' = 0" using e by simp_all
    then show ?thesis
      using True a f wf v' loop
      by (simp add: out_block_def bz_bind_def end_block_def Let_def bz_ret_def expects_def roll_crc_def bunzip_wf_def
          bits_wf_def bit_stream_def)
  next
    case False
    then have e': "e = Outbuf_Full" "at_block s p Put_Byte v' bd' (drop (out_len v) T)" using e by simp_all
    let ?bd = "bd'\<lparr>writePos := out_pos v', writeCurrent := out_current v', writeCRC := out_CRC v', writeCopies := writeCopies bd' + 1\<rparr>"
    have "at_block s p Dec_Copies v' ?bd (drop (out_len v) T)"
      by (rule at_block_map [OF e'(2)]) (auto simp: pends_def)
    moreover have "0 \<le> writeCount bd'" using e'(2) by (auto simp: at_block_def)
    moreover have "crc32_block_endian1 (out_CRC v') (drop (out_len v) T) (crc32Table bd) = crc32_block_endian1 (out_CRC v) T (crc32Table bd)"
      by (simp add: v'(3) flip: crc_append)
    ultimately show ?thesis
      using False a f wf v' loop e'(1)
      by (simp add: out_block_def bz_bind_def bz_upd_def bz_ret_def amid_def bunzip_wf_def bits_wf_def bit_stream_def)
  qed
qed

lemma out_block_amid:
  assumes "amid s p T bs rest F bd v l" and "out_len v = n" and "outbuf v = out"
  shows "\<exists>q v' bd'. out_block l v bd = (Inr (q, v'), bd') \<and> out_len v' = n - length T \<and> outbuf v' = out @ take n T \<and>
     (if length T \<le> n then q = None \<and> expects bs rest F bd'
      else q = Some 0 \<and> 0 \<le> writeCount bd' \<and> amid s p (drop n T) bs rest F bd' v' Dec_Copies \<and>
        out_pos v' = writePos bd' \<and> out_current v' = writeCurrent bd' \<and> out_CRC v' = writeCRC bd')"
  using out_block_amid0 [OF assms(1)] unfolding assms(2,3) .

section \<open>read_bunzip\<close>

text \<open>The result of asking for \<open>n\<close> bytes when \<open>X\<close> is what the stream still holds; \<open>out\<close> is there already.\<close>

definition produces :: "byte list \<Rightarrow> bool list \<Rightarrow> infile \<Rightarrow> nat \<Rightarrow> byte list \<Rightarrow> (bz_stop + int \<times> byte list) \<times> bunzip_data \<Rightarrow> bool" where
  "produces X rest F n out r \<longleftrightarrow>
     (\<exists>bd'. r = (Inr (int (n - length X), out @ take n X), bd') \<and>
        (if length X \<le> n then finished rest F bd' else holds (drop n X) rest F bd'))"

lemma blocks_data_simps [simp]: "blocks_data [] = []" "blocks_data (b # bs) = block_data b @ blocks_data bs"
  by (simp_all add: blocks_data_def)

lemma produces_append:
  assumes "produces Y rest F m out' r" and "length T \<le> n" and "m = n - length T" and "out' = out @ T"
  shows "produces (T @ Y) rest F n out r"
proof -
  obtain bd' where "r = (Inr (int (m - length Y), out' @ take m Y), bd')"
      "if length Y \<le> m then finished rest F bd' else holds (drop m Y) rest F bd'"
    using assms(1) unfolding produces_def by blast
  moreover have "length Y \<le> m \<longleftrightarrow> length (T @ Y) \<le> n" "m - length Y = n - length (T @ Y)" "drop m Y = drop n (T @ Y)"
      "out' @ take m Y = out @ take n (T @ Y)"
    using assms(2-4) by auto
  ultimately show ?thesis unfolding produces_def by metis
qed

lemma next_blocks_produces:
  "expects bs rest F bd \<Longrightarrow> produces (blocks_data bs) rest F (out_len v) (outbuf v) (next_blocks v bd)"
proof (induction bs arbitrary: bd v)
  case Nil
  then have wf: "bits_wf bd" "bit_stream bd = footer_bits (totalCRC bd) @ rest" by (simp_all add: expects_def)
  obtain bd1 where 1: "get_next_block bd = (Inl (Retval RETVAL_LAST_BLOCK), bd1)" "bits_wf bd1" "bit_stream bd1 = rest"
      "core bd1 = (core bd)\<lparr>headerCRC := totalCRC bd\<rparr>" "inbufBitCount bd1 < 8"
    using footer_reads [OF wf] by metis
  have "headerCRC bd1 = totalCRC bd1" "fd_behind (in_fd bd1) = F"
    using arg_cong [OF 1(4), of headerCRC] arg_cong [OF 1(4), of totalCRC] arg_cong [OF 1(4), of in_fd] Nil
    by (simp_all add: expects_def)
  then show ?case
    using 1(1-3,5) by (simp add: next_blocks.simps [of v bd] produces_def finished_def bits_wf_def bit_stream_def)
next
  case (Cons b bs)
  let ?s = "runs (block_data b)" and ?T = "block_data b"
  obtain bd1 where 1: "get_next_block bd = (Inr (), bd1)"
      "amid ?s (origin b) ?T bs rest F bd1
        (v\<lparr>out_CRC := NOT 0, out_pos := writePos bd1, out_current := writeCurrent bd1\<rparr>) Decode_Next"
    using next_block_amid [OF Cons.prems] by metis
  let ?v = "v\<lparr>out_CRC := NOT 0, out_pos := writePos bd1, out_current := writeCurrent bd1\<rparr>"
  have v: "out_len ?v = out_len v" "outbuf ?v = outbuf v" by simp_all
  obtain q v2 bd2 where 2: "out_block Decode_Next ?v bd1 = (Inr (q, v2), bd2)" "out_len v2 = out_len v - length ?T"
      "outbuf v2 = outbuf v @ take (out_len v) ?T"
      "if length ?T \<le> out_len v then q = None \<and> expects bs rest F bd2
        else q = Some 0 \<and> 0 \<le> writeCount bd2 \<and> amid ?s (origin b) (drop (out_len v) ?T) bs rest F bd2 v2 Dec_Copies \<and>
          out_pos v2 = writePos bd2 \<and> out_current v2 = writeCurrent bd2 \<and> out_CRC v2 = writeCRC bd2"
    using out_block_amid [OF 1(2), OF v] by blast
  show ?case
  proof (cases "length ?T \<le> out_len v")
    case True
    then have "q = None" "expects bs rest F bd2" using 2(4) by simp_all
    then show ?thesis
      using produces_append [OF Cons.IH [of bd2 v2] True 2(2)] 1(1) 2(1,3) True by (simp add: next_blocks.simps [of v bd])
  next
    case False
    then have q: "q = Some 0" "0 \<le> writeCount bd2" "amid ?s (origin b) (drop (out_len v) ?T) bs rest F bd2 v2 Dec_Copies"
        "out_pos v2 = writePos bd2" "out_current v2 = writeCurrent bd2" "out_CRC v2 = writeCRC bd2"
      using 2(4) by simp_all
    then have "holds (drop (out_len v) ?T @ blocks_data bs) rest F bd2" by (auto simp: holds_def)
    then show ?thesis
      using 1(1) 2(1-3) q(1) False by (simp add: next_blocks.simps [of v bd] produces_def)
  qed
qed

theorem read_bunzip_produces:
  assumes "holds X rest F bd"
  shows "produces X rest F n [] (read_bunzip n bd)"
proof -
  let ?v = "\<lparr>out_pos = writePos bd, out_current = writeCurrent bd, out_CRC = writeCRC bd, out_len = n, outbuf = []\<rparr>"
  have count: "\<not> writeCount bd < 0" using assms by (simp add: holds_def)
  consider bs where "expects bs rest F bd" "X = blocks_data bs"
    | s p T bs v where "amid s p T bs rest F bd v Dec_Copies" "X = T @ blocks_data bs" "out_pos v = writePos bd"
        "out_current v = writeCurrent bd" "out_CRC v = writeCRC bd"
    using assms by (auto simp: holds_def)
  then show ?thesis
  proof cases
    case 1
    then have "writeCopies bd = 0" by (simp add: expects_def)
    then show ?thesis
      using next_blocks_produces [OF 1(1), of ?v] 1(2) count by (simp add: read_bunzip_def)
  next
    case 2
    have at: "at_block s p Dec_Copies v bd T" using 2(1) unfolding amid_def by blast
    then have copies: "writeCopies bd \<noteq> 0" by (auto simp: at_block_def pends_def)
    have "at_block s p Dec_Copies ?v bd T" by (rule at_block_map [OF at]) (simp_all add: 2)
    then have "amid s p T bs rest F bd ?v Dec_Copies"
      using 2(1) unfolding amid_def out_vars.select_convs 2(5) by blast
    from out_block_amid [OF this, of n "[]"] obtain q v2 bd2 where 3: "out_block Dec_Copies ?v bd = (Inr (q, v2), bd2)"
        "out_len v2 = n - length T" "outbuf v2 = take n T"
        "if length T \<le> n then q = None \<and> expects bs rest F bd2
          else q = Some 0 \<and> 0 \<le> writeCount bd2 \<and> amid s p (drop n T) bs rest F bd2 v2 Dec_Copies \<and>
            out_pos v2 = writePos bd2 \<and> out_current v2 = writeCurrent bd2 \<and> out_CRC v2 = writeCRC bd2"
      unfolding append_Nil out_vars.select_convs by blast
    show ?thesis
    proof (cases "length T \<le> n")
      case True
      then have "q = None" "expects bs rest F bd2" using 3(4) by simp_all
      then show ?thesis
        using produces_append [OF next_blocks_produces [of bs rest F bd2 v2] True 3(2), of "[]"] 2(2) 3(1,3) copies count True
        by (simp add: read_bunzip_def)
    next
      case False
      then have "q = Some 0" "holds (drop n T @ blocks_data bs) rest F bd2" using 3(4) by (auto simp: holds_def)
      then show ?thesis
        using 2(2) 3(1-3) copies count False by (simp add: read_bunzip_def produces_def)
    qed
  qed
qed

section \<open>A block with a wrong CRC\<close>

text \<open>The bytes \<open>T\<close> of a block are pending, and its CRC is not the one in its header.\<close>

definition spoilt :: "byte list \<Rightarrow> nat \<Rightarrow> byte list \<Rightarrow> bunzip_data \<Rightarrow> out_vars \<Rightarrow> out_label \<Rightarrow> bool" where
  "spoilt s p T bd v l \<longleftrightarrow> p < length s \<and> rotations s ! p = s \<and> length s < 2 ^ 24 \<and> at_block s p l v bd T \<and>
     NOT (crc32_block_endian1 (out_CRC v) T (crc32Table bd)) \<noteq> headerCRC bd"

definition spoils :: "byte list \<Rightarrow> bunzip_data \<Rightarrow> bool" where
  "spoils T bd \<longleftrightarrow> 0 \<le> writeCount bd \<and> (\<exists>s p v. spoilt s p T bd v Dec_Copies \<and>
     out_pos v = writePos bd \<and> out_current v = writeCurrent bd \<and> out_CRC v = writeCRC bd)"

lemma out_block_spoilt:
  assumes "spoilt s p T bd v l"
  shows "\<exists>v' bd'. out_block l v bd = (Inr (Some (if length T \<le> out_len v then RETVAL_LAST_BLOCK else 0), v'), bd') \<and>
     outbuf v' = outbuf v @ take (out_len v) T \<and>
     (if length T \<le> out_len v then headerCRC bd' \<noteq> totalCRC bd' else spoils (drop (out_len v) T) bd')"
proof -
  have a: "p < length s" "rotations s ! p = s" "length s < 2 ^ 24" "at_block s p l v bd T"
      "NOT (crc32_block_endian1 (out_CRC v) T (crc32Table bd)) \<noteq> headerCRC bd"
    using assms unfolding spoilt_def by blast+
  obtain e v' bd' where loop: "out_loop l v bd = (Inr (e, v'), bd')" and only: "counters_only bd bd'"
    and v': "out_len v' = out_len v - length T" "outbuf v' = outbuf v @ take (out_len v) T"
      "out_CRC v' = crc32_block_endian1 (out_CRC v) (take (out_len v) T) (crc32Table bd)"
    and e: "if length T \<le> out_len v then e = Block_Done \<and> writeCopies bd' = 0
      else e = Outbuf_Full \<and> at_block s p Put_Byte v' bd' (drop (out_len v) T)"
    using out_loop_gives [OF a(4,1,2,3)] unfolding gives_def by blast
  note f = counters_only_fields [OF only]
  show ?thesis
  proof (cases "length T \<le> out_len v")
    case True
    then have "e = Block_Done" using e by simp
    then show ?thesis
      using True a(5) f v' loop by (simp add: out_block_def bz_bind_def end_block_def Let_def bz_ret_def)
  next
    case False
    then have e': "e = Outbuf_Full" "at_block s p Put_Byte v' bd' (drop (out_len v) T)" using e by simp_all
    let ?bd = "bd'\<lparr>writePos := out_pos v', writeCurrent := out_current v', writeCRC := out_CRC v', writeCopies := writeCopies bd' + 1\<rparr>"
    have "at_block s p Dec_Copies v' ?bd (drop (out_len v) T)"
      by (rule at_block_map [OF e'(2)]) (auto simp: pends_def)
    moreover have "crc32_block_endian1 (out_CRC v') (drop (out_len v) T) (crc32Table bd) = crc32_block_endian1 (out_CRC v) T (crc32Table bd)"
      by (simp add: v'(3) flip: crc_append)
    ultimately have "spoilt s p (drop (out_len v) T) ?bd v' Dec_Copies"
      using a f by (simp add: spoilt_def)
    moreover have "0 \<le> writeCount bd'" using e'(2) by (auto simp: at_block_def)
    ultimately have "spoils (drop (out_len v) T) ?bd" by (auto simp: spoils_def)
    then show ?thesis
      using False v' loop e'(1) by (simp add: out_block_def bz_bind_def bz_upd_def bz_ret_def)
  qed
qed

text \<open>What a call gives when the bytes \<open>T\<close> of such a block are next.\<close>

definition spoilt_read :: "byte list \<Rightarrow> nat \<Rightarrow> (bz_stop + int \<times> byte list) \<times> bunzip_data \<Rightarrow> bool" where
  "spoilt_read T n r \<longleftrightarrow> (\<exists>bd'. r = (Inr (if length T \<le> n then RETVAL_LAST_BLOCK else 0, take n T), bd') \<and>
     (if length T \<le> n then headerCRC bd' \<noteq> totalCRC bd' else spoils (drop n T) bd'))"

lemma out_block_spoilt_read:
  assumes "spoilt s p T bd v l" and "outbuf v = []"
  obtains q v' bd' where "out_block l v bd = (Inr (Some q, v'), bd')" and "spoilt_read T (out_len v) (Inr (q, outbuf v'), bd')"
  using out_block_spoilt [OF assms(1)] assms(2) unfolding spoilt_read_def by (metis append_Nil)

lemma read_bunzip_spoils:
  assumes "spoils T bd"
  shows "spoilt_read T n (read_bunzip n bd)"
proof -
  let ?v = "\<lparr>out_pos = writePos bd, out_current = writeCurrent bd, out_CRC = writeCRC bd, out_len = n, outbuf = []\<rparr>"
  obtain s p v where v: "spoilt s p T bd v Dec_Copies" "out_pos v = writePos bd" "out_current v = writeCurrent bd"
      "out_CRC v = writeCRC bd" and count: "0 \<le> writeCount bd"
    using assms by (auto simp: spoils_def)
  then have at: "at_block s p Dec_Copies v bd T" unfolding spoilt_def by blast
  then have copies: "writeCopies bd \<noteq> 0" by (auto simp: at_block_def pends_def)
  have "at_block s p Dec_Copies ?v bd T" by (rule at_block_map [OF at]) (simp_all add: v)
  then have "spoilt s p T bd ?v Dec_Copies"
    using v(1) unfolding spoilt_def out_vars.select_convs v(4) by blast
  then obtain q v' bd' where "out_block Dec_Copies ?v bd = (Inr (Some q, v'), bd')" "spoilt_read T (out_len ?v) (Inr (q, outbuf v'), bd')"
    by (rule out_block_spoilt_read) simp
  then show ?thesis using copies count by (simp add: read_bunzip_def)
qed

lemma read_bunzip_wrong_crc:
  assumes "bits_wf bd" and "bunzip_wf bd" and "writeCopies bd = 0" and "block_ok (dbufSize bd) b"
    and "bit_stream bd = block_bits crc (origin b) (code_lengths b) (code_choice b) (runs (block_data b)) @ ahead"
    and "20 \<le> length ahead" and "0 \<le> writeCount bd" and "crc32Table bd = crc32_filltable True" and "crc \<noteq> block_crc (block_data b)"
  shows "spoilt_read (block_data b) n (read_bunzip n bd)"
proof -
  obtain bd1 where bd1: "get_next_block bd = (Inr (), bd1)" "bunzip_wf bd1" "headerCRC bd1 = crc" "dbufSize bd1 = dbufSize bd"
      "crc32Table bd1 = crc32Table bd"
      "\<And>v. out_pos v = writePos bd1 \<Longrightarrow> out_current v = writeCurrent bd1 \<Longrightarrow>
        at_block (runs (block_data b)) (origin b) Decode_Next v bd1 (block_data b)"
    using next_block_at [OF assms(1-6)] by metis
  let ?v = "\<lparr>out_pos = writePos bd1, out_current = writeCurrent bd1, out_CRC = NOT 0, out_len = n, outbuf = []\<rparr>"
  have "length (runs (block_data b)) < 2 ^ 24" using assms(2,4) by (simp add: bunzip_wf_def block_ok_def Let_def)
  then have "spoilt (runs (block_data b)) (origin b) (block_data b) bd1 ?v Decode_Next"
    using bd1 assms(4,8,9) by (simp add: spoilt_def block_ok_def Let_def block_crc_def)
  then obtain q v' bd' where "out_block Decode_Next ?v bd1 = (Inr (Some q, v'), bd')"
      "spoilt_read (block_data b) (out_len ?v) (Inr (q, outbuf v'), bd')"
    by (rule out_block_spoilt_read) simp
  then show ?thesis
    using bd1(1) assms(3,7) by (simp add: read_bunzip_def next_blocks.simps)
qed

end
