(* ===== verification/Bz_Unpack.thy ===== *)
theory Bz_Unpack
  imports Bz_File
begin

text \<open>
  \<open>unpack_bz2_stream\<close> on the file that an encoder writes: the data of all the blocks is written, and nothing else, no
  matter how the file is cut into the pieces that \<open>read\<close> gives and how little each \<open>write\<close> takes.
\<close>

section \<open>The file\<close>

text \<open>Bits to bytes, with zeros behind the last ones.\<close>

fun pack :: "bool list \<Rightarrow> byte list" where
  "pack [] = []"
| "pack (b # bs) = of_nat (bits_nat (take 8 (b # bs @ replicate 7 False))) # pack (drop 7 bs)"

definition bz_file :: "nat \<Rightarrow> bz_block list \<Rightarrow> byte list" where
  "bz_file k bs = [0x42, 0x5A, 0x68, 0x30 + of_nat k] @ pack (stream_bits 0 bs)"

lemma low_bits_nat: "length bs = n \<Longrightarrow> n \<le> LENGTH('a) \<Longrightarrow> low_bits n (of_nat (bits_nat bs) :: 'a::len word) = bs"
proof (induction n arbitrary: bs)
  case 0
  then show ?case by (simp add: low_bits_def)
next
  case (Suc n)
  obtain cs b where bs: "bs = cs @ [b]" using Suc(2) by (cases bs rule: rev_cases) auto
  have "bits_nat cs < 2 ^ n" using bits_nat_less [of cs] Suc(2) bs by simp
  then have less: "bits_nat bs < 2 ^ LENGTH('a)"
    using bits_nat_less [of bs] power_increasing [of "length bs" "LENGTH('a)" "2::nat"] Suc(2,3) by simp
  have "drop_bit 1 (of_nat (bits_nat bs) :: 'a word) = of_nat (bits_nat cs)"
  proof (rule bit_word_eqI)
    fix m
    assume "m < LENGTH('a)"
    have "bit (bits_nat bs) (Suc m) = bit (bits_nat cs) m"
      by (simp add: bs bits_nat_snoc bit_Suc)
    moreover have "\<not> bit (bits_nat bs) (Suc m)" if "\<not> Suc m < LENGTH('a)"
    proof -
      have "take_bit LENGTH('a) (bits_nat bs) = bits_nat bs" using less by (simp add: take_bit_nat_eq_self)
      then show ?thesis using that by (metis bit_take_bit_iff)
    qed
    ultimately show "bit (drop_bit 1 (of_nat (bits_nat bs) :: 'a word)) m = bit (of_nat (bits_nat cs) :: 'a word) m"
      using \<open>m < LENGTH('a)\<close> by (auto simp: bit_drop_bit_eq bit_of_nat_iff)
  qed
  moreover have "bit (of_nat (bits_nat bs) :: 'a word) 0 = b"
    by (simp add: bit_of_nat_iff bs bits_nat_snoc bit_0)
  ultimately show ?case
    using Suc.IH [of cs] Suc(2,3) bs by (simp add: low_bits_Suc)
qed

lemma byte_stream_pack: "\<exists>pad. length pad < 8 \<and> byte_stream (pack bs) = bs @ pad"
proof (induction bs rule: pack.induct)
  case 1
  then show ?case by (simp add: byte_stream_def)
next
  case (2 b bs)
  then obtain pad where pad: "length pad < 8" "byte_stream (pack (drop 7 bs)) = drop 7 bs @ pad" by blast
  have low: "low_bits 8 (of_nat (bits_nat (take 8 (b # bs @ replicate 7 False))) :: byte) = take 8 (b # bs @ replicate 7 False)"
    by (rule low_bits_nat) simp_all
  show ?case
  proof (cases "7 \<le> length bs")
    case True
    then show ?thesis
      using pad low by (intro exI [of _ pad]) (simp add: byte_stream_Cons)
  next
    case False
    then show ?thesis
      using low by (intro exI [of _ "replicate (7 - length bs) False"]) (simp add: byte_stream_Cons take_Cons' byte_stream_def)
  qed
qed

section \<open>Reading and writing\<close>

lemma full_write_all:
  "Write_Fail \<notin> set w \<Longrightarrow>
     \<exists>w'. full_write_loop buf n (w, out) = (int (n + length buf), w', out @ buf) \<and> set w' \<subseteq> set w"
proof (induction buf n "(w, out)" arbitrary: w out rule: full_write_loop.induct)
  case (1 buf cnt)
  show ?case
  proof (cases "buf = []")
    case False
    have "\<exists>cc w1. safe_write buf (w, out) = (Some cc, w1, out @ take cc buf) \<and> cc \<le> length buf \<and> set w1 \<subseteq> set w"
      using 1(2) by (induction buf "(w, out)" arbitrary: w rule: safe_write.induct) (auto simp: min_def)
    then obtain cc w1 where w1: "safe_write buf (w, out) = (Some cc, w1, out @ take cc buf)" "cc \<le> length buf" "set w1 \<subseteq> set w"
      by blast
    then obtain w2 where "full_write_loop (drop cc buf) (cnt + cc) (w1, out @ take cc buf) =
        (int (cnt + cc + length (drop cc buf)), w2, (out @ take cc buf) @ drop cc buf)" "set w2 \<subseteq> set w1"
      using 1(1) [OF False w1(1) [symmetric] refl] 1(2) w1(3) by blast
    then show ?thesis using w1 False by (auto simp: full_write_loop.simps [of buf cnt])
  qed (simp add: full_write_loop.simps [of "[]"])
qed

lemma safe_read_fd:
  assumes "fd_behind fd = []" and "0 < n"
  shows "\<exists>bs fd'. safe_read n fd = (Some bs, fd') \<and> bs @ fd_data fd' = fd_data fd \<and> fd_behind fd' = [] \<and> length bs \<le> n \<and>
    (bs = [] \<longrightarrow> fd_data fd = [])"
  using assms by (cases fd rule: fd_behind.cases) (auto split: if_splits)

lemma full_read_fd:
  "fd_behind fd = [] \<Longrightarrow> n \<le> length (fd_data fd) \<Longrightarrow>
     \<exists>fd'. full_read n fd = (Some (take n (fd_data fd)), fd') \<and> fd_data fd' = drop n (fd_data fd) \<and> fd_behind fd' = []"
proof (induction n fd rule: full_read.induct)
  case (1 n fd)
  show ?case
  proof (cases "n = 0")
    case False
    then obtain bs fd1 where bs: "safe_read n fd = (Some bs, fd1)" "bs @ fd_data fd1 = fd_data fd" "fd_behind fd1 = []"
        "length bs \<le> n" "bs = [] \<longrightarrow> fd_data fd = []"
      using safe_read_fd [OF 1(2), of n] by auto
    then have ne: "bs \<noteq> []" using 1(3) False by auto
    have "n - length bs \<le> length (fd_data fd1)" using 1(3) arg_cong [OF bs(2), of length] by simp
    then obtain fd' where "full_read (n - length bs) fd1 = (Some (take (n - length bs) (fd_data fd1)), fd')"
        "fd_data fd' = drop (n - length bs) (fd_data fd1)" "fd_behind fd' = []"
      using 1(1) [OF False bs(1) [symmetric] refl ne bs(3)] by blast
    then show ?thesis
      using bs(1,4) ne False by (simp add: full_read.simps [of n] flip: bs(2))
  qed (use 1(2) in \<open>simp add: full_read.simps [of 0]\<close>)
qed

section \<open>Producing output\<close>

lemma produce_all:
  assumes "holds X rest F bd" and "X \<noteq> []" and "Write_Fail \<notin> set w"
  shows "\<exists>bd' w'. produce bd (w, out) = (Inr (Some RETVAL_LAST_BLOCK), bd', w', out @ X) \<and> finished rest F bd'"
  using assms
proof (induction "length X" arbitrary: X bd w out rule: less_induct)
  case less
  let ?n = "IOBUF_SIZE"
  have pos: "0 < ?n" by (simp add: IOBUF_SIZE_def)
  obtain bd1 where read: "read_bunzip ?n bd = (Inr (int (?n - length X), take ?n X), bd1)"
    and bd1: "if length X \<le> ?n then finished rest F bd1 else holds (drop ?n X) rest F bd1"
    using read_bunzip_produces [OF less(2), of ?n] by (auto simp: produces_def)
  let ?i = "?n - (?n - length X)"
  have i: "?i \<noteq> 0" "take ?i (take ?n X) = take ?n X" using less(3) pos by (cases "length X \<le> ?n"; simp)+
  obtain w1 where w1: "full_write (take ?n X) (w, out) = (int (length (take ?n X)), w1, out @ take ?n X)" "set w1 \<subseteq> set w"
    using full_write_all [OF less(4), of "take ?n X" 0 out] by (auto simp: full_write_def)
  have len: "int (length (take ?n X)) = int ?i" by (simp add: min_def)
  have step: "produce bd (w, out) = produce bd1 (w1, out @ take ?n X)"
    using i w1(1) len by (subst produce.simps) (simp add: read)
  show ?case
  proof (cases "length X \<le> ?n")
    case True
    then have fin: "finished rest F bd1" using bd1 by simp
    then have "produce bd1 (w1, out @ take ?n X) = (Inr (Some RETVAL_LAST_BLOCK), bd1, w1, out @ X)"
      using True by (subst produce.simps) (simp add: read_bunzip_def finished_def RETVAL_LAST_BLOCK_def)
    then show ?thesis using step fin by auto
  next
    case False
    have "\<exists>bd' w'. produce bd1 (w1, out @ take ?n X) = (Inr (Some RETVAL_LAST_BLOCK), bd', w', (out @ take ?n X) @ drop ?n X) \<and>
        finished rest F bd'"
      by (rule less.hyps) (use False pos bd1 w1(2) less(4) in auto)
    then show ?thesis using step by simp
  qed
qed

lemma produce_nothing:
  assumes "holds [] rest F bd"
  shows "\<exists>bd'. produce bd dst = (Inr (Some 0), bd', dst)"
proof -
  obtain bd1 where "read_bunzip IOBUF_SIZE bd = (Inr (int IOBUF_SIZE, []), bd1)"
    using read_bunzip_produces [OF assms, of IOBUF_SIZE] by (auto simp: produces_def)
  then show ?thesis by (subst produce.simps) simp
qed

section \<open>The start of a stream\<close>

lemma bunzip_wf_new: "bunzip_wf (new_bunzip fd buf\<lparr>dbufSize := n\<rparr>) \<longleftrightarrow> n < 2 ^ 24"
  by (simp add: bunzip_wf_def new_bunzip_def group_wf_def MAX_SYMBOLS_def MAX_HUFCODE_BITS_def)

lemma bits_val_byte: "bits_val (low_bits 8 b) = (ucast b :: u32)" for b :: byte
proof -
  have "low_bits 8 b = low_bits 8 (ucast b :: u32)"
    by (rule nth_equalityI) (auto simp: nth_low_bits bit_ucast_iff)
  moreover have "take_bit 8 (ucast b :: u32) = ucast b"
    by (rule bit_word_eqI) (auto simp: bit_take_bit_iff bit_ucast_iff dest: bit_imp_le_length)
  ultimately show ?thesis by (simp add: bits_val_low)
qed

lemma start_bunzip_starts:
  assumes "buf @ fd_data fd = 0x68 # (0x30 + of_nat k) # body" and "1 \<le> k" and "k \<le> 9"
    and "malloc (sz + IOBUF_SIZE)" and "malloc (4 * (100000 * k))"
  obtains bd where "start_bunzip sz malloc fd buf = (Inr RETVAL_OK, bd)" and "bits_wf bd" and "bit_stream bd = byte_stream body"
    and "core bd = (core (new_bunzip fd buf))\<lparr>dbufSize := 100000 * k\<rparr>"
proof -
  let ?new = "new_bunzip fd buf" and ?h = "low_bits 8 (0x68 :: byte) @ low_bits 8 (0x30 + of_nat k :: byte)"
  have "rest_bytes ?new = 0x68 # (0x30 + of_nat k) # body"
    using assms(1) by (simp add: rest_bytes_def new_bunzip_def)
  then have str: "bit_stream ?new = ?h @ byte_stream body"
    by (simp add: bit_stream_rest new_bunzip_def byte_stream_Cons)
  have wf: "bits_wf ?new" by (simp add: bits_wf_def new_bunzip_def)
  obtain bd where bd: "get_bits 16 ?new = (Inr (bits_val ?h), bd)" "bits_wf bd" "bit_stream bd = byte_stream body"
      "bits_only ?new bd"
    by (rule get_bits_append [OF str, where k = 16]) (simp_all add: wf)
  have k: "k \<in> {1, 2, 3, 4, 5, 6, 7, 8, 9}" using assms(2,3) by auto
  then have "bits_val (low_bits 8 (0x30 + of_nat k :: byte)) = 0x30 + of_nat k" by (auto simp: bits_val_byte)
  then have h: "bits_val ?h - (push_bit 8 0x68 + 0x30) = (of_nat k :: u32)"
    by (simp add: bits_val_append_plus bits_val_byte push_bit_eq_mult)
  have "unat (of_nat k :: u32) = k" "\<not> 9 \<le> (of_nat k :: u32) - 1"
    using k by (auto simp: word_le_nat_alt)
  then have "start_bunzip sz malloc fd buf = (Inr RETVAL_OK, bd\<lparr>dbufSize := 100000 * k\<rparr>)"
    using assms(4,5) bd(1) h by (simp add: start_bunzip_def Let_def)
  moreover have "core (bd\<lparr>dbufSize := 100000 * k\<rparr>) = (core bd)\<lparr>dbufSize := 100000 * k\<rparr>"
    by (simp add: core_def)
  ultimately show thesis
    using that bd(2-4) by (simp add: bits_only_def bits_wf_def bit_stream_def)
qed

lemma start_bunzip_holds:
  assumes "buf @ fd_data fd = 0x68 # (0x30 + of_nat k) # body" and "1 \<le> k" and "k \<le> 9"
    and "\<forall>b\<in>set bs. block_ok (100000 * k) b" and "byte_stream body = stream_bits 0 bs @ rest"
    and "malloc (sz + IOBUF_SIZE)" and "malloc (4 * (100000 * k))"
  obtains bd where "start_bunzip sz malloc fd buf = (Inr RETVAL_OK, bd)" and "holds (blocks_data bs) rest (fd_behind fd) bd"
proof -
  obtain bd where bd: "start_bunzip sz malloc fd buf = (Inr RETVAL_OK, bd)" "bits_wf bd" "bit_stream bd = byte_stream body"
      and core: "core bd = (core (new_bunzip fd buf))\<lparr>dbufSize := 100000 * k\<rparr>"
    using start_bunzip_starts [where malloc = malloc and sz = sz, OF assms(1-3,6,7)] by metis
  have "core (new_bunzip fd buf) = core ((new_bunzip fd buf)\<lparr>dbufSize := 0\<rparr>)" by (simp add: new_bunzip_def)
  then have "bunzip_wf bd"
    using arg_cong [OF core, of bunzip_wf] bunzip_wf_new [of "100000 * k" fd buf] assms(3)
    by (simp add: bunzip_wf_def new_bunzip_def)
  moreover have "dbufSize bd = 100000 * k" "totalCRC bd = 0" "writeCopies bd = 0" "writeCount bd = 0"
      "crc32Table bd = crc32_filltable True" "fd_behind (in_fd bd) = fd_behind fd"
    using arg_cong [OF core, of dbufSize] arg_cong [OF core, of totalCRC] arg_cong [OF core, of writeCopies]
      arg_cong [OF core, of writeCount] arg_cong [OF core, of crc32Table] arg_cong [OF core, of in_fd]
    by (simp_all add: new_bunzip_def)
  ultimately have "expects bs rest (fd_behind fd) bd" "writeCount bd = 0"
    using bd(2,3) assms(4,5) by (simp_all add: expects_def)
  then have "holds (blocks_data bs) rest (fd_behind fd) bd" by (auto simp: holds_def)
  then show thesis using that bd(1) by blast
qed

section \<open>unpack_bz2_stream\<close>

text \<open>Behind the stream, \<open>next_magic\<close> looks for \<open>BZ\<close> in the bytes that are left.\<close>

lemma finished_rest:
  assumes "finished (pad @ byte_stream trail) F bd" and "length pad < 8"
  shows "rest_bytes bd = trail"
proof -
  have eq: "low_bits (inbufBitCount bd) (inbufBits bd) @ byte_stream (rest_bytes bd) = pad @ byte_stream trail"
    using assms(1) by (simp add: finished_def bit_stream_rest)
  have "inbufBitCount bd < 8" using assms(1) by (simp add: finished_def)
  moreover have "inbufBitCount bd + 8 * length (rest_bytes bd) = length pad + 8 * length trail"
    using arg_cong [OF eq, of length] by simp
  ultimately have "inbufBitCount bd = length pad" using assms(2) by presburger
  then have "byte_stream (rest_bytes bd) = byte_stream trail" using eq by simp
  then show ?thesis by (rule byte_stream_inj)
qed

lemma next_magic_other:
  assumes "rest_bytes bd = trail" and "take 2 trail \<noteq> [0x42, 0x5A]" and "fd_behind (in_fd bd) = []"
  shows "fst (next_magic (drop (inbufPos bd) (inbuf bd)) (in_fd bd)) = None"
proof -
  let ?buf = "drop (inbufPos bd) (inbuf bd)"
  have trail: "?buf @ fd_data (in_fd bd) = trail" using assms(1) by (simp add: rest_bytes_def)
  show ?thesis
  proof (cases "length ?buf < 2")
    case True
    then obtain bs fd' where bs: "safe_read (2 - length ?buf) (in_fd bd) = (Some bs, fd')" "bs @ fd_data fd' = fd_data (in_fd bd)"
        "length bs \<le> 2 - length ?buf"
      using safe_read_fd [OF assms(3), of "2 - length ?buf"] by auto
    have "take 2 (?buf @ bs) = take 2 trail" if "2 \<le> length ?buf + length bs"
      using that by (simp flip: trail bs(2))
    then show ?thesis using True bs(1) assms(2) by (auto simp: next_magic_def)
  next
    case False
    then have "take 2 ?buf = take 2 trail" by (simp flip: trail)
    then show ?thesis using False assms(2) by (auto simp: next_magic_def)
  qed
qed

lemma unpack_loop_stream:
  assumes "buf @ fd_data fd = 0x68 # (0x30 + of_nat k) # pack (stream_bits 0 bs) @ trail" and "1 \<le> k" and "k \<le> 9"
    and "\<forall>b\<in>set bs. block_ok (100000 * k) b" and "malloc (sz + IOBUF_SIZE)" and "malloc (4 * (100000 * k))"
    and "fd_behind fd = []" and "Write_Fail \<notin> set w" and "take 2 trail \<noteq> [0x42, 0x5A]"
  shows "\<exists>fd' w'. unpack_loop sz malloc fd buf (w, out) =
    (if blocks_data bs = [] then (Inr 0, [Error_Msg (bytes_of ''bunzip error 0'')], fd', w', out)
     else (Inr RETVAL_OK, [], fd', w', out @ blocks_data bs))"
proof -
  obtain pad where pad: "length pad < 8" "byte_stream (pack (stream_bits 0 bs)) = stream_bits 0 bs @ pad"
    using byte_stream_pack by blast
  have str: "byte_stream (pack (stream_bits 0 bs) @ trail) = stream_bits 0 bs @ (pad @ byte_stream trail)"
    using pad(2) by (simp add: byte_stream_def)
  obtain bd where bd: "start_bunzip sz malloc fd buf = (Inr RETVAL_OK, bd)"
      "holds (blocks_data bs) (pad @ byte_stream trail) [] bd"
    using start_bunzip_holds [where malloc = malloc and sz = sz, OF assms(1-4) str assms(5,6)] assms(7) by metis
  show ?thesis
  proof (cases "blocks_data bs = []")
    case True
    then obtain bd' where "produce bd (w, out) = (Inr (Some 0), bd', w, out)"
      using produce_nothing [of "pad @ byte_stream trail" "[]" bd "(w, out)"] bd(2) by auto
    moreover have "decimal 0 = bytes_of ''0''" by (simp add: decimal_def bytes_of_def nat_digits.simps)
    ultimately show ?thesis
      using True bd(1) by (auto simp: unpack_loop.simps [of sz malloc fd buf] RETVAL_OK_def RETVAL_LAST_BLOCK_def bytes_of_def)
  next
    case False
    obtain bd' w' where out: "produce bd (w, out) = (Inr (Some RETVAL_LAST_BLOCK), bd', w', out @ blocks_data bs)"
        "finished (pad @ byte_stream trail) [] bd'"
      using produce_all [OF bd(2) False assms(8)] by blast
    have "fst (next_magic (drop (inbufPos bd') (inbuf bd')) (in_fd bd')) = None"
      using next_magic_other [OF finished_rest [OF out(2) pad(1)] assms(9)] out(2) by (simp add: finished_def)
    then obtain fd' where "next_magic (drop (inbufPos bd') (inbuf bd')) (in_fd bd') = (None, fd')"
      by (cases "next_magic (drop (inbufPos bd') (inbuf bd')) (in_fd bd')") auto
    moreover have "headerCRC bd' = totalCRC bd'" using out(2) by (simp add: finished_def)
    ultimately show ?thesis
      using False bd(1) out(1) by (simp add: unpack_loop.simps [of sz malloc fd buf] RETVAL_OK_def)
  qed
qed

section \<open>Input that ends too early\<close>

lemma get_bits_cases:
  assumes "bits_wf bd" and "k \<le> 32"
  obtains v bd' where "get_bits k bd = (Inr v, bd')" and "bits_wf bd'" and "length (bit_stream bd') + k = length (bit_stream bd)"
    | bd' where "get_bits k bd = (Inl (Longjmp RETVAL_UNEXPECTED_INPUT_EOF), bd')" and "length (bit_stream bd) < k"
proof (cases "length (bit_stream bd) < k")
  case True
  then show thesis using get_bits_short [OF True assms(2,1)] that(2) by (cases "get_bits k bd") auto
next
  case False
  have "bit_stream bd = take k (bit_stream bd) @ drop k (bit_stream bd)" by simp
  then obtain v bd' where "get_bits k bd = (Inr v, bd')" "bits_wf bd'" "bit_stream bd' = drop k (bit_stream bd)"
    by (rule get_bits_append [where k = k]) (use assms False in auto)
  then show thesis using that(1) False by simp
qed

lemma get_next_block_short:
  assumes "bits_wf bd" and "length (bit_stream bd) < 80"
  shows "fst (get_next_block bd) = Inl (Longjmp RETVAL_UNEXPECTED_INPUT_EOF)"
proof -
  have le: "24 \<le> (32 :: nat)" "32 \<le> (32 :: nat)" by simp_all
  note defs = get_next_block_def block_header_def bz_bind_def
  show ?thesis
  proof (rule get_bits_cases [OF assms(1) le(1)])
    fix v1 bd1
    assume 1: "get_bits 24 bd = (Inr v1, bd1)" "bits_wf bd1" "length (bit_stream bd1) + 24 = length (bit_stream bd)"
    show ?thesis
    proof (rule get_bits_cases [OF 1(2) le(1)])
      fix v2 bd2
      assume 2: "get_bits 24 bd1 = (Inr v2, bd2)" "bits_wf bd2" "length (bit_stream bd2) + 24 = length (bit_stream bd1)"
      show ?thesis
        by (rule get_bits_cases [OF 2(2) le(2)]) (use 1 2 assms(2) in \<open>simp_all add: defs\<close>)
    qed (simp add: defs 1(1))
  qed (simp add: defs)
qed

lemma produce_short:
  assumes "bits_wf bd" and "length (bit_stream bd) < 80" and "writeCount bd = 0" and "writeCopies bd = 0"
  shows "fst (produce bd dst) = Inl Undefined"
proof -
  obtain bd' where "get_next_block bd = (Inl (Longjmp RETVAL_UNEXPECTED_INPUT_EOF), bd')"
    using get_next_block_short [OF assms(1,2)] by (cases "get_next_block bd") auto
  then show ?thesis
    using assms(3,4) by (subst produce.simps) (simp add: read_bunzip_def next_blocks.simps)
qed

section \<open>A wrong CRC\<close>

text \<open>The pieces that are full are written, the last one, in which the error is found, is not.\<close>

definition full_pieces :: "byte list \<Rightarrow> byte list" where
  "full_pieces X = take (IOBUF_SIZE * ((length X - 1) div IOBUF_SIZE)) X"

lemma full_pieces_short: "length X \<le> IOBUF_SIZE \<Longrightarrow> full_pieces X = []"
  by (cases X) (simp_all add: full_pieces_def IOBUF_SIZE_def)

lemma full_pieces_long: "IOBUF_SIZE < length X \<Longrightarrow> full_pieces X = take IOBUF_SIZE X @ full_pieces (drop IOBUF_SIZE X)"
proof -
  assume long: "IOBUF_SIZE < length X"
  then have "length X - 1 = (length X - IOBUF_SIZE - 1) + IOBUF_SIZE" by simp
  then have "(length X - 1) div IOBUF_SIZE = Suc ((length X - IOBUF_SIZE - 1) div IOBUF_SIZE)"
    by (metis IOBUF_SIZE_def div_add_self2 zero_neq_numeral Suc_eq_plus1)
  then show ?thesis by (simp add: full_pieces_def take_add)
qed

lemma produce_spoilt:
  assumes "\<And>n. spoilt_read T n (read_bunzip n bd)" and "Write_Fail \<notin> set w"
  shows "\<exists>bd' w'. produce bd (w, out) = (Inr (Some RETVAL_LAST_BLOCK), bd', w', out @ full_pieces T) \<and> headerCRC bd' \<noteq> totalCRC bd'"
  using assms
proof (induction "length T" arbitrary: T bd w out rule: less_induct)
  case less
  let ?n = "IOBUF_SIZE"
  obtain bd1 where read: "read_bunzip ?n bd = (Inr (if length T \<le> ?n then RETVAL_LAST_BLOCK else 0, take ?n T), bd1)"
    and bd1: "if length T \<le> ?n then headerCRC bd1 \<noteq> totalCRC bd1 else spoils (drop ?n T) bd1"
    using less(2) [of ?n] unfolding spoilt_read_def by blast
  show ?case
  proof (cases "length T \<le> ?n")
    case True
    then show ?thesis
      using read bd1 by (subst produce.simps) (simp add: full_pieces_short RETVAL_LAST_BLOCK_def)
  next
    case False
    obtain w1 where w1: "full_write (take ?n T) (w, out) = (int (length (take ?n T)), w1, out @ take ?n T)" "set w1 \<subseteq> set w"
      using full_write_all [OF less(3), of "take ?n T" 0 out] by (auto simp: full_write_def)
    have "?n \<noteq> 0" by (simp add: IOBUF_SIZE_def)
    then have step: "produce bd (w, out) = produce bd1 (w1, out @ take ?n T)"
      using False read w1(1) by (subst produce.simps) simp
    have "\<exists>bd' w'. produce bd1 (w1, out @ take ?n T) = (Inr (Some RETVAL_LAST_BLOCK), bd', w', (out @ take ?n T) @ full_pieces (drop ?n T)) \<and>
        headerCRC bd' \<noteq> totalCRC bd'"
    proof (rule less.hyps)
      show "length (drop ?n T) < length T" using False \<open>?n \<noteq> 0\<close> by simp
      show "spoilt_read (drop ?n T) n (read_bunzip n bd1)" for n using read_bunzip_spoils bd1 False by simp
      show "Write_Fail \<notin> set w1" using w1(2) less(3) by blast
    qed
    then show ?thesis using step False by (simp add: full_pieces_long)
  qed
qed

end
