(* ===== verification/Bz_Safe.thy ===== *)
theory Bz_Safe
  imports Bz_Unpack
begin

text \<open>
  The decompressor on any input, whatever the bytes are and however they are cut into pieces: no access
  outside of its buffers and tables is ever reached, every error it returns is negative, and the undefined
  behaviour that does occur is of the known kinds: a selector at the position right behind the groups, a
  count of repetitions that has just left the range of \<open>int\<close>, and a symbol of a block without symbols.
\<close>

section \<open>Triples\<close>

text \<open>
  What must not happen: an access outside of an array, a \<open>return\<close> that is not an error, and undefined
  behaviour of other kinds than those named above.
\<close>

fun bad :: "bz_stop \<Rightarrow> bool" where
  "bad (Retval r) \<longleftrightarrow> 0 \<le> r"
| "bad Overrun \<longleftrightarrow> True"
| "bad (Unset_Selector n groupCount) \<longleftrightarrow> \<not> (n = groupCount \<and> 2 \<le> groupCount \<and> groupCount \<le> MAX_GROUPS)"
| "bad (Run_Overflow cnt) \<longleftrightarrow> \<not> (INT_MAX < cnt \<and> cnt < INT_MAX + 2 ^ 27)"
| "bad (Unset_Symbol symTotal) \<longleftrightarrow> symTotal \<noteq> 0"
| "bad _ \<longleftrightarrow> False"

definition safe :: "(bunzip_data \<Rightarrow> bool) \<Rightarrow> 'a bz \<Rightarrow> ('a \<Rightarrow> bunzip_data \<Rightarrow> bool) \<Rightarrow> bool" where
  "safe P m Q \<longleftrightarrow> (\<forall>bd. P bd \<longrightarrow> (case m bd of (Inl e, _) \<Rightarrow> \<not> bad e | (Inr v, bd') \<Rightarrow> Q v bd'))"

lemma safeI:
  assumes "\<And>bd e bd'. P bd \<Longrightarrow> m bd = (Inl e, bd') \<Longrightarrow> \<not> bad e"
    and "\<And>bd v bd'. P bd \<Longrightarrow> m bd = (Inr v, bd') \<Longrightarrow> Q v bd'"
  shows "safe P m Q"
  using assms by (auto simp: safe_def split: prod.splits sum.splits)

lemma safeD:
  assumes "safe P m Q" and "P bd"
  shows "m bd = (Inl e, bd') \<Longrightarrow> \<not> bad e" and "m bd = (Inr v, bd') \<Longrightarrow> Q v bd'"
  using assms by (auto simp: safe_def split: prod.splits sum.splits)

lemma safe_bind:
  assumes "safe P m R" and "\<And>v. safe (R v) (f v) Q"
  shows "safe P (bz_bind m f) Q"
proof -
  have "case bz_bind m f bd of (Inl e, _) \<Rightarrow> \<not> bad e | (Inr v, bd') \<Rightarrow> Q v bd'" if P: "P bd" for bd
  proof -
    obtain r bd1 where m: "m bd = (r, bd1)" by (cases "m bd")
    show ?thesis
    proof (cases r)
      case (Inl e)
      then show ?thesis using safeD(1) [OF assms(1) P] m by (simp add: bz_bind_def)
    next
      case (Inr v)
      then have "R v bd1" using safeD(2) [OF assms(1) P] m by simp
      then show ?thesis using assms(2) [of v] m Inr by (simp add: bz_bind_def safe_def)
    qed
  qed
  then show ?thesis by (simp add: safe_def)
qed

lemma safe_weaken:
  assumes "safe P m R" and "\<And>bd. P' bd \<Longrightarrow> P bd" and "\<And>v bd. R v bd \<Longrightarrow> Q v bd"
  shows "safe P' m Q"
  by (rule safeI) (use safeD [OF assms(1) assms(2)] assms(3) in blast)+

lemma safe_post: "safe P m R \<Longrightarrow> (\<And>v bd. R v bd \<Longrightarrow> Q v bd) \<Longrightarrow> safe P m Q"
  by (rule safe_weaken)

lemma safe_pre: "safe P m Q \<Longrightarrow> (\<And>bd. P' bd \<Longrightarrow> P bd) \<Longrightarrow> safe P' m Q"
  by (rule safe_weaken)

lemma safe_ret: "safe (Q a) (bz_ret a) Q"
  by (simp add: safe_def bz_ret_def)

lemma safe_upd: "safe (\<lambda>bd. Q () (f bd)) (bz_upd f) Q"
  by (simp add: safe_def bz_upd_def)

lemma safe_get: "safe (\<lambda>bd. Q (f bd) bd) (bz_get f) Q"
  by (simp add: safe_def bz_get_def)

lemma safe_check: "\<not> bad e \<Longrightarrow> safe P (bz_check b e) (\<lambda>_ bd. P bd \<and> b)"
  by (auto simp: safe_def bz_check_def bz_ret_def bz_stop_def)

lemma safe_sure: "safe (\<lambda>bd. P bd \<and> b) (bz_check b e) (\<lambda>_. P)"
  by (auto simp: safe_def bz_check_def bz_ret_def bz_stop_def)

lemma safe_stop: "\<not> bad e \<Longrightarrow> safe P (bz_stop e) Q"
  by (auto simp: safe_def bz_stop_def)

lemma safe_if: "(b \<Longrightarrow> safe P m Q) \<Longrightarrow> (\<not> b \<Longrightarrow> safe P m' Q) \<Longrightarrow> safe P (if b then m else m') Q"
  by simp

lemma safe_fact: "(b \<Longrightarrow> safe P m Q) \<Longrightarrow> safe (\<lambda>bd. P bd \<and> b) m Q"
  by (auto simp: safe_def)

lemma safe_from: "(\<And>bd. P bd \<Longrightarrow> b) \<Longrightarrow> (b \<Longrightarrow> safe P m Q) \<Longrightarrow> safe P m Q"
  by (auto simp: safe_def)

lemma bad_error [simp]: "\<not> bad data_error"
  by (simp add: data_error_def RETVAL_DATA_ERROR_def)

section \<open>Reading\<close>

text \<open>The reader is well-formed, and \<open>C\<close> holds for the rest of the state.\<close>

definition ok :: "(bunzip_data \<Rightarrow> bool) \<Rightarrow> bunzip_data \<Rightarrow> bool" where
  "ok C bd \<longleftrightarrow> inbufPos bd \<le> length (inbuf bd) \<and> C (core bd)"

lemma next_byte_safe:
  "inbufPos bd \<le> length (inbuf bd) \<Longrightarrow> next_byte bd = (r, bd') \<Longrightarrow>
     (case r of Inl e \<Rightarrow> e = Longjmp RETVAL_UNEXPECTED_INPUT_EOF | Inr _ \<Rightarrow> inbufPos bd' \<le> length (inbuf bd') \<and> core bd' = core bd)"
proof -
  assume pos: "inbufPos bd \<le> length (inbuf bd)" and step: "next_byte bd = (r, bd')"
  show ?thesis
  proof (cases "rest_bytes bd")
    case Nil
    then have "r = Inl (Longjmp RETVAL_UNEXPECTED_INPUT_EOF)" using next_byte_end [OF Nil pos] step by simp
    then show ?thesis by simp
  next
    case (Cons b bs)
    obtain bd1 where "next_byte bd = (Inr (), bd1)" "inbufPos bd1 \<le> length (inbuf bd1)" "bits_only bd bd1"
      using next_byte_some [OF Cons pos] by metis
    then show ?thesis using step by (auto simp: bits_only_def)
  qed
qed

lemma bits_loop_safe:
  "inbufPos bd \<le> length (inbuf bd) \<Longrightarrow> bits_loop v c w bd = (r, bd') \<Longrightarrow>
     (case r of Inl e \<Rightarrow> e = Longjmp RETVAL_UNEXPECTED_INPUT_EOF | Inr _ \<Rightarrow> inbufPos bd' \<le> length (inbuf bd') \<and> core bd' = core bd)"
proof (induction v c w bd rule: bits_loop.induct)
  case (1 v c w bd)
  obtain q bd1 where q: "next_byte bd = (q, bd1)" by (cases "next_byte bd")
  note step = next_byte_safe [OF 1(3) q]
  show ?case
  proof (cases "w \<le> c")
    case True
    then show ?thesis using 1(3,4) by (auto simp: bits_loop.simps [of v c])
  next
    case False
    show ?thesis
    proof (cases q)
      case (Inl e)
      then show ?thesis using 1(4) q step False by (auto simp: bits_loop.simps [of v c] next_byte_def)
    next
      case (Inr u)
      then have "inbufPos bd1 \<le> length (inbuf bd1)" "core bd1 = core bd" using step by simp_all
      then show ?thesis
        using 1(1,2) [OF False q [unfolded next_byte_def, symmetric] Inr] 1(4) q False Inr
        by (cases r) (auto simp: bits_loop.simps [of v c] next_byte_def split: if_splits)
    qed
  qed
qed

lemma core_count [simp]: "core (bd\<lparr>inbufBitCount := n\<rparr>) = core bd" "core (unget_bits n bd) = core bd"
  by (simp_all add: core_def unget_bits_def)

lemma get_bits_safe:
  assumes "ok C bd" and "get_bits k bd = (r, bd')"
  shows "case r of Inl e \<Rightarrow> e = Longjmp RETVAL_UNEXPECTED_INPUT_EOF | Inr _ \<Rightarrow> ok C bd'"
proof -
  obtain q bd1 where q: "bits_loop 0 (inbufBitCount bd) k bd = (q, bd1)" by (cases "bits_loop 0 (inbufBitCount bd) k bd")
  show ?thesis
    using bits_loop_safe [OF _ q] assms q by (auto simp: get_bits_def ok_def split: sum.splits)
qed

lemma safe_get_bits: "safe (ok C) (get_bits k) (\<lambda>_. ok C)"
  using get_bits_safe by (intro safeI) fastforce+

lemma safe_huff_bits: "safe (ok C) (huff_bits n) (\<lambda>_. ok C)"
proof -
  have "ok C bd \<Longrightarrow> huff_bits n bd = (r, bd') \<Longrightarrow> (case r of Inl e \<Rightarrow> e = Longjmp RETVAL_UNEXPECTED_INPUT_EOF | Inr _ \<Rightarrow> ok C bd')" for bd r bd'
  proof (induction n bd rule: huff_bits.induct)
    case (1 n bd)
    show ?case
    proof (cases "inbufBitCount bd < n \<and> inbufPos bd \<noteq> length (inbuf bd)")
      case True
      then have pos: "inbufPos bd < length (inbuf bd)" using 1(2) by (auto simp: ok_def)
      let ?bd = "bd\<lparr>inbufBits := push_bit 8 (inbufBits bd) OR ucast (inbuf bd ! inbufPos bd), inbufPos := inbufPos bd + 1\<rparr>"
      have grab: "grab_byte bd = (Inr (), ?bd)" using pos by (simp add: grab_byte_def)
      have "ok C (?bd\<lparr>inbufBitCount := inbufBitCount bd + 8\<rparr>)"
        using 1(2) pos by (simp add: ok_def core_def)
      then show ?thesis
        using 1(1) [OF _ _ grab [symmetric] refl] 1(3) True grab by (simp add: huff_bits.simps [of n bd])
    next
      case False
      then show ?thesis
        using 1(2,3) get_bits_safe [of C bd n r bd'] by (auto simp: huff_bits.simps [of n bd] ok_def split: if_splits)
    qed
  qed
  then show ?thesis by (intro safeI) fastforce+
qed

section \<open>The tables of a block\<close>

text \<open>Facts about the state without the reader go from \<^term>\<open>core bd\<close> to \<^term>\<open>bd\<close>.\<close>

lemma ok_mono: "ok C bd \<Longrightarrow> (\<And>s. C s \<Longrightarrow> D s) \<Longrightarrow> ok D bd"
  by (simp add: ok_def)

lemma safe_ok_check: "\<not> bad e \<Longrightarrow> safe (ok C) (bz_check b e) (\<lambda>_ bd. ok C bd \<and> b)"
  by (rule safe_check)

lemma safe_ok_sure: "b \<Longrightarrow> safe (ok C) (bz_check b e) (\<lambda>_. ok C)"
  by (auto simp: safe_def bz_check_def bz_ret_def)

lemma safe_ok_upd: "(\<And>bd. ok C bd \<Longrightarrow> ok D (f bd)) \<Longrightarrow> safe (ok C) (bz_upd f) (\<lambda>_. ok D)"
  by (simp add: safe_def bz_upd_def)

lemma safe_keep: "safe P (bz_ret a) (\<lambda>_. P)" "safe P (bz_get f) (\<lambda>_. P)"
  by (simp_all add: safe_def bz_ret_def bz_get_def)

lemma safe_block_header:
  assumes "\<And>s x. C s \<Longrightarrow> C (s\<lparr>headerCRC := x\<rparr>)"
  shows "safe (ok C) block_header (\<lambda>_. ok C)"
proof -
  have upd: "safe (ok C) (bz_upd (\<lambda>bd. bd\<lparr>headerCRC := crc\<rparr>)) (\<lambda>_. ok C)" for crc
    by (rule safe_ok_upd) (simp add: ok_def assms)
  show ?thesis
    unfolding block_header_def
    by (intro safe_bind [OF safe_get_bits] safe_bind [OF upd] safe_bind [OF safe_ok_check] safe_bind [OF safe_keep(2)]
        safe_fact safe_keep; simp add: RETVAL_LAST_BLOCK_def RETVAL_NOT_BZIP_DATA_def RETVAL_OBSOLETE_INPUT_def)
qed

lemma inner_loop_length: "inner_loop m i s = (s', i') \<Longrightarrow> length s' + i \<le> length s + i' \<and> i' mod 16 = 0 \<and> i' \<le> i + 16 - i mod 16"
proof (induction m i s rule: inner_loop.induct)
  case (1 m i s)
  then show ?case
    by (auto simp: inner_loop.simps [of m] Let_def mod_Suc split: if_splits)
qed

lemma safe_symbol_map:
  "length s \<le> i \<Longrightarrow> i < 256 \<Longrightarrow> i mod 16 = 0 \<Longrightarrow> safe (ok C) (symbol_map t i s) (\<lambda>sy bd. ok C bd \<and> length sy \<le> 256)"
proof (induction t i s rule: symbol_map.induct)
  case (1 t i s)
  show ?case
  proof (cases "t AND 0x8000 = 0")
    case True
    have "i + 16 \<le> 256" using 1(4,5) by presburger
    then show ?thesis
      using 1 True by (subst symbol_map.simps) (auto intro!: safe_pre [OF safe_ret])
  next
    case False
    have "safe (ok C) (case inner_loop w i s of (sy, i) \<Rightarrow>
        bz_bind (bz_check (length sy \<le> 256) Overrun) (\<lambda>_.
        if i - 16 + 16 < 256 then symbol_map (push_bit 1 t) (i - 16 + 16) sy else bz_ret sy))
        (\<lambda>sy bd. ok C bd \<and> length sy \<le> 256)" for w
    proof -
      obtain sy i' where loop: "inner_loop w i s = (sy, i')" by (cases "inner_loop w i s")
      have i: "i + 16 \<le> 256" using 1(4,5) by presburger
      have "length sy \<le> i'" "i' mod 16 = 0" "i' \<le> 256" "16 \<le> i'"
        using inner_loop_length [OF loop] inner_loop_endD [OF loop] 1(3,5) i by auto
      then show ?thesis
        using 1(1) [OF False loop [symmetric]] loop
        by (auto intro!: safe_bind [OF safe_ok_sure] safe_pre [OF safe_ret])
    qed
    then show ?thesis
      using False by (subst symbol_map.simps) (simp add: safe_bind [OF safe_get_bits])
  qed
qed

lemma safe_selector_pos: "n \<le> g \<Longrightarrow> safe (ok C) (selector_pos g n) (\<lambda>n bd. ok C bd \<and> n \<le> g)"
proof (induction g n rule: selector_pos.induct)
  case (1 g n)
  have "safe (ok C) (if b = 0 then bz_ret n else if g \<le> n then bz_stop data_error else selector_pos g (n + 1))
      (\<lambda>n bd. ok C bd \<and> n \<le> g)" for b :: u32
    using 1 by (auto intro!: safe_stop safe_pre [OF safe_ret])
  then show ?case
    by (subst selector_pos.simps) (rule safe_bind [OF safe_get_bits])
qed

text \<open>The selectors so far are numbers of groups.\<close>

definition selected :: "nat \<Rightarrow> nat \<Rightarrow> bunzip_data \<Rightarrow> bool" where
  "selected g i s \<longleftrightarrow> bunzip_wf s \<and> (\<forall>j<i. selectors s ! j < g)"

lemma safe_read_selectors:
  "n \<le> 2 ^ 15 \<Longrightarrow> set m \<subseteq> {0..<g} \<Longrightarrow> i \<le> n \<Longrightarrow> length m = g \<Longrightarrow> 2 \<le> g \<Longrightarrow> g \<le> MAX_GROUPS \<Longrightarrow>
     safe (ok (selected g i)) (read_selectors g n i m) (\<lambda>_. ok (selected g n))"
proof (induction g n i m rule: read_selectors.induct)
  case (1 g n i m)
  show ?case
  proof (cases "i < n")
    case False
    then show ?thesis using 1(4) by (subst read_selectors.simps) (simp add: safe_keep)
  next
    case True
    have set: "safe (ok (selected g i)) (set_selector i (m ! p)) (\<lambda>_. ok (selected g (i + 1)))" if "p < length m" for p
    proof -
      have "m ! p < g" using 1(3) that by (auto dest: nth_mem)
      have "i < 2 ^ 15" using True 1(2) by (rule less_le_trans)
      then have len: "i < length (selectors bd)" if "ok (selected g i) bd" for bd
        using that by (simp add: ok_def selected_def bunzip_wf_def)
      moreover have "ok (selected g (i + 1)) (bd\<lparr>selectors := (selectors bd)[i := m ! p]\<rparr>)" if "ok (selected g i) bd" for bd
        using that len [OF that] \<open>m ! p < g\<close> by (auto simp: ok_def selected_def bunzip_wf_def nth_list_update less_Suc_eq)
      ultimately show ?thesis
        by (auto simp: safe_def set_selector_def bz_bind_def bz_get_def bz_check_def bz_ret_def bz_upd_def)
    qed
    have move: "set (move_to_front p m) \<subseteq> {0..<g}" if "p < length m" for p
      using set_move_to_front [OF that] 1(3) by simp
    have onward: "safe (ok (selected g (i + 1))) (read_selectors g n (i + 1) (move_to_front p m)) (\<lambda>_. ok (selected g n))"
      if "p < length m" for p
      using True 1 that by (intro 1(1) [OF True 1(2) move]) auto
    have "safe (ok (selected g i)) (bz_bind (bz_check (p < 256) Overrun) (\<lambda>_.
        bz_bind (bz_check (p < length m) (Unset_Selector p g)) (\<lambda>_.
        bz_bind (set_selector i (m ! p)) (\<lambda>_. read_selectors g n (i + 1) (move_to_front p m)))))
        (\<lambda>_. ok (selected g n))" if "p \<le> g" for p
    proof (cases "p < length m")
      case True
      then show ?thesis
        using 1(5,7) by (intro safe_bind [OF safe_ok_sure] safe_bind [OF set] onward) (auto simp: MAX_GROUPS_def)
    next
      case False
      then have "\<not> bad (Unset_Selector p g)" using that 1(5-7) by simp
      then show ?thesis
        using False that 1(5,7)
        by (intro safe_bind [OF safe_ok_sure] safe_bind [OF safe_ok_check] safe_fact) (auto simp: MAX_GROUPS_def)
    qed
    then show ?thesis
      using True by (subst read_selectors.simps, simp) (rule safe_bind [OF safe_selector_pos], simp, rule safe_fact)
  qed
qed

subsection \<open>The Huffman groups\<close>

definition group_made :: "group_data \<Rightarrow> bool" where
  "group_made h \<longleftrightarrow> group_wf h \<and> 1 \<le> minLen h \<and> minLen h \<le> maxLen h \<and> maxLen h \<le> MAX_HUFCODE_BITS \<and>
     limit h ! maxLen h = INT_MAX"

definition tables :: "nat \<Rightarrow> nat \<Rightarrow> nat \<Rightarrow> bunzip_data \<Rightarrow> bool" where
  "tables g n j s \<longleftrightarrow> selected g n s \<and> g \<le> MAX_GROUPS \<and> (\<forall>i<j. group_made (groups s ! i))"

lemma make_group_made: "lengths_range len \<Longrightarrow> group_wf g \<Longrightarrow> group_made (make_group len g)"
proof -
  assume len: "lengths_range len" and g: "group_wf g"
  have "set len \<noteq> {}" "\<forall>l\<in>set len. 1 \<le> l \<and> l \<le> MAX_HUFCODE_BITS" using len by (auto simp: lengths_range_def)
  then have "1 \<le> Min (set len)" "Min (set len) \<le> Max (set len)" "Max (set len) \<le> MAX_HUFCODE_BITS"
    using Min_in [of "set len"] Max_in [of "set len"] by auto
  then show ?thesis using make_group_tables(1-3,5) [OF len g] by (simp add: group_made_def)
qed

lemma safe_code_length: "safe (ok C) (code_length l) (\<lambda>v bd. ok C bd \<and> 0 \<le> v \<and> v \<le> 19)"
proof -
  have "ok C bd \<Longrightarrow> code_length l bd = (r, bd') \<Longrightarrow> (case r of Inl e \<Rightarrow> \<not> bad e | Inr v \<Rightarrow> ok C bd' \<and> 0 \<le> v \<and> v \<le> 19)" for bd r bd'
  proof (induction l bd rule: code_length.induct)
    case (1 l bd)
    obtain q bd1 where q: "get_bits 2 bd = (q, bd1)" by (cases "get_bits 2 bd")
    note bits = get_bits_safe [OF 1(2) q]
    show ?case
    proof (cases "l < 0 \<or> 19 < l")
      case True
      then show ?thesis using 1(3) by (auto simp: code_length.simps [of l bd])
    next
      case False
      show ?thesis
      proof (cases q)
        case (Inl e)
        then show ?thesis using 1(3) bits q False by (auto simp: code_length.simps [of l bd])
      next
        case (Inr w)
        then have ok: "ok C bd1" using bits by simp
        show ?thesis
        proof (cases "w < 2")
          case True
          then show ?thesis
            using 1(3) q Inr False ok by (auto simp: code_length.simps [of l bd] ok_def unget_bits_def)
        next
          case w: False
          show ?thesis
            by (rule 1(1) [OF False q [symmetric] Inr w ok]) (use 1(3) q Inr False w in \<open>simp add: code_length.simps [of l bd]\<close>)
        qed
      qed
    qed
  qed
  then show ?thesis by (intro safeI) fastforce+
qed

lemma safe_read_lengths:
  "safe (ok C) (read_lengths n l) (\<lambda>ls bd. ok C bd \<and> length ls = n \<and> (\<forall>x\<in>set ls. 1 \<le> x \<and> x \<le> MAX_HUFCODE_BITS))"
proof (induction n arbitrary: l)
  case 0
  show ?case by (simp add: safe_def bz_ret_def)
next
  case (Suc n)
  have "safe (ok C) (bz_bind (read_lengths n v) (\<lambda>ls. bz_ret (nat (v + 1) # ls)))
      (\<lambda>ls bd. ok C bd \<and> length ls = Suc n \<and> (\<forall>x\<in>set ls. 1 \<le> x \<and> x \<le> MAX_HUFCODE_BITS))" if "0 \<le> v \<and> v \<le> 19" for v
    by (rule safe_bind [OF Suc]) (use that in \<open>auto simp: safe_def bz_ret_def MAX_HUFCODE_BITS_def nat_le_iff\<close>)
  then show ?case
    by simp (rule safe_bind [OF safe_code_length], rule safe_fact)
qed

lemma safe_read_group:
  assumes "2 \<le> m" and "m \<le> 258" and "j < g"
  shows "safe (ok (tables g n j)) (read_group m j) (\<lambda>_. ok (tables g n (j + 1)))"
proof -
  have upd: "safe (ok (tables g n j)) (bz_upd (\<lambda>bd. bd\<lparr>groups := (groups bd)[j := make_group ls (groups bd ! j)]\<rparr>))
      (\<lambda>_. ok (tables g n (j + 1)))" if ls: "length ls = m \<and> (\<forall>x\<in>set ls. 1 \<le> x \<and> x \<le> MAX_HUFCODE_BITS)" for ls
  proof (rule safe_ok_upd)
    fix bd
    assume "ok (tables g n j) bd"
    then have bd: "inbufPos bd \<le> length (inbuf bd)" "tables g n j (core bd)" by (simp_all add: ok_def)
    then have j: "j < length (groups bd)" "group_wf (groups bd ! j)"
      using assms(3) by (auto simp: tables_def selected_def bunzip_wf_def)
    have "lengths_range ls" using ls assms(1,2) by (auto simp: lengths_range_def MAX_SYMBOLS_def)
    then have made: "group_made (make_group ls (groups bd ! j))" using j(2) by (rule make_group_made)
    then have "group_wf (make_group ls (groups bd ! j))" by (simp add: group_made_def)
    then show "ok (tables g n (j + 1)) (bd\<lparr>groups := (groups bd)[j := make_group ls (groups bd ! j)]\<rparr>)"
      using bd j made by (auto simp: ok_def tables_def selected_def bunzip_wf_def nth_list_update less_Suc_eq dest!: set_update_subset_insert [THEN subsetD])
  qed
  have fits: "safe (ok (tables g n j)) (bz_get (group_fits ls j)) (\<lambda>fits bd. ok (tables g n j) bd \<and> fits)"
    if ls: "length ls = m \<and> (\<forall>x\<in>set ls. 1 \<le> x \<and> x \<le> MAX_HUFCODE_BITS)" for ls
  proof -
    have "group_fits ls j bd" if "ok (tables g n j) bd" for bd
    proof -
      have "j < length (groups bd)" "group_wf (groups bd ! j)"
        using that assms(3) by (auto simp: ok_def tables_def selected_def bunzip_wf_def)
      then show ?thesis using ls assms(2) by (auto simp: group_fits_def group_wf_def MAX_HUFCODE_BITS_def MAX_SYMBOLS_def)
    qed
    then show ?thesis by (simp add: safe_def bz_get_def)
  qed
  show ?thesis
    unfolding read_group_def
    by (rule safe_bind [OF safe_get_bits], rule safe_bind [OF safe_ok_sure], use assms(2) in \<open>simp add: MAX_SYMBOLS_def\<close>,
        rule safe_bind [OF safe_read_lengths], rule safe_fact, rule safe_bind [OF fits], assumption,
        rule safe_bind [OF safe_sure], rule upd)
qed

lemma safe_read_groups:
  "2 \<le> m \<Longrightarrow> m \<le> 258 \<Longrightarrow> j \<le> g \<Longrightarrow> safe (ok (tables g n j)) (read_groups m g j) (\<lambda>_. ok (tables g n g))"
proof (induction m g j rule: read_groups.induct)
  case (1 m g j)
  show ?case
  proof (cases "j < g")
    case True
    then show ?thesis
      using 1 by (subst read_groups.simps) (simp add: safe_bind [OF safe_read_group])
  next
    case False
    then show ?thesis using 1(4) by (subst read_groups.simps) (simp add: safe_keep)
  qed
qed

lemma bits_loop_small:
  "bits_loop u c w bd = (Inr (v, c', w'), bd') \<Longrightarrow> u = 0 \<Longrightarrow> w \<le> 24 \<Longrightarrow> v = 0 \<and> w' = w"
proof (induction u c w bd rule: bits_loop.induct)
  case (1 u c w bd)
  show ?case
  proof (cases "w \<le> c")
    case False
    then obtain bd1 where step: "bz_bind refill (\<lambda>_. grab_byte) bd = (Inr (), bd1)"
      using 1(3) by (auto simp: bits_loop.simps [of u c] split: prod.splits sum.splits)
    then show ?thesis
      using 1(2) [OF False step [symmetric] refl] 1(3,4,5) False by (simp add: bits_loop.simps [of 0 c])
  qed (use 1(3,4) in \<open>simp add: bits_loop.simps [of 0 c]\<close>)
qed

lemma get_bits_less:
  assumes "get_bits n bd = (Inr v, bd')" and "n \<le> 24"
  shows "uint v < 2 ^ n"
proof -
  obtain c' w' u bd1 where loop: "bits_loop 0 (inbufBitCount bd) n bd = (Inr (u, c', w'), bd1)"
      and v: "v = u OR (drop_bit (c' - w') (inbufBits bd1) AND mask w')"
    using assms(1) by (auto simp: get_bits_def split: prod.splits sum.splits)
  have "v = take_bit n (drop_bit (c' - w') (inbufBits bd1))"
    using bits_loop_small [OF loop] assms(2) v by (simp add: take_bit_eq_mask)
  then show ?thesis
    using assms(2) by (simp add: unsigned_take_bit_eq)
qed

lemma huff_bits_less:
  assumes "huff_bits n bd = (Inr v, bd')" and "n \<le> 20"
  shows "uint v < 2 ^ n"
proof -
  have "get_bits n bd = (Inr v, bd')"
    using huff_bits_get_bits [of n bd] assms by (cases "fst (get_bits n bd)") (auto split: prod.splits)
  then show ?thesis using get_bits_less assms(2) by simp
qed

lemma code_len_bound:
  assumes "v \<le> lim ! (m - 1)" and "m \<le> length lim"
  shows "1 \<le> i \<Longrightarrow> i \<le> m \<Longrightarrow> \<exists>j. code_len lim v i = Some j \<and> 1 \<le> j \<and> j \<le> m"
proof (induction "m - i" arbitrary: i rule: less_induct)
  case less
  show ?case
  proof (cases "lim ! (i - 1) < v")
    case True
    then have "i < m" using assms(1) less(2,3) by (cases "i = m") auto
    then show ?thesis using less(1) [of "i + 1"] less(2) assms(2) True by (auto simp: code_len.simps [of lim v i])
  next
    case False
    then show ?thesis using less(2,3) assms(2) by (auto simp: code_len.simps [of lim v i])
  qed
qed

lemma safe_huff_symbol:
  assumes "group_made h"
  shows "safe (ok C) (huff_symbol h) (\<lambda>_. ok C)"
proof (rule safeI)
  have h: "1 \<le> minLen h" "minLen h \<le> maxLen h" "maxLen h \<le> 20" "limit h ! maxLen h = INT_MAX" "length (limit h) = 21"
      "length (base h) = 20" "length (permute h) = MAX_SYMBOLS"
    using assms by (auto simp: group_made_def group_wf_def MAX_HUFCODE_BITS_def)
  have some: "\<exists>j. code_len (limit h) (uint v) (minLen h) = Some j" if "huff_bits (maxLen h) bd = (Inr v, bd')" for v bd bd'
  proof -
    have "(2 :: int) ^ maxLen h \<le> 2 ^ 20" using h(3) by (intro power_increasing) simp_all
    then have "uint v \<le> INT_MAX" using huff_bits_less [OF that h(3)] by (simp add: INT_MAX_def)
    then show ?thesis using code_len_bound [of "uint v" "limit h" "maxLen h + 1" "minLen h"] h by auto
  qed
  note defs = huff_symbol_def bz_bind_def bz_check_def bz_stop_def bz_ret_def bz_upd_def Let_def
  fix bd :: bunzip_data
  assume ok: "ok C bd"
  obtain r bd1 where r: "huff_bits (maxLen h) bd = (r, bd1)" by (cases "huff_bits (maxLen h) bd")
  note bits = safeD [OF safe_huff_bits ok, of "maxLen h"]
  show "\<not> bad e" if "huff_symbol h bd = (Inl e, bd')" for e bd'
  proof (cases r)
    case (Inl e')
    then show ?thesis using that r bits by (simp add: defs)
  next
    case (Inr v)
    then show ?thesis
      using that r some [of bd v bd1] h(3,6,7) by (auto simp: defs nat_less_iff split: if_splits)
  qed
  show "ok C bd'" if "huff_symbol h bd = (Inr s, bd')" for s bd'
  proof (cases r)
    case (Inl e')
    then show ?thesis using that r by (simp add: defs)
  next
    case (Inr v)
    then have "ok C bd1" using r bits by simp
    then have "ok C (unget_bits j bd1)" for j by (simp add: ok_def) (simp add: unget_bits_def)
    then show ?thesis using that r Inr some [of bd v bd1] by (auto simp: defs split: if_splits)
  qed
qed

subsection \<open>The symbols\<close>

text \<open>The bytes so far and their counts agree; \<open>v\<close> holds the variables of the loop.\<close>

definition in_block :: "nat \<Rightarrow> nat \<Rightarrow> nat \<Rightarrow> block_vars \<Rightarrow> bunzip_data \<Rightarrow> bool" where
  "in_block g n m v s \<longleftrightarrow> tables g n g s \<and> length (mtfSymbol v) = 256 \<and> (\<forall>i<m. mtfSymbol v ! i < m) \<and>
     0 \<le> runCnt v \<and> runCnt v \<le> INT_MAX \<and> runPos v \<le> 2 * dbufSize s + 1 \<and>
     (\<exists>d. holds_bytes s v d) \<and> length (dbuf s) \<le> dbufSize s"

lemma tables_dbuf: "tables g n j (s\<lparr>dbuf := ds\<rparr>) = tables g n j s"
  by (simp add: tables_def selected_def bunzip_wf_def)

lemmas bz_defs = bz_bind_def bz_check_def bz_stop_def bz_ret_def bz_get_def bz_upd_def

lemma in_block_size: "ok (in_block g n m v) bd \<Longrightarrow> dbufSize bd < 2 ^ 24"
  by (simp add: ok_def in_block_def tables_def selected_def bunzip_wf_def)

lemma safe_run_symbol:
  assumes "k \<le> 1"
  shows "safe (ok (in_block g n m v)) (run_symbol k v) (\<lambda>v. ok (in_block g n m v))"
proof -
  let ?v = "if runPos v = 0 then v\<lparr>runPos := 1, runCnt := 0\<rparr> else v"
  let ?cnt = "runCnt ?v + int (runPos ?v * 2 ^ k)"
  have "case run_symbol k v bd of (Inl e, _) \<Rightarrow> \<not> bad e | (Inr v', bd') \<Rightarrow> ok (in_block g n m v') bd'"
    if bd: "ok (in_block g n m v) bd" for bd
  proof -
    have start: "0 \<le> runCnt ?v" "runCnt ?v \<le> INT_MAX" "runPos ?v \<le> 2 * dbufSize bd + 1"
      using bd by (auto simp: ok_def in_block_def INT_MAX_def)
    have "p * 2 ^ k < 2 ^ 27" if "p \<le> 2 * dbufSize bd + 1" for p
      using that assms in_block_size [OF bd] by (cases k) auto
    from this [OF start(3)] have "runPos ?v * 2 ^ k < 2 ^ 27" .
    then have "int (runPos ?v * 2 ^ k) < int (2 ^ 27)" by (simp only: of_nat_less_iff)
    then have "?cnt < INT_MAX + 2 ^ 27" "0 \<le> ?cnt" using start(1,2) by simp_all
    then show ?thesis
      using bd start
      by (auto simp: run_symbol_def bz_defs Let_def ok_def in_block_def holds_bytes_def)
  qed
  then show ?thesis by (simp add: safe_def)
qed

lemma safe_end_run: "safe (ok (in_block g n (length sy) v)) (end_run sy v) (\<lambda>v. ok (in_block g n (length sy) v))"
proof (cases "runPos v = 0")
  case True
  then show ?thesis by (simp add: end_run_def safe_keep) (auto simp: safe_def bz_ret_def)
next
  case False
  have "case end_run sy v bd of (Inl e, _) \<Rightarrow> \<not> bad e | (Inr v', bd') \<Rightarrow> ok (in_block g n (length sy) v') bd'"
    if bd: "ok (in_block g n (length sy) v) bd" for bd
  proof -
    have size: "int (length (dbuf bd)) + runCnt v < INT_MAX + 2 ^ 27"
      using in_block_size [OF bd] bd by (simp add: ok_def in_block_def)
    have unset: "length sy = 0" if "\<not> mtfSymbol v ! 0 < length sy"
      using bd that by (auto simp: ok_def in_block_def)
    let ?b = "sy ! (mtfSymbol v ! 0)" and ?n = "nat (runCnt v)"
    obtain d where d: "dbuf bd = map ucast d" "byteCount v = byte_counts d"
      using bd by (auto simp: ok_def in_block_def holds_bytes_def)
    show ?thesis
    proof (cases "int (length (dbuf bd)) + runCnt v < int (dbufSize bd)")
      case True
      moreover have "0 \<le> runCnt v" using bd by (simp add: ok_def in_block_def)
      ultimately have room: "length (dbuf bd) + ?n \<le> dbufSize bd" by linarith
      have "ok (in_block g n (length sy) (v\<lparr>byteCount := (byteCount v)[unat ?b := byteCount v ! unat ?b + ?n], runPos := 0\<rparr>))
          (bd\<lparr>dbuf := dbuf bd @ replicate ?n (ucast ?b)\<rparr>)"
        using bd room d
        by (auto simp: ok_def in_block_def holds_bytes_def tables_dbuf byte_counts_run intro!: exI [of _ "d @ replicate ?n ?b"])
      then show ?thesis
        using False put_run_appends [OF room, of ?b] size unset by (auto simp: end_run_def bz_defs Let_def)
    qed (use False size in \<open>auto simp: end_run_def bz_defs\<close>)
  qed
  then show ?thesis by (simp add: safe_def)
qed

lemma nth_move_to_front:
  "p < length xs \<Longrightarrow> i < length xs \<Longrightarrow> move_to_front p xs ! i = (if i = 0 then xs ! p else if i \<le> p then xs ! (i - 1) else xs ! i)"
  by (auto simp: move_to_front nth_Cons' nth_append)

lemma safe_literal_symbol:
  assumes "2 \<le> k" and "k \<le> length sy" and "length sy \<le> 256"
  shows "safe (ok (in_block g n (length sy) v)) (literal_symbol sy k v) (\<lambda>v. ok (in_block g n (length sy) v))"
proof -
  have "case literal_symbol sy k v bd of (Inl e, _) \<Rightarrow> \<not> bad e | (Inr v', bd') \<Rightarrow> ok (in_block g n (length sy) v') bd'"
    if bd: "ok (in_block g n (length sy) v) bd" for bd
  proof -
    let ?uc = "mtfSymbol v ! (k - 1)"
    let ?b = "sy ! ?uc"
    obtain d where d: "dbuf bd = map ucast d" "byteCount v = byte_counts d" and mtf: "length (mtfSymbol v) = 256"
      using bd by (auto simp: ok_def in_block_def holds_bytes_def)
    have k: "k - 1 < length (mtfSymbol v)" using assms mtf by simp
    have below: "\<forall>i<length sy. mtfSymbol v ! i < length sy" using bd by (simp add: ok_def in_block_def)
    then have uc: "?uc < length sy" using assms(1,2) by simp
    have moved: "\<forall>i<length sy. move_to_front (k - 1) (mtfSymbol v) ! i < length sy"
      using below assms k mtf uc by (simp add: nth_move_to_front)
    show ?thesis
    proof (cases "length (dbuf bd) < dbufSize bd")
      case True
      have "length (move_to_front (k - 1) (mtfSymbol v)) = 256" using k mtf by (simp add: move_to_front)
      then have "ok (in_block g n (length sy) (v\<lparr>mtfSymbol := move_to_front (k - 1) (mtfSymbol v),
          byteCount := (byteCount v)[unat ?b := byteCount v ! unat ?b + 1]\<rparr>)) (bd\<lparr>dbuf := dbuf bd @ [ucast ?b]\<rparr>)"
        using bd True d moved byte_counts_run [of d 1 ?b]
        by (auto simp: ok_def in_block_def holds_bytes_def tables_dbuf intro!: exI [of _ "d @ [?b]"])
      then show ?thesis
        using True k uc by (simp add: literal_symbol_def bz_defs Let_def put_dbuf_def)
    qed (use k in \<open>auto simp: literal_symbol_def bz_defs Let_def\<close>)
  qed
  then show ?thesis by (simp add: safe_def)
qed

lemma safe_next_symbol:
  assumes "length sy \<le> 256"
  shows "safe (ok (in_block g n (length sy) v)) (next_symbol sy k v) (\<lambda>(_, v). ok (in_block g n (length sy) v))"
proof -
  have ret: "safe (ok (in_block g n (length sy) v)) (bz_ret (b, v)) (\<lambda>(_, v). ok (in_block g n (length sy) v))" for b v
    by (simp add: safe_def bz_ret_def)
  show ?thesis
    unfolding next_symbol_def
    by (intro safe_if safe_bind [OF safe_run_symbol] safe_bind [OF safe_end_run] safe_bind [OF safe_literal_symbol] ret)
      (use assms in simp_all)
qed

lemma safe_group_loop:
  assumes "length sy \<le> 256" and "group_made h"
  shows "safe (ok (in_block g n (length sy) v)) (group_loop k h sy v) (\<lambda>(_, v). ok (in_block g n (length sy) v))"
proof (induction k arbitrary: v)
  case 0
  show ?case by (simp add: safe_def bz_ret_def)
next
  case (Suc k)
  have "safe (case p of (_, v) \<Rightarrow> ok (in_block g n (length sy) v))
      (case p of (done, v) \<Rightarrow> if done then bz_ret (True, v) else group_loop k h sy v) (\<lambda>(_, v). ok (in_block g n (length sy) v))" for p
    using Suc by (cases p) (auto simp: safe_def bz_ret_def)
  then show ?case
    by simp (rule safe_bind [OF safe_huff_symbol [OF assms(2)]], rule safe_bind [OF safe_next_symbol [OF assms(1)]])
qed

lemma safe_symbol_loop:
  "length sy \<le> 256 \<Longrightarrow> n \<le> 2 ^ 15 \<Longrightarrow> safe (ok (in_block g n (length sy) v)) (symbol_loop sy n i v) (\<lambda>v. ok (in_block g n (length sy) v))"
proof (induction sy n i v rule: symbol_loop.induct)
  case (1 sy n i v)
  show ?case
  proof (cases "n \<le> i")
    case True
    then show ?thesis by (subst symbol_loop.simps) (simp add: safe_stop)
  next
    case False
    have "i < length (selectors bd) \<and> selectors bd ! i < length (groups bd) \<and> group_made (groups bd ! (selectors bd ! i))"
      if "ok (in_block g n (length sy) v) bd" for bd
    proof -
      have "length (selectors bd) = 2 ^ 15" "length (groups bd) = MAX_GROUPS" "selectors bd ! i < g" "g \<le> MAX_GROUPS"
          "\<forall>i<g. group_made (groups bd ! i)"
        using that False by (auto simp: ok_def in_block_def tables_def selected_def bunzip_wf_def)
      then show ?thesis using False 1(3) by simp
    qed
    then have get: "safe (ok (in_block g n (length sy) v)) (get_group i) (\<lambda>h bd. ok (in_block g n (length sy) v) bd \<and> group_made h)"
      by (simp add: safe_def get_group_def)
    have "safe (case p of (_, v) \<Rightarrow> ok (in_block g n (length sy) v))
        (case p of (done, v) \<Rightarrow> if done then bz_ret v else symbol_loop sy n (i + 1) v) (\<lambda>v. ok (in_block g n (length sy) v))" for p
      using 1(1) [OF False] 1(2,3) by (cases p) (auto simp: safe_def bz_ret_def)
    then show ?thesis
      using False
      by (subst symbol_loop.simps, simp)
        (rule safe_bind [OF get], rule safe_fact, rule safe_bind [OF safe_group_loop [OF 1(2)]], simp_all)
  qed
qed

subsection \<open>A block\<close>

text \<open>The links of the block, which \<open>pos\<close> is the next of, unless there is nothing left.\<close>

definition follows :: "nat \<Rightarrow> bunzip_data \<Rightarrow> bool" where
  "follows pos bd \<longleftrightarrow> (\<exists>d. dbuf bd = linked d (length d) \<and> length d < 2 ^ 24 \<and> (pos < length d \<or> writeCount bd \<le> 0))"

definition ready :: "nat \<Rightarrow> bunzip_data \<Rightarrow> bool" where
  "ready pos bd \<longleftrightarrow> ok bunzip_wf bd \<and> follows pos bd"

lemma safe_get_next_block: "safe (ok bunzip_wf) get_next_block (\<lambda>_ bd. ready (writePos bd) bd)"
proof -
  have head: "safe (ok bunzip_wf) block_header (\<lambda>_. ok bunzip_wf)"
    by (rule safe_block_header) (simp add: bunzip_wf_def)
  have sel: "safe (ok bunzip_wf) (read_selectors g n 0 [0..<g]) (\<lambda>_. ok (selected g n))"
    if "n \<le> 2 ^ 15" "2 \<le> g \<and> g \<le> MAX_GROUPS" for g n
    by (rule safe_pre [OF safe_read_selectors [OF that(1)]]) (use that(2) in \<open>auto simp: ok_def selected_def\<close>)
  have grp: "safe (ok (selected g n)) (read_groups (length sy + 2) g 0) (\<lambda>_. ok (tables g n g))"
    if "g \<le> MAX_GROUPS" "length sy \<le> 256" for g n and sy :: "byte list"
    by (rule safe_pre [OF safe_read_groups]) (use that in \<open>auto simp: ok_def tables_def\<close>)
  let ?v = "\<lparr>runPos = 0, runCnt = 0, byteCount = replicate 256 0, mtfSymbol = [0..<256]\<rparr>"
  have counts: "replicate 256 0 = byte_counts []" by (rule nth_equalityI) (simp_all add: byte_counts_def)
  have clear: "safe (ok (tables g n g)) (bz_upd (\<lambda>bd. bd\<lparr>dbuf := []\<rparr>)) (\<lambda>_. ok (in_block g n m ?v))" if "m \<le> 256" for g n m
    by (rule safe_ok_upd) (use that in \<open>auto simp: ok_def in_block_def tables_dbuf holds_bytes_def counts INT_MAX_def\<close>)
  have link: "safe (ok (in_block g n m v)) (link_block (byteCount v))
      (\<lambda>_ bd. ok bunzip_wf bd \<and> (\<exists>d. dbuf bd = linked d (length d) \<and> length d < 2 ^ 24))" for g n m v
  proof -
    have "\<exists>d. link_dbuf (byteCount v) (dbuf bd) = Some (linked d (length d)) \<and> length d < 2 ^ 24" if "ok (in_block g n m v) bd" for bd
      using that by (auto simp: ok_def in_block_def holds_bytes_def link_dbuf_linked tables_def selected_def bunzip_wf_def
          intro: exI)
    then show ?thesis
      by (fastforce simp: safe_def link_block_def ok_def in_block_def tables_def selected_def bunzip_wf_def)
  qed
  have start: "safe (\<lambda>bd. ok bunzip_wf bd \<and> (\<exists>d. dbuf bd = linked d (length d) \<and> length d < 2 ^ 24)) (start_output p)
      (\<lambda>_ bd. ready (writePos bd) bd)" for p
  proof -
    have "case start_output p bd of (Inl e, _) \<Rightarrow> \<not> bad e | (Inr _, bd') \<Rightarrow> ready (writePos bd') bd'"
      if bd: "ok bunzip_wf bd" "dbuf bd = linked d (length d)" "length d < 2 ^ 24" for bd d
    proof (cases "p < length d")
      case True
      have "links d ! p < length d" using True links_perm [of d] by (metis atLeastLessThan_iff nth_mem)
      then show ?thesis
        using bd True linked_high [OF True bd(3)] 
        by (auto simp: start_output_def Let_def ready_def follows_def ok_def bunzip_wf_def linked_def)
    next
      case False
      then show ?thesis
        using bd by (auto simp: start_output_def ready_def follows_def ok_def bunzip_wf_def linked_def)
    qed
    then show ?thesis unfolding safe_def by (intro allI impI, elim conjE exE) simp
  qed
  have selectors: "safe (ok C) (get_bits 15) (\<lambda>n bd. ok C bd \<and> unat n \<le> 2 ^ 15)" for C
  proof (rule safeI)
    fix bd e n bd'
    assume "ok C bd"
    note bits = safeD [OF safe_get_bits this, of 15]
    show "get_bits 15 bd = (Inl e, bd') \<Longrightarrow> \<not> bad e" by (rule bits)
    assume get: "get_bits 15 bd = (Inr n, bd')"
    have "uint n < 2 ^ 15" by (rule get_bits_less [OF get]) simp
    then have "int (unat n) < int (2 ^ 15)" by simp
    then have "unat n < 2 ^ 15" by (simp only: of_nat_less_iff)
    then show "ok C bd' \<and> unat n \<le> 2 ^ 15" using bits(2) [OF get] by simp
  qed
  have map: "safe (ok C) (symbol_map t 0 []) (\<lambda>sy bd. ok C bd \<and> length sy \<le> 256)" for C t
    by (rule safe_symbol_map) simp_all
  show ?thesis
    unfolding get_next_block_def
    by (rule safe_bind [OF head], rule safe_bind [OF safe_get_bits], rule safe_bind [OF map], rule safe_fact,
        rule safe_bind [OF safe_get_bits], rule safe_bind [OF safe_ok_check], simp, rule safe_fact,
        rule safe_bind [OF selectors], rule safe_fact, rule safe_bind [OF safe_ok_check], simp, rule safe_fact,
        rule safe_bind [OF sel], assumption, assumption, rule safe_bind [OF grp], simp, simp, rule safe_bind [OF clear],
        assumption, rule safe_bind [OF safe_symbol_loop], simp, simp, rule safe_bind [OF link], rule start)
qed

section \<open>The output\<close>

lemma counters_ready:
  "ready p bd \<Longrightarrow> writeCount bd' \<le> writeCount bd \<Longrightarrow> dbuf bd' = dbuf bd \<Longrightarrow> core bd' = (core bd)\<lparr>writeCount := c, writeCopies := m,
     writeRunCountdown := k\<rparr> \<Longrightarrow> inbufPos bd' = inbufPos bd \<Longrightarrow> inbuf bd' = inbuf bd \<Longrightarrow> ready p bd'"
  by (auto simp: ready_def follows_def ok_def bunzip_wf_def)

lemma decode_next_safe:
  assumes "ready (out_pos v) bd" and "decode_next v bd = (r, bd')"
  shows "case r of Inl e \<Rightarrow> False
    | Inr (l, v') \<Rightarrow> ready (out_pos v') bd' \<and> (l = None \<longrightarrow> writeCount bd' < 0)"
proof (cases "writeCount bd - 1 < 0")
  case True
  then show ?thesis
    using assms by (auto simp: decode_next_def Let_def ready_def follows_def ok_def bunzip_wf_def core_def)
next
  case False
  obtain d where d: "dbuf bd = linked d (length d)" "length d < 2 ^ 24" "out_pos v < length d"
    using assms(1) False by (auto simp: ready_def follows_def)
  have len: "length (dbuf bd) = length d" by (simp add: d linked_def)
  have "links d ! out_pos v < length d" using d(3) links_perm [of d] by (metis atLeastLessThan_iff nth_mem)
  then have "unat (drop_bit 8 (dbuf bd ! out_pos v)) < length d" using linked_high [OF d(3,2)] by (simp add: d(1))
  moreover have "ok bunzip_wf bd" using assms(1) by (simp add: ready_def)
  ultimately show ?thesis
    using assms(2) False d len
    by (auto simp: decode_next_def Let_def ready_def follows_def ok_def bunzip_wf_def core_def split: if_splits)
qed

lemma out_loop_safe:
  "ready (out_pos v) bd \<Longrightarrow> out_loop l v bd = (r, bd') \<Longrightarrow>
     (case r of Inl e \<Rightarrow> False | Inr (e, v') \<Rightarrow> ready (out_pos v') bd' \<and> (e = Block_Done \<longrightarrow> writeCount bd' < 0))"
proof (induction l v bd rule: out_loop.induct)
  case (1 v bd)
  have "ready (out_pos v) (bd\<lparr>writeCopies := writeCopies bd - 1\<rparr>)"
    using 1(2) by (auto simp: ready_def follows_def ok_def bunzip_wf_def core_def)
  then show ?case using 1(1,3) by (simp add: out_loop.simps(1))
next
  case (2 v bd)
  then show ?case by (auto simp: out_loop.simps(2) Let_def split: if_splits)
next
  case (3 v bd)
  obtain q bd1 where q: "decode_next v bd = (q, bd1)" by (cases "decode_next v bd")
  note step = decode_next_safe [OF 3(2) q]
  then obtain l v1 where l: "q = Inr (l, v1)" by (cases q) auto
  show ?case
  proof (cases l)
    case None
    then show ?thesis using 3(3) q l step by (auto simp: out_loop.simps(3))
  next
    case (Some l')
    then show ?thesis
      using 3(1) [OF q [symmetric] l refl Some] 3(3) q l step by (auto simp: out_loop.simps(3))
  qed
qed

text \<open>Between the calls of \<open>read_bunzip\<close>.\<close>

definition restful :: "bunzip_data \<Rightarrow> bool" where
  "restful bd \<longleftrightarrow> writeCount bd < 0 \<or> ready (writePos bd) bd"

lemma out_block_safe:
  assumes "ready (out_pos v) bd" and "out_block l v bd = (r, bd')"
  shows "case r of Inl e \<Rightarrow> False
    | Inr (None, _) \<Rightarrow> ok bunzip_wf bd' | Inr (Some _, _) \<Rightarrow> restful bd'"
proof -
  obtain q bd1 where q: "out_loop l v bd = (q, bd1)" by (cases "out_loop l v bd")
  note loop = out_loop_safe [OF assms(1) q]
  then obtain e v1 where e: "q = Inr (e, v1)" by (cases q) auto
  have ready: "ready (out_pos v1) bd1" "e = Block_Done \<Longrightarrow> writeCount bd1 < 0" using loop e by auto
  show ?thesis
  proof (cases e)
    case Outbuf_Full
    then show ?thesis
      using assms(2) q e ready
      by (auto simp: out_block_def bz_bind_def bz_upd_def bz_ret_def restful_def ready_def follows_def ok_def bunzip_wf_def)
  next
    case Block_Done
    then show ?thesis
      using assms(2) q e ready
      by (cases "NOT (out_CRC v1) = headerCRC bd1")
        (auto simp: out_block_def bz_bind_def bz_ret_def end_block_def Let_def restful_def ready_def ok_def bunzip_wf_def)
  qed
qed

lemma next_blocks_safe:
  "ok bunzip_wf bd \<Longrightarrow> next_blocks v bd = (r, bd') \<Longrightarrow>
     (case r of Inl e \<Rightarrow> \<not> bad e \<and> (\<forall>i. e \<noteq> Retval i) | Inr _ \<Rightarrow> restful bd')"
proof (induction v bd rule: next_blocks.induct)
  case (1 v bd)
  obtain q bd1 where q: "get_next_block bd = (q, bd1)" by (cases "get_next_block bd")
  note block = safeD [OF safe_get_next_block 1(2)]
  show ?case
  proof (cases q)
    case (Inl e)
    then have "\<not> bad e" using q block by simp
    then show ?thesis
      using 1(3) q Inl by (cases e) (auto simp: next_blocks.simps [of v bd] restful_def)
  next
    case (Inr u)
    let ?v = "v\<lparr>out_CRC := NOT 0, out_pos := writePos bd1, out_current := writeCurrent bd1\<rparr>"
    have "ready (out_pos ?v) bd1" using block(2) q Inr by simp
    moreover obtain p bd2 where p: "out_block Decode_Next ?v bd1 = (p, bd2)" by (cases "out_block Decode_Next ?v bd1")
    ultimately have out: "case p of Inl e \<Rightarrow> False | Inr (None, _) \<Rightarrow> ok bunzip_wf bd2 | Inr (Some _, _) \<Rightarrow> restful bd2"
      by (rule out_block_safe)
    then obtain w v2 where w: "p = Inr (w, v2)" by (cases p) auto
    show ?thesis
    proof (cases w)
      case None
      then have "ok bunzip_wf bd2" using out w by simp
      then show ?thesis
        using 1(1) [OF q [symmetric] Inr p [symmetric] w refl None] 1(3) q Inr p w None
        by (simp add: next_blocks.simps [of v bd])
    next
      case (Some i)
      then show ?thesis using 1(3) q Inr p w out by (auto simp: next_blocks.simps [of v bd])
    qed
  qed
qed

lemma read_bunzip_safe:
  assumes "restful bd" and "read_bunzip n bd = (r, bd')"
  shows "case r of Inl e \<Rightarrow> \<not> bad e \<and> (\<forall>i. e \<noteq> Retval i) | Inr _ \<Rightarrow> restful bd'"
proof (cases "writeCount bd < 0")
  case True
  then show ?thesis using assms by (auto simp: read_bunzip_def)
next
  case False
  let ?v = "\<lparr>out_pos = writePos bd, out_current = writeCurrent bd, out_CRC = writeCRC bd, out_len = n, outbuf = []\<rparr>"
  have ready: "ready (out_pos ?v) bd" using assms(1) False by (simp add: restful_def)
  then have ok: "ok bunzip_wf bd" by (simp add: ready_def)
  show ?thesis
  proof (cases "writeCopies bd = 0")
    case True
    then show ?thesis using assms(2) False next_blocks_safe [OF ok, of ?v r bd'] by (simp add: read_bunzip_def)
  next
    case copies: False
    obtain p bd1 where p: "out_block Dec_Copies ?v bd = (p, bd1)" by (cases "out_block Dec_Copies ?v bd")
    note out = out_block_safe [OF ready p]
    then obtain w v1 where w: "p = Inr (w, v1)" by (cases p) auto
    then show ?thesis
      using out assms(2) False copies p next_blocks_safe [of bd1 v1 r bd']
      by (cases w) (auto simp: read_bunzip_def)
  qed
qed

section \<open>unpack_bz2_stream\<close>

text \<open>What can come of any input: a \<open>longjmp\<close> is not left, and a \<open>return\<close> is a value.\<close>

fun expected :: "bz_stop \<Rightarrow> bool" where
  "expected (Retval r) \<longleftrightarrow> False"
| "expected (Longjmp r) \<longleftrightarrow> False"
| "expected e \<longleftrightarrow> \<not> bad e"

lemma produce_safe:
  "restful bd \<Longrightarrow> case fst (produce bd dst) of Inl e \<Rightarrow> expected e | Inr r \<Rightarrow> (case r of None \<Rightarrow> True | Some i \<Rightarrow> i \<le> 0)"
proof (induction bd dst rule: produce.induct)
  case (1 bd dst)
  obtain q bd1 where q: "read_bunzip IOBUF_SIZE bd = (q, bd1)" by (cases "read_bunzip IOBUF_SIZE bd")
  note read = read_bunzip_safe [OF 1(2) q]
  show ?case
  proof (cases q)
    case (Inl e)
    then show ?thesis using read q by (cases e) (auto simp: produce.simps [of bd dst])
  next
    case (Inr u)
    obtain r out where u: "u = (r, out)" by (cases u)
    obtain m dst1 where w: "full_write (take (IOBUF_SIZE - nat r) out) dst = (m, dst1)"
      by (cases "full_write (take (IOBUF_SIZE - nat r) out) dst")
    show ?thesis
      using 1(1) [OF q [symmetric] Inr u [symmetric] _ refl _ w [symmetric]] read Inr q u w
      by (auto simp: produce.simps [of bd dst] Let_def)
  qed
qed

lemma start_bunzip_safe:
  assumes "start_bunzip sz malloc fd buf = (r, bd)"
  shows "case r of Inl e \<Rightarrow> e = Died | Inr i \<Rightarrow> i \<le> 0 \<and> (i = 0 \<longrightarrow> restful bd)"
proof -
  let ?new = "new_bunzip fd buf" and ?C = "\<lambda>s. bunzip_wf s \<and> dbuf s = [] \<and> writeCount s = 0"
  have "ok ?C ?new"
    using bunzip_wf_new [of 0 fd buf] by (simp add: ok_def bunzip_wf_def new_bunzip_def)
  then have bits: "get_bits 16 ?new = (q, bd1) \<Longrightarrow> (case q of Inl e \<Rightarrow> e = Longjmp RETVAL_UNEXPECTED_INPUT_EOF | Inr _ \<Rightarrow> ok ?C bd1)"
    for q bd1
    by (rule get_bits_safe)
  obtain q bd1 where q: "get_bits 16 ?new = (q, bd1)" by (cases "get_bits 16 ?new")
  show ?thesis
  proof (cases q)
    case (Inl e)
    then show ?thesis
      using assms bits [OF q] q
      by (auto simp: start_bunzip_def RETVAL_UNEXPECTED_INPUT_EOF_def Let_def split: if_splits)
  next
    case (Inr i)
    let ?h = "i - (push_bit 8 0x68 + 0x30)"
    have restful: "restful (bd1\<lparr>dbufSize := 100000 * unat ?h\<rparr>)" if "\<not> 9 \<le> ?h - 1"
    proof -
      have "?h - 1 < 9" using that by simp
      then have "unat (?h - 1) < 9" by (simp add: word_less_nat_alt)
      then have "unat ?h < 10" using unat_minus_one [of ?h] by (cases "?h = 0") auto
      then show ?thesis
        using bits [OF q] Inr
        by (auto simp: restful_def ready_def follows_def ok_def bunzip_wf_def core_def linked_def intro!: exI [of _ "[]"])
    qed
    then show ?thesis
      using assms q Inr
      by (auto simp: start_bunzip_def Let_def RETVAL_NOT_BZIP_DATA_def RETVAL_OK_def split: if_splits)
  qed
qed

lemma unpack_loop_safe: "case fst (unpack_loop sz malloc src buf dst) of Inl e \<Rightarrow> expected e | Inr i \<Rightarrow> i \<le> 0"
proof (induction sz malloc src buf dst rule: unpack_loop.induct)
  case (1 sz malloc src buf dst)
  obtain r bd where start: "start_bunzip sz malloc src buf = (r, bd)" by (cases "start_bunzip sz malloc src buf")
  note s = start_bunzip_safe [OF start]
  show ?case
  proof (cases r)
    case (Inl e)
    then show ?thesis using s start by (simp add: unpack_loop.simps [of sz])
  next
    case (Inr i)
    obtain q bd1 dst1 where q: "(if i = 0 then produce bd dst else (Inr (Some i), bd, dst)) = (q, bd1, dst1)"
      by (cases "if i = 0 then produce bd dst else (Inr (Some i), bd, dst)") auto
    then have out: "case q of Inl e \<Rightarrow> expected e | Inr r \<Rightarrow> (case r of None \<Rightarrow> True | Some i \<Rightarrow> i \<le> 0)"
      using s Inr produce_safe [of bd dst] by (auto split: if_splits)
    note loop = unpack_loop.simps [of sz malloc src buf dst]
    show ?thesis
    proof (cases q)
      case (Inl e)
      then show ?thesis using out start \<open>r = Inr i\<close> q by (simp add: loop)
    next
      case q': (Inr m)
      show ?thesis
      proof (cases m)
        case None
        then show ?thesis using start \<open>r = Inr i\<close> q q' by (simp add: loop RETVAL_SHORT_WRITE_def)
      next
        case (Some k)
        then have k: "k \<le> 0" using out q' by simp
        obtain b src1 where magic: "next_magic (drop (inbufPos bd1) (inbuf bd1)) (in_fd bd1) = (b, src1)"
          by (cases "next_magic (drop (inbufPos bd1) (inbuf bd1)) (in_fd bd1)")
        show ?thesis
        proof (cases "k = RETVAL_LAST_BLOCK \<and> headerCRC bd1 = totalCRC bd1")
          case True
          then show ?thesis
            using start \<open>r = Inr i\<close> q q' Some magic
              1 [OF start [symmetric] Inr q [symmetric] q' Some refl _ _ magic [symmetric], of "the b"]
            by (cases b) (simp_all add: loop RETVAL_OK_def)
        next
          case False
          then show ?thesis using start \<open>r = Inr i\<close> q q' Some k by (auto simp: loop)
        qed
      qed
    qed
  qed
qed

end
