(* ===== verification/Bz_Correct.thy ===== *)
theory Bz_Correct
  imports Bz_Safe
begin

text \<open>
  What the decompressor of \<open>busybox/archival/libarchive/decompress_bunzip2.c\<close> does, from its bit reader to
  \<open>unpack_bz2_stream_prime\<close>, with a small file as an example.
\<close>

section \<open>An example\<close>

text \<open>A run of five bytes, in a block with two codes.\<close>

definition sample_block :: bz_block where
  "sample_block = \<lparr>block_data = [97, 97, 97, 97, 97], origin = 4, code_lengths = [[1, 2, 3, 3], [2, 2, 2, 2]], code_choice = [1]\<rparr>"

lemma runs_sample: "runs [97, 97, 97, 97, 97] = [97, 97, 97, 97, 1]"
  by (simp add: runs_def run_bytes_def eval_nat_numeral)

lemma sample_rotations:
  "rotations [97, 97, 97, 97, 1] =
     [[1, 97, 97, 97, 97], [97, 1, 97, 97, 97], [97, 97, 1, 97, 97], [97, 97, 97, 1, 97], [97, 97, 97, 97, 1 :: byte]]"
  by (simp add: rotations_def upt_rec)

lemma sample_last: "last_column [97, 97, 97, 97, 1] = [97, 97, 97, 97, 1]"
  by (simp add: last_column_def sample_rotations)

lemma used_bytes_sorted: "sorted (used_bytes B)" "distinct (used_bytes B)"
proof -
  have "sorted_wrt (\<lambda>i j. (of_nat i :: byte) < of_nat j) (filter (\<lambda>i. (of_nat i :: byte) \<in> B) [0..<256])"
    by (rule sorted_wrt_mono_rel [where P = "(<)"]) (auto simp: word_less_nat_alt unat_of_nat sorted_wrt_filter)
  then have "sorted_wrt (<) (used_bytes B)"
    by (simp add: used_bytes_def sorted_wrt_map)
  then show "sorted (used_bytes B)" "distinct (used_bytes B)"
    by (simp_all add: strict_sorted_iff)
qed

lemma sample_used: "used_bytes {1, 97} = [1, 97]"
  by (rule sorted_distinct_set_unique) (auto simp: used_bytes_sorted used_bytes_set)

lemma run_digits_sample: "run_digits 0 = []" "run_digits (Suc 0) = [0]" "run_digits (Suc (Suc (Suc 0))) = [0, 0]"
proof -
  show zero: "run_digits 0 = []" by (subst run_digits.simps) simp
  show one: "run_digits (Suc 0) = [0]" by (subst run_digits.simps) (simp add: zero)
  show "run_digits (Suc (Suc (Suc 0))) = [0, 0]" by (subst run_digits.simps) (simp add: one)
qed

lemma sample_symbols: "block_symbols [97, 97, 97, 97, 1] = [2, 0, 0, 2]"
proof -
  have "[0..<256] = 0 # 1 # [2..<256]" by (simp add: upt_conv_Cons)
  moreover have "map (\<lambda>b. place b (used_bytes (set [97, 97, 97, 97, 1]))) (last_column [97, 97, 97, 97, 1]) = [1, 1, 1, 1, 0]"
    by (simp add: sample_last insert_commute sample_used place_def)
  ultimately show ?thesis
    by (simp add: block_symbols_def place_def move_to_front run_digits_sample)
qed

lemma sample_kraft: "kraft [Suc 0, 2, 3, 3]" "kraft [2, 2, 2, 2]"
  by (simp_all add: kraft_def eval_nat_numeral)

lemma sample_codes: "codes_ok [[1, 2, 3, 3], [2, 2, 2, 2]] [1] [97, 97, 97, 97, 1]"
  by (simp add: codes_ok_def sample_symbols sample_kraft insert_commute sample_used lengths_ok_def lengths_range_def
      MAX_GROUPS_def MAX_SYMBOLS_def MAX_HUFCODE_BITS_def GROUP_SIZE_def)

lemma sample_ok: "block_ok 100000 sample_block"
  using sample_codes by (simp add: block_ok_def sample_block_def runs_sample sample_rotations)

section \<open>Bits\<close>

text \<open>C17: \<open>get_bits\<close> takes the first bits of the input as a number, for up to 32 bits, and jumps out when there are not as many.\<close>

theorem get_bits_takes_bits:
  assumes "bits_wf bd" and "k \<le> 32"
  shows "if k \<le> length (bit_stream bd)
    then \<exists>bd'. get_bits k bd = (Inr (bits_val (take k (bit_stream bd))), bd') \<and> bit_stream bd' = drop k (bit_stream bd) \<and>
      bits_wf bd' \<and> core bd' = core bd
    else fst (get_bits k bd) = Inl (Longjmp RETVAL_UNEXPECTED_INPUT_EOF)"
proof (cases "k \<le> length (bit_stream bd)")
  case True
  have str: "bit_stream bd = take k (bit_stream bd) @ drop k (bit_stream bd)" by simp
  have len: "length (take k (bit_stream bd)) = k" using True by simp
  obtain bd' where "get_bits k bd = (Inr (bits_val (take k (bit_stream bd))), bd')" "bits_wf bd'"
      "bit_stream bd' = drop k (bit_stream bd)" "bits_only bd bd'"
    by (rule get_bits_append [OF str len assms(2,1)])
  then show ?thesis using True by (simp add: bits_only_def)
next
  case False
  then show ?thesis using get_bits_short [OF _ assms(2,1)] by simp
qed

lemma get_bits_takes_bits_witness:
  "\<exists>bd'. get_bits 12 (new_bunzip [Data [0x1A], Data [0xBC, 0xDE]] []) = (Inr 0x1AB, bd') \<and> length (bit_stream bd') = 12"
proof -
  let ?bd = "new_bunzip [Data [0x1A], Data [0xBC, 0xDE]] []"
  have "bits_wf ?bd" "bit_stream ?bd = byte_stream [0x1A, 0xBC, 0xDE]"
    by (simp_all add: bits_wf_def new_bunzip_def bit_stream_def)
  moreover have "bits_val (take 12 (byte_stream [0x1A, 0xBC, 0xDE])) = 0x1AB"
    by (simp add: byte_stream_def low_bits_def bits_val_def upt_rec)
  ultimately show ?thesis
    using get_bits_takes_bits [of ?bd 12] by auto
qed

text \<open>C18: The read that \<open>get_next_block\<close> has inline gives what \<open>get_bits\<close> gives, for every state and up to 24 bits.\<close>

theorem inline_read_is_get_bits:
  assumes "n \<le> 24"
  shows "fst (huff_bits n bd) = fst (get_bits n bd) \<and> (isl (fst (get_bits n bd)) \<or> huff_bits n bd = get_bits n bd)"
  using huff_bits_get_bits [OF assms] by blast

lemma inline_read_is_get_bits_witness:
  "fst (huff_bits 20 (new_bunzip [Data [1, 2], Eintr] [3])) = fst (get_bits 20 (new_bunzip [Data [1, 2], Eintr] [3]))"
  using inline_read_is_get_bits [of 20 "new_bunzip [Data [1, 2], Eintr] [3]"] by simp

section \<open>Symbols\<close>

text \<open>
  C15: A symbol is read from the canonical code of its group, for all code lengths that the format has, whatever the
  tables held before.
\<close>

theorem huff_symbol_decodes:
  assumes "lengths_ok len" and "group_wf g" and "k < length len"
    and "bits_wf bd" and "bit_stream bd = code_bits len k @ rest" and "20 \<le> length rest"
  shows "\<exists>bd'. huff_symbol (make_group len g) bd = (Inr k, bd') \<and> bit_stream bd' = rest \<and> bits_wf bd' \<and> core bd' = core bd"
  by (rule readsD [OF huff_symbol_reads [OF assms(1-3)] refl assms(4-6)]) blast

lemma huff_symbol_decodes_witness:
  "\<exists>bd'. huff_symbol (make_group [1, 2, 3, 3] (hd (groups (new_bunzip [] [])))) (new_bunzip [Data [0xC0, 0, 0]] []) = (Inr 2, bd')"
proof -
  let ?bd = "new_bunzip [Data [0xC0, 0, 0]] []"
  have "bits_wf ?bd" by (simp add: bits_wf_def new_bunzip_def)
  moreover have "bit_stream ?bd = code_bits [1, 2, 3, 3] 2 @ replicate 21 False"
  proof -
    have "code_num [1, 2, 3, 3] 2 = 6"
      by (simp add: code_num_def rank_of_def upt_rec eval_nat_numeral)
    then have "code_bits [1, 2, 3, 3] 2 = [True, True, False]"
      by (simp add: code_bits_def low_bits_def upt_rec)
    moreover have "bit_stream ?bd = [True, True] @ replicate 22 False"
      by (simp add: new_bunzip_def bit_stream_def byte_stream_def low_bits_def upt_rec) (simp add: eval_nat_numeral)
    ultimately show ?thesis by (simp add: eval_nat_numeral)
  qed
  moreover have "group_wf (hd (groups (new_bunzip [] [])))"
    by (simp add: new_bunzip_def group_wf_def MAX_GROUPS_def)
  moreover have "lengths_ok [1, 2, 3, 3]"
    using sample_kraft by (simp add: lengths_ok_def lengths_range_def MAX_SYMBOLS_def MAX_HUFCODE_BITS_def)
  ultimately show ?thesis
    using huff_symbol_decodes [of "[1, 2, 3, 3]" "hd (groups (new_bunzip [] []))" 2 ?bd "replicate 21 False"] by auto
qed

section \<open>Blocks\<close>

text \<open>The bytes at \<open>pos\<close> and behind it along the links in \<open>dbuf\<close>, as \<open>read_bunzip\<close> takes them.\<close>

fun walk :: "u32 list \<Rightarrow> nat \<Rightarrow> nat \<Rightarrow> byte list" where
  "walk ds pos 0 = []"
| "walk ds pos (Suc n) = ucast (ds ! pos) # walk ds (unat (drop_bit 8 (ds ! pos))) n"

lemma walk_linked:
  assumes "p < length s" and "rotations s ! p = s" and "length s < 2 ^ 24"
  shows "walk (linked (last_column s) (length s)) (links (last_column s) ! p) (length s) = s"
proof -
  let ?col = "last_column s" and ?n = "length s"
  have "j \<le> ?n \<Longrightarrow> walk (linked ?col ?n) (follow (links ?col) p (j + 1)) (?n - j) = drop j s" for j
  proof (induction "?n - j" arbitrary: j)
    case (Suc m)
    then have j: "j < ?n" by simp
    let ?pos = "follow (links ?col) p (j + 1)"
    have pos: "?pos < ?n" "?col ! ?pos = s ! j"
      using follow_rotations [OF assms(1,2), of "j + 1"] last_rotate [OF j] by (auto simp: last_column_def)
    have "ucast (linked ?col ?n ! ?pos) = s ! j" "unat (drop_bit 8 (linked ?col ?n ! ?pos)) = follow (links ?col) p (Suc j + 1)"
      using linked_low [of ?pos ?col ?n] linked_high [of ?pos ?col] pos assms(3) by (simp_all add: follow_def)
    moreover have "?n - j = Suc (?n - Suc j)" using j by simp
    ultimately show ?case
      using Suc(1) [of "Suc j"] Suc(2) j by (simp add: Cons_nth_drop_Suc)
  qed simp
  from this [of 0] show ?thesis by (simp add: follow_def)
qed

declare walk.simps [simp del]

text \<open>
  C16: The links that \<open>get_next_block\<close> computes from the counts of the bytes undo the Burrows-Wheeler transform: along them
  are the bytes of the block, in their order. No link is written behind the block.
\<close>

theorem link_dbuf_undoes_transform:
  assumes "p < length s" and "rotations s ! p = s" and "length s < 2 ^ 24" and "col = last_column s"
  shows "\<exists>ds. link_dbuf (byte_counts col) (map ucast col) = Some ds \<and> walk ds (unat (drop_bit 8 (ds ! p))) (length s) = s"
proof -
  have "link_dbuf (byte_counts col) (map ucast col) = Some (linked col (length s))" by (simp add: assms(4) link_dbuf_linked)
  moreover have "unat (drop_bit 8 (linked col (length s) ! p)) = links col ! p"
    using linked_high [of p col] assms(1,3,4) by simp
  ultimately show ?thesis using walk_linked [OF assms(1-3)] assms(4) by simp
qed

lemma link_dbuf_undoes_transform_witness:
  "\<exists>ds. link_dbuf (byte_counts [97, 97, 97, 97, 1]) (map ucast [97, 97, 97, 97, 1 :: byte]) = Some ds \<and>
     walk ds (unat (drop_bit 8 (ds ! 4))) (length [97, 97, 97, 97, 1 :: byte]) = [97, 97, 97, 97, 1]"
  using link_dbuf_undoes_transform [of 4 "[97, 97, 97, 97, 1]", OF _ _ _ sample_last [symmetric]]
  by (simp add: sample_rotations)

text \<open>
  C9: \<open>get_next_block\<close> reads back a block that was encoded with any codes and selectors that the format has:
  the bits are used up, and the links and the position lead to the bytes of the block.
\<close>

theorem get_next_block_round_trip:
  assumes "bits_wf bd" and "bunzip_wf bd" and "s \<noteq> []" and "length s < dbufSize bd"
    and "p < length s" and "rotations s ! p = s" and "codes_ok lens sels s"
    and "bit_stream bd = block_bits crc p lens sels s @ rest" and "20 \<le> length rest"
  shows "\<exists>bd'. get_next_block bd = (Inr (), bd') \<and> bit_stream bd' = rest \<and> headerCRC bd' = crc \<and>
    writeCount bd' = int (length s) \<and> writeRunCountdown bd' = 5 \<and> walk (dbuf bd') (writePos bd') (length s) = s"
proof -
  obtain s1 where reads: "reads (core bd) get_next_block (block_bits crc p lens sels s) () s1"
    and s1: "dbuf s1 = linked (last_column s) (length s)" "headerCRC s1 = crc" "writePos s1 = links (last_column s) ! p"
      "writeRunCountdown s1 = 5" "writeCount s1 = int (length s)"
    using assms by - (rule get_next_block_reads [of "core bd" s p lens sels crc], simp_all)
  obtain bd' where bd': "get_next_block bd = (Inr (), bd')" "core bd' = s1" "bit_stream bd' = rest"
    using readsD [OF reads refl assms(1,8,9)] by metis
  have "length s < 2 ^ 24" using assms(2,4) by (simp add: bunzip_wf_def)
  then show ?thesis
    using bd'(1,3) s1 walk_linked [OF assms(5,6)] unfolding bd'(2) [symmetric] by simp
qed

lemma get_next_block_round_trip_witness:
  "\<exists>bd bd'. bd = (new_bunzip [Data (pack (block_bits 7 4 [[1, 2, 3, 3], [2, 2, 2, 2]] [1] [97, 97, 97, 97, 1] @ replicate 20 True))] [])
        \<lparr>dbufSize := 100000\<rparr> \<and>
     get_next_block bd = (Inr (), bd') \<and> headerCRC bd' = 7 \<and> walk (dbuf bd') (writePos bd') (length [97, 97, 97, 97, 1 :: byte]) = [97, 97, 97, 97, 1]"
proof -
  let ?s = "[97, 97, 97, 97, 1] :: byte list" and ?lens = "[[1, 2, 3, 3], [2, 2, 2, 2]]"
  let ?bits = "block_bits 7 4 ?lens [1] ?s @ replicate 20 True"
  let ?bd = "(new_bunzip [Data (pack ?bits)] [])\<lparr>dbufSize := 100000\<rparr>"
  obtain pad where pad: "byte_stream (pack ?bits) = ?bits @ pad" using byte_stream_pack by blast
  have wf: "bits_wf ?bd" "bunzip_wf ?bd" using bunzip_wf_new [of 100000] by (simp_all add: bits_wf_def) (simp add: new_bunzip_def)
  have "pack ?bits \<noteq> []" using pad by (auto simp: byte_stream_def)
  then have str: "bit_stream ?bd = block_bits 7 4 ?lens [1] ?s @ (replicate 20 True @ pad)"
    using pad by (simp add: bit_stream_def new_bunzip_def)
  show ?thesis
    using get_next_block_round_trip [OF wf _ _ _ _ sample_codes str] by (fastforce simp: sample_rotations)
qed

section \<open>Streams\<close>

text \<open>Calls of \<open>read_bunzip\<close> for so many bytes each, and all that they give.\<close>

fun read_pieces :: "nat list \<Rightarrow> byte list bz" where
  "read_pieces [] = bz_ret []"
| "read_pieces (n # ns) =
     bz_bind (read_bunzip n) (\<lambda>(r, out).
     bz_bind (read_pieces ns) (\<lambda>outs.
     bz_ret ((if r < 0 then [] else take (n - nat r) out) @ outs)))"

lemma read_pieces_finished: "finished rest F bd \<Longrightarrow> read_pieces ns bd = (Inr [], bd)"
  by (induction ns) (simp_all add: bz_defs read_bunzip_def finished_def RETVAL_LAST_BLOCK_def)

lemma read_pieces_holds: "holds X rest F bd \<Longrightarrow> \<exists>bd'. read_pieces ns bd = (Inr (take (sum_list ns) X), bd')"
proof (induction ns arbitrary: X bd)
  case (Cons n ns)
  obtain bd1 where read: "read_bunzip n bd = (Inr (int (n - length X), take n X), bd1)"
    and bd1: "if length X \<le> n then finished rest F bd1 else holds (drop n X) rest F bd1"
    using read_bunzip_produces [OF Cons.prems, of n] by (auto simp: produces_def)
  show ?case
  proof (cases "length X \<le> n")
    case True
    then have "finished rest F bd1" using bd1 by simp
    then show ?thesis using read True by (simp add: bz_defs read_pieces_finished)
  next
    case False
    then obtain bd2 where "read_pieces ns bd1 = (Inr (take (sum_list ns) (drop n X)), bd2)"
      using Cons.IH [of "drop n X" bd1] bd1 by auto
    then show ?thesis using read False by (simp add: bz_defs take_add)
  qed
qed (simp add: bz_ret_def)

text \<open>
  C11: After \<open>start_bunzip\<close>, the calls of \<open>read_bunzip\<close> give the data of all the blocks in its order, no matter how many bytes
  each of them asks for and how the input is cut.
\<close>

theorem read_bunzip_any_pieces:
  assumes "fd_data fd = drop 2 (bz_file k bs) @ trail" and "1 \<le> k" and "k \<le> 9"
    and "\<forall>b\<in>set bs. block_ok (100000 * k) b" and "\<forall>n. malloc n"
  shows "\<exists>bd bd'. start_bunzip sz malloc fd [] = (Inr RETVAL_OK, bd) \<and>
    read_pieces ns bd = (Inr (take (sum_list ns) (blocks_data bs)), bd')"
proof -
  obtain pad where "byte_stream (pack (stream_bits 0 bs)) = stream_bits 0 bs @ pad" using byte_stream_pack by blast
  then have str: "byte_stream (pack (stream_bits 0 bs) @ trail) = stream_bits 0 bs @ (pad @ byte_stream trail)"
    by (simp add: byte_stream_def)
  have head: "[] @ fd_data fd = 0x68 # (0x30 + of_nat k) # (pack (stream_bits 0 bs) @ trail)"
    using assms(1) by (simp add: bz_file_def)
  obtain bd where "start_bunzip sz malloc fd [] = (Inr RETVAL_OK, bd)"
      "holds (blocks_data bs) (pad @ byte_stream trail) (fd_behind fd) bd"
    using start_bunzip_holds [where malloc = malloc and sz = sz, OF head assms(2-4) str] assms(5) by metis
  then show ?thesis using read_pieces_holds by blast
qed

lemma read_bunzip_any_pieces_witness:
  "\<exists>bd bd'. start_bunzip 60000 (\<lambda>_. True) [Data (drop 2 (bz_file 1 [sample_block]))] [] = (Inr RETVAL_OK, bd) \<and>
     read_pieces [1, 0, 3, 9] bd = (Inr [97, 97, 97, 97, 97], bd')"
proof -
  have "fd_data [Data (drop 2 (bz_file 1 [sample_block]))] = drop 2 (bz_file 1 [sample_block]) @ []"
    by (simp add: bz_file_def)
  then show ?thesis
    using read_bunzip_any_pieces [of _ 1 "[sample_block]" "[]" "\<lambda>_. True" 60000 "[1, 0, 3, 9]"] sample_ok
    by (simp add: blocks_data_def sample_block_def)
qed

text \<open>
  C4: \<open>unpack_bz2_stream_prime\<close> restores the data of a file, whatever the encoder has chosen for the blocks, the codes and
  the selectors, and whatever follows that is not another stream: all of it is written, in any pieces that
  \<open>read\<close> gives and \<open>write\<close> takes, and the result is 0. A file without data ends with a message instead.
\<close>

theorem unpack_restores_file:
  assumes "fd_data fd = bz_file k bs @ trail" and "1 \<le> k" and "k \<le> 9"
    and "\<forall>b\<in>set bs. block_ok (100000 * k) b" and "\<forall>n. malloc n"
    and "fd_behind fd = []" and "Write_Fail \<notin> set w" and "take 2 trail \<noteq> [0x42, 0x5A]"
  shows "\<exists>fd' w'. unpack_bz2_stream_prime sz malloc fd (w, out) =
    (if blocks_data bs = [] then (Inr 0, [Error_Msg (bytes_of ''bunzip error 0'')], fd', w', out)
     else (Inr RETVAL_OK, [], fd', w', out @ blocks_data bs))"
proof -
  have "2 \<le> length (fd_data fd)" using assms(1) by (simp add: bz_file_def)
  then obtain fd1 where fd1: "full_read 2 fd = (Some [0x42, 0x5A], fd1)" "fd_behind fd1 = []"
      "fd_data fd1 = 0x68 # (0x30 + of_nat k) # pack (stream_bits 0 bs) @ trail"
    using full_read_fd [OF assms(6), of 2] assms(1) by (auto simp: bz_file_def)
  show ?thesis
    using unpack_loop_stream [where malloc = malloc, of "[]" fd1 k bs trail sz w out] assms(2-5,7,8) fd1
    by (simp add: unpack_bz2_stream_prime_def unpack_bz2_stream_def)
qed

lemma unpack_restores_file_witness:
  "\<exists>fd' w'. unpack_bz2_stream_prime 60000 (\<lambda>_. True) [Data (bz_file 1 [sample_block]), Data [10]] ([Accept 3, Write_Eintr], []) =
     (Inr RETVAL_OK, [], fd', w', [97, 97, 97, 97, 97])"
proof -
  have "fd_data [Data (bz_file 1 [sample_block]), Data [10]] = bz_file 1 [sample_block] @ [10]"
    "fd_behind [Data (bz_file 1 [sample_block]), Data [10]] = []"
    by (simp_all add: bz_file_def)
  then show ?thesis
    using unpack_restores_file [of _ 1 "[sample_block]" "[10]" "\<lambda>_. True" "[Accept 3, Write_Eintr]" 60000 "[]"] sample_ok
    by (simp add: blocks_data_def sample_block_def)
qed


text \<open>
  C19: On any input, the state keeps its shape from \<open>start_bunzip\<close> on through all calls of \<open>read_bunzip\<close>: the position in the
  input buffer, the lengths of the arrays, and the position in the block, while there is something left in it.
\<close>

theorem read_bunzip_keeps_shape:
  assumes "start_bunzip sz malloc fd buf = (Inr RETVAL_OK, bd)" and "read_pieces ns bd = (Inr out, bd')"
  shows "writeCount bd' < 0 \<or>
    inbufPos bd' \<le> length (inbuf bd') \<and> length (selectors bd') = 32768 \<and> length (groups bd') = MAX_GROUPS \<and>
    (\<forall>g\<in>set (groups bd'). length (limit g) = 21 \<and> length (base g) = 20 \<and> length (permute g) = MAX_SYMBOLS) \<and>
    length (dbuf bd') < 2 ^ 24 \<and> (0 < writeCount bd' \<longrightarrow> writePos bd' < length (dbuf bd'))"
proof -
  have pieces: "restful bd \<Longrightarrow> read_pieces ns bd = (Inr out, bd') \<Longrightarrow> restful bd'" for bd out
  proof (induction ns arbitrary: bd out)
    case (Cons n ns)
    obtain r bd1 where read: "read_bunzip n bd = (r, bd1)" by (cases "read_bunzip n bd")
    obtain i o1 where r: "r = Inr (i, o1)" using Cons.prems(2) read by (cases r) (auto simp: bz_defs)
    then have "restful bd1" using read_bunzip_safe [OF Cons.prems(1) read] by simp
    then show ?case using Cons r read by (auto simp: bz_defs split: prod.splits sum.splits)
  qed (simp add: bz_ret_def)
  have "restful bd" using start_bunzip_safe [OF assms(1)] by (simp add: RETVAL_OK_def)
  then have "restful bd'" using pieces assms(2) by blast
  then show ?thesis
    by (auto simp: restful_def ready_def follows_def ok_def bunzip_wf_def group_wf_def linked_def MAX_HUFCODE_BITS_def)
qed

lemma read_bunzip_keeps_shape_witness:
  "\<exists>bd bd'. start_bunzip 60000 (\<lambda>_. True) [Data (drop 2 (bz_file 1 [sample_block]))] [] = (Inr RETVAL_OK, bd) \<and>
     read_pieces [2] bd = (Inr [97, 97], bd') \<and> (0 \<le> writeCount bd' \<longrightarrow> length (selectors bd') = 32768)"
proof -
  let ?fd = "[Data (drop 2 (bz_file 1 [sample_block]))]"
  obtain pad where pad: "length pad < 8" "byte_stream (pack (stream_bits 0 [sample_block])) = stream_bits 0 [sample_block] @ pad"
    using byte_stream_pack by blast
  have head: "[] @ fd_data ?fd = 0x68 # (0x30 + of_nat 1) # pack (stream_bits 0 [sample_block])"
    by (simp add: bz_file_def)
  have ok: "\<forall>b\<in>set [sample_block]. block_ok (100000 * 1) b" using sample_ok by simp
  obtain bd where start: "start_bunzip 60000 (\<lambda>_. True) ?fd [] = (Inr RETVAL_OK, bd)"
      and holds: "holds (blocks_data [sample_block]) pad (fd_behind ?fd) bd"
    by (rule start_bunzip_holds [where malloc = "\<lambda>_. True" and sz = 60000, OF head _ _ ok pad(2)]) simp_all
  obtain bd' where "read_pieces [2] bd = (Inr (take (sum_list [2]) (blocks_data [sample_block])), bd')"
    using read_pieces_holds [OF holds, of "[2]"] by blast
  then have "read_pieces [2] bd = (Inr [97, 97], bd')" by (simp add: blocks_data_def sample_block_def)
  then show ?thesis
    using start read_bunzip_keeps_shape [OF start, of "[2]" "[97, 97]" bd'] by (intro exI conjI) auto
qed

text \<open>
  C20: Whatever the input is, the calls of \<open>read_bunzip\<close> that succeed come to an end: there is no infinite sequence of them.
\<close>

theorem read_bunzip_ends:
  assumes "0 < len"
  shows "\<not> (\<exists>f. \<forall>i. \<exists>r out. read_bunzip len (f i) = (Inr (r, out), f (Suc i)) \<and> 0 \<le> r)"
proof
  assume "\<exists>f. \<forall>i. \<exists>r out. read_bunzip len (f i) = (Inr (r, out), f (Suc i)) \<and> 0 \<le> r"
  then obtain f where f: "\<And>i. \<exists>r out. read_bunzip len (f i) = (Inr (r, out), f (Suc i)) \<and> 0 \<le> r" by blast
  let ?R = "inv_image (less_than <*lex*> less_than) (\<lambda>bd. (output_weight bd, pending bd))"
  have "(f (Suc i), f i) \<in> ?R" for i
    using f [of i] read_bunzip_weight assms by fastforce
  moreover have "wf ?R" by (intro wf_inv_image wf_lex_prod wf_less_than)
  ultimately show False using wf_no_infinite_down_chainE by blast
qed

lemma read_bunzip_ends_witness:
  "\<not> (\<exists>f. \<forall>i. \<exists>r out. read_bunzip 4096 (f i) = (Inr (r, out), f (Suc i)) \<and> 0 \<le> r)"
  using read_bunzip_ends [of 4096] by simp

text \<open>
  C12: A file that ends within the ten bytes behind its header makes \<open>get_bits\<close> jump into the frame of \<open>start_bunzip\<close>, which has
  returned: what happens then is undefined, and the error for the end of the input is never returned.
\<close>

theorem unpack_truncated_undefined:
  assumes "fd_data fd = [0x42, 0x5A, 0x68, 0x30 + of_nat k] @ body" and "1 \<le> k" and "k \<le> 9" and "length body < 10"
    and "fd_behind fd = []" and "\<forall>n. malloc n"
  shows "fst (unpack_bz2_stream_prime sz malloc fd dst) = Inl Undefined"
proof -
  obtain fd1 where fd1: "full_read 2 fd = (Some [0x42, 0x5A], fd1)" "fd_data fd1 = 0x68 # (0x30 + of_nat k) # body"
    using full_read_fd [OF assms(5), of 2] assms(1) by auto
  have head: "[] @ fd_data fd1 = 0x68 # (0x30 + of_nat k) # body" using fd1(2) by simp
  obtain bd where bd: "start_bunzip sz malloc fd1 [] = (Inr RETVAL_OK, bd)" "bits_wf bd" "bit_stream bd = byte_stream body"
      and core: "core bd = (core (new_bunzip fd1 []))\<lparr>dbufSize := 100000 * k\<rparr>"
    using start_bunzip_starts [where malloc = malloc and sz = sz, OF head assms(2,3)] assms(6) by metis
  have "writeCount bd = 0" "writeCopies bd = 0"
    using arg_cong [OF core, of writeCount] arg_cong [OF core, of writeCopies] by (simp_all add: new_bunzip_def)
  then have "fst (produce bd dst) = Inl Undefined"
    using produce_short bd(2,3) assms(4) by simp
  then show ?thesis
    using fd1(1) bd(1) assms(6)
    by (auto simp: unpack_bz2_stream_prime_def unpack_bz2_stream_def unpack_loop.simps [of sz malloc fd1] RETVAL_OK_def
        split: prod.splits sum.splits)
qed

lemma unpack_truncated_undefined_witness:
  "fst (unpack_bz2_stream_prime 60000 (\<lambda>_. True) [Data [0x42, 0x5A, 0x68, 0x39, 0x31, 0x41]] ([], [])) = Inl Undefined"
  using unpack_truncated_undefined [of "[Data [0x42, 0x5A, 0x68, 0x39, 0x31, 0x41]]" 9 "[0x31, 0x41]" "\<lambda>_. True"] by simp

text \<open>
  C10: When the CRC in the header of the first block is not that of its data, the result is an error with a message, and the
  part of the output in which the error is found is not written: of the data, only the pieces of 4096 bytes before it.
\<close>

theorem unpack_wrong_crc:
  assumes "fd_data fd = [0x42, 0x5A, 0x68, 0x30 + of_nat k] @
      pack (block_bits crc (origin b) (code_lengths b) (code_choice b) (runs (block_data b)) @ ahead)"
    and "crc \<noteq> block_crc (block_data b)" and "block_ok (100000 * k) b" and "1 \<le> k" and "k \<le> 9" and "20 \<le> length ahead"
    and "\<forall>n. malloc n" and "fd_behind fd = []" and "Write_Fail \<notin> set w"
  shows "\<exists>fd' w'. unpack_bz2_stream_prime sz malloc fd (w, out) =
    (Inr RETVAL_LAST_BLOCK, [Error_Msg (bytes_of ''CRC error'')], fd', w', out @ full_pieces (block_data b))"
proof -
  let ?bits = "block_bits crc (origin b) (code_lengths b) (code_choice b) (runs (block_data b))"
  obtain fd1 where fd1: "full_read 2 fd = (Some [0x42, 0x5A], fd1)" "fd_data fd1 = 0x68 # (0x30 + of_nat k) # pack (?bits @ ahead)"
    using full_read_fd [OF assms(8), of 2] assms(1) by auto
  have head: "[] @ fd_data fd1 = 0x68 # (0x30 + of_nat k) # pack (?bits @ ahead)" using fd1(2) by simp
  obtain pad where pad: "byte_stream (pack (?bits @ ahead)) = (?bits @ ahead) @ pad" using byte_stream_pack by blast
  obtain bd where bd: "start_bunzip sz malloc fd1 [] = (Inr RETVAL_OK, bd)" "bits_wf bd"
      "bit_stream bd = byte_stream (pack (?bits @ ahead))" and core: "core bd = (core (new_bunzip fd1 []))\<lparr>dbufSize := 100000 * k\<rparr>"
    using start_bunzip_starts [where malloc = malloc and sz = sz, OF head assms(4,5)] assms(7) by metis
  have "bunzip_wf bd"
    using arg_cong [OF core, of bunzip_wf] bunzip_wf_new [of "100000 * k" fd1 "[]"] assms(5)
    by (simp add: bunzip_wf_def new_bunzip_def)
  moreover have "dbufSize bd = 100000 * k" "writeCount bd = 0" "writeCopies bd = 0" "crc32Table bd = crc32_filltable True"
    using arg_cong [OF core, of dbufSize] arg_cong [OF core, of writeCount] arg_cong [OF core, of writeCopies]
      arg_cong [OF core, of crc32Table]
    by (simp_all add: new_bunzip_def)
  moreover have "bit_stream bd = ?bits @ (ahead @ pad)" using bd(3) pad by simp
  ultimately have "spoilt_read (block_data b) n (read_bunzip n bd)" for n
    using bd(2) assms(2,3,6) by (intro read_bunzip_wrong_crc [where ahead = "ahead @ pad" and crc = crc]) simp_all
  then obtain bd' w' where "produce bd (w, out) = (Inr (Some RETVAL_LAST_BLOCK), bd', w', out @ full_pieces (block_data b))"
      "headerCRC bd' \<noteq> totalCRC bd'"
    using produce_spoilt [OF _ assms(9)] by blast
  then show ?thesis
    using fd1(1) bd(1) assms(7)
    by (simp add: unpack_bz2_stream_prime_def unpack_bz2_stream_def unpack_loop.simps [of sz malloc fd1] RETVAL_OK_def)
qed

lemma unpack_wrong_crc_witness:
  "\<exists>crc fd' w'. unpack_bz2_stream_prime 60000 (\<lambda>_. True)
       [Data ([0x42, 0x5A, 0x68, 0x31] @ pack (block_bits crc 4 [[1, 2, 3, 3], [2, 2, 2, 2]] [1] [97, 97, 97, 97, 1] @ footer_bits 0))]
       ([], [7]) =
     (Inr RETVAL_LAST_BLOCK, [Error_Msg (bytes_of ''CRC error'')], fd', w', [7])"
proof -
  let ?crc = "block_crc (block_data sample_block) + 1"
  let ?bits = "block_bits ?crc 4 [[1, 2, 3, 3], [2, 2, 2, 2]] [1] [97, 97, 97, 97, 1] @ footer_bits 0"
  have "fd_data [Data ([0x42, 0x5A, 0x68, 0x31] @ pack ?bits)] = [0x42, 0x5A, 0x68, 0x30 + of_nat 1] @
      pack (block_bits ?crc (origin sample_block) (code_lengths sample_block) (code_choice sample_block)
        (runs (block_data sample_block)) @ footer_bits 0)"
    by (simp add: sample_block_def runs_sample)
  from unpack_wrong_crc [OF this, where malloc = "\<lambda>_. True" and w = "[]" and sz = 60000 and out = "[7]"]
  show ?thesis
    using sample_ok by (auto simp: footer_bits_def full_pieces_short sample_block_def IOBUF_SIZE_def)
qed

end
