(* ===== verification/Spec2Isabelle.thy ===== *)
theory Spec2Isabelle
  imports Iso_Implant Media_Check Cutstream Pastestream Bb_Hash Bb_Crc Bb_Sum Bb_Shasum Bb_Uu Expr_Meaning Bb_Tr Bz_Correct
begin

text \<open>
  A verification development for \<^bold>\<open>mkCDrec\<close>, the program that makes a bootable rescue and backup CD
  of a Linux system. The shell scripts of the repository collect the system, call the C programs
  and write the discs; the C programs are the subject of the development, in two groups.

  \<^bold>\<open>The programs of mkCDrec itself.\<close>
    \<^item> \<open>src/mediacheck/\<close>: \<open>implantisomd5\<close> writes the MD5 digest of an ISO image into the application data
      of its primary volume descriptor; \<open>checkisomd5\<close> and the dialogue program \<open>mediacheck\<close> read the
      image back from the burned medium, compute the digest with the application data blanked, and
      compare. The three share \<open>md5.c\<close>.
    \<^item> \<open>src/cutstream/cutstream.c\<close> cuts the stream of a backup into volumes of the size of a disc and calls
      a script that burns each volume; \<open>src/pastestream-0.3/pastestream.c\<close> reads the volumes of one disc
      after the other and writes the stream again.

  \<^bold>\<open>BusyBox\<close> (\<open>src/busybox\<close>), the tool set of the rescue system, configured by \<open>src/.config.bb\<close>. Modelled
  are the checksums and digests (\<open>cksum\<close>, \<open>sum\<close>, \<open>md5sum\<close>, \<open>sha1sum\<close>, \<open>sha256sum\<close>, \<open>sha512sum\<close>), the text
  encodings (\<open>uuencode\<close>, \<open>uudecode\<close>, \<open>base64\<close>), \<open>expr\<close> and \<open>tr\<close>, which the scripts use, the decompressor of
  \<open>bunzip2\<close>, which restores the compressed backups, and the functions of \<open>libbb\<close> these applets call.

  \<^bold>\<open>The theories\<close>, in the order of the imports. \<open>Prelude\<close> has the machine types, buffers as lists
  (\<open>poke\<close> is \<open>memcpy\<close>), bytes of words in both orders, blocks, and the collections \<open>mem_simps\<close> and
  \<open>block_simps\<close>.
    \<^item> \<open>Digest_Stream\<close>: padding and absorbing of a block-wise digest, and the interface of a digest
      computed over a stream, the locale \<open>digest_stream\<close> (begin, update, end; laws: the context
      represents the message so far, and the end gives its digest). It is interpreted for the MD5 of
      mediacheck and for the four digests of BusyBox; that the chunking does not matter is proved
      once, in the locale.
    \<^item> \<open>Md5_Ref\<close>, \<open>Sha_Ref\<close>: MD5 and SHA as RFC 1321 and FIPS 180 define them; no code of the repository.
    \<^item> \<open>Mediacheck_Md5\<close>: \<open>md5.c\<close>. The unrolled transform is the compression function of the standard; the
      context with its 64-bit bit count implements \<open>digest_stream\<close>.
    \<^item> \<open>Iso_Pvd\<close>: a medium as data with an unreadable tail, \<open>lseek\<close>, \<open>read\<close>, \<open>write\<close>, and the three
      versions of \<open>parsepvd\<close>; \<open>None\<close> stands for a loop that does not end.
    \<^item> \<open>Iso_Check\<close> and \<open>Media_Check\<close>: \<open>checkmd5sum\<close> in its two versions, with the arithmetic of the offsets
      and the write past the buffer as the outcome \<open>Inl\<close>; \<open>readCB\<close>, \<open>doMediaCheck\<close>, \<open>mediaCheckFile\<close>;
      the calls of the library \<open>newt\<close> are values in the order in which they are made.
    \<^item> \<open>Iso_Implant\<close>: \<open>main\<close> of \<open>implantisomd5.c\<close> with its \<open>unsigned\<close> counter; the round trip from
      implanting over burning to the check.
    \<^item> \<open>Stdio\<close>: numbers in text files, streams with their end-of-file flag, \<open>fwrite\<close> on a disk with a quota.
    \<^item> \<open>Cutstream\<close>, \<open>Pastestream\<close>: the two programs; the burning script and the script that asks for the
      next disc are arbitrary functions on the files. Loops that need not end are partial functions,
      and the theorems say when they return and when they do not.
    \<^item> \<open>Bb_Md5\<close>, \<open>Bb_Sha\<close>, \<open>Bb_Hash\<close>: \<open>libbb/hash_md5_sha.c\<close>: the four versions of the MD5 block function
      (\<open>MD5_SIZE_VS_SPEED\<close> is an argument), the SHA block functions with their circular buffers and
      shared tables, and the streaming calls; the locale \<open>block64\<close> is the contract of
      \<open>process_block\<close> under which \<open>common64_hash\<close> and \<open>common64_end\<close> are correct, interpreted for
      the three block functions with 64-byte blocks.
    \<^item> \<open>Bb_Io\<close>: files as sequences of results of \<open>read\<close> (data, interruption, error), \<open>safe_read\<close>,
      \<open>full_read\<close>, lines, messages; the locale \<open>chunk_action\<close> is the contract of a loop body that may
      be given its input in pieces of any size, interpreted for \<open>cksum\<close>, \<open>sum\<close> and \<open>tr\<close>.
    \<^item> \<open>Bb_Crc\<close>: \<open>crc32.c\<close> and \<open>cksum\<close>; the table is proved to be the division of polynomials over
      \<open>GF(2)\<close>, from which it follows that bursts of up to 32 bits are found. \<open>Bb_Sum\<close>: \<open>sum\<close>.
      \<open>Bb_Shasum\<close>: \<open>md5_sha1_sum.c\<close>.
    \<^item> \<open>Bb_Strtonum\<close>: \<open>bb_strtonum.c\<close> on the \<open>strtoull\<close> and \<open>strtoll\<close> of the C library.
      \<open>Bb_Uu\<close>: the encodings and their decoders.
    \<^item> \<open>Bb_Expr\<close>: \<open>expr.c\<close>. The parser is a family of computations on the arguments that are left and the
      messages; the locale \<open>op_level\<close> is the contract of a level of binary operators, interpreted for
      the six levels. The regular expressions of the C library are a parameter without hypotheses.
      \<open>Expr_Meaning\<close>: what an expression means by the usage text, with operations of its own (exact numbers,
      strings, positions, matches), where nothing is claimed for the cases in which the code departs
      from that text or the C library from exact arithmetic; and that \<open>expr\<close> computes it.
    \<^item> \<open>Bb_Tr\<close>: \<open>tr.c\<close> and \<open>process_escape_sequence.c\<close>, against what the constructs of a set stand for that
      the comments of \<open>tr.c\<close> name as supported.
    \<^item> \<open>Bb_Bits\<close>, \<open>Bb_Bunzip\<close>, \<open>Bb_Unbzip\<close>: \<open>archival/libarchive/decompress_bunzip2.c\<close>. The first holds
      \<open>struct bunzip_data\<close>, a monad of computations on it that may stop (\<open>return\<close> of an error, \<open>longjmp\<close>, an
      access outside of an array, undefined behaviour of four kinds, the end of the program) and \<open>get_bits\<close>; the second
      the phases of \<open>get_next_block\<close>; the third \<open>read_bunzip\<close> with its labels, \<open>safe_write\<close> and \<open>full_write\<close>,
      \<open>start_bunzip\<close>, \<open>unpack_bz2_stream\<close> and \<open>unpack_bz2_stream_prime\<close>, and the calculus \<open>uses\<close> of the
      bits that an operation uses up, by which the loops over the input are total.
    \<^item> \<open>Bz_Huffman\<close> (canonical codes), \<open>Bz_Bwt\<close> (the Burrows-Wheeler transform), \<open>Bz_Format\<close>, \<open>Bz_Symbols\<close>,
      \<open>Bz_Block\<close> (the parts of a block), \<open>Bz_Output\<close> (runs and pieces of output), \<open>Bz_File\<close> (streams),
      \<open>Bz_Unpack\<close> (files): what each phase does, against an encoder of the format that may choose any code
      lengths, selectors and cuts into blocks. \<open>reads\<close> says that an operation takes just these bits from
      the input. \<open>Bz_Safe\<close>: triples on any input, for the accesses to the buffers and tables and for the
      circumstances in which a value that was not set is read or a count overflows.
      \<open>Bz_Correct\<close>: what follows for the code as a whole.
    \<^item> this theory: the round trip through \<open>cutstream\<close> and \<open>pastestream\<close>.

  \<^bold>\<open>How the code is modelled.\<close> A struct is a record, an enumeration or a set of outcomes a datatype, an
  \<open>unsigned\<close> or \<open>uint32_t\<close> a \<open>32 word\<close>, an \<open>int\<close> an \<open>int\<close> with the wrap-around or the range written out where
  it can be left, a buffer a list of bytes. Every exit, error message and early return is a value.
  What the program takes from its environment (files, errors of \<open>read\<close> and \<open>close\<close>, environment
  variables, scripts, the room on the disk) is an argument. Where C leaves the behaviour undefined
  (an access outside of a buffer, signed overflow, the use of a closed stream) the model has an
  outcome of its own, and the theorems say whether it can occur.

  \<^bold>\<open>Fuel.\<close> Only the parser of \<open>expr\<close> has fuel, two more than the number of arguments; it is proved to be
  enough on every list of arguments. All other loops are total functions with a termination proof
  or partial functions whose results are proved to exist.

  \<^bold>\<open>What is not modelled.\<close> The shell scripts, which consist of calls of programs outside of the
  repository; the other applets of BusyBox, among them the other archivers and the handling of file
  names around the decompressor (\<open>bbunpack.c\<close>), its option parser \<open>getopt32\<close> (the bits it returns are an
  argument of the models) and its build system; the library \<open>newt\<close>, of which only the calls are
  recorded; memory exhaustion but for \<open>start_bunzip\<close> and \<open>unpack_bz2_stream\<close>, and errors when writing to the standard output.
\<close>

section \<open>A backup over several discs\<close>

text \<open>
  C3: What \<open>cutstream\<close> cuts, \<open>pastestream\<close> puts together. \<open>filepipe\<close> of \<open>cutstream\<close> ends on every
  input, and the destination file at each call of the burning program, followed by the one left at
  the end, are the volumes of the input. If these are the restore files of a chain of discs in this
  order, then \<open>pastestream\<close> ends with status 0 and writes exactly the input of \<open>cutstream\<close>.
\<close>

theorem cut_paste_round_trip:
  assumes "cs_getenv sys ''VOLNO_FILE'' = Some vf" and "cw_files w vf = Some vc"
    and "cut_ready sys maxcd m (dst_of sys) vf" and "content (cw_files w) (dst_of sys) = []"
    and "int c = capacity_kb sys maxcd * 1024" and "0 < c" and "c \<le> cs_quota sys" and "int c < 2 ^ 63"
    and "disc_chain ask fs ds" and "length inp \<le> quota" and "map (snd \<circ> snd) ds = volumes c m inp"
  shows "(\<exists>closed w' runs. filepipe sys maxcd tot volno_l (fopen_r inp) w = Some (Inr (closed, w')) \<and>
      cw_runs w' = cw_runs w @ runs \<and>
      map (\<lambda>(p, fs). content fs (dst_of sys)) runs @ [content (cw_files w') (dst_of sys)] = map (snd \<circ> snd) ds) \<and>
    paste_loop quota ask i_str restore_str fs [] = Some (Paste_Exit 0, inp)"
proof (rule conjI)
  let ?vs = "volumes c m inp"
  obtain closed w' runs where "filepipe sys maxcd tot volno_l (fopen_r inp) w = Some (Inr (closed, w'))"
    "cw_runs w' = cw_runs w @ runs" "map (\<lambda>(p, fs). content fs (dst_of sys)) runs = butlast ?vs"
    "content (cw_files w') (dst_of sys) = last ?vs"
    using filepipe_volumes [OF assms(1-8) refl refl, of tot volno_l inp] by blast
  then show "\<exists>closed w' runs. filepipe sys maxcd tot volno_l (fopen_r inp) w = Some (Inr (closed, w')) \<and>
      cw_runs w' = cw_runs w @ runs \<and>
      map (\<lambda>(p, fs). content fs (dst_of sys)) runs @ [content (cw_files w') (dst_of sys)] = map (snd \<circ> snd) ds"
    by (simp add: assms(11))
  show "paste_loop quota ask i_str restore_str fs [] = Some (Paste_Exit 0, inp)"
    using paste_loop_chain [OF assms(9), of "[]" quota] assms(10,11) by (simp add: concat_volumes)
qed

definition backup_disc :: "bool \<Rightarrow> files" where
  "backup_disc final = [''/tmp/more_to_come'' \<mapsto> decimal (if final then 0 else 1) @ [10],
     ''/tmp/restore'' \<mapsto> bytes_of ''/r'' @ [10], ''/r'' \<mapsto> replicate (if final then 476 else 1024) 7]"

theorem cut_paste_round_trip_witness:
  "(\<exists>closed w' runs. filepipe (plain_sys Map.empty 1024) 1 0 [] (fopen_r (replicate 1500 7)) plain_world
        = Some (Inr (closed, w')) \<and>
      cw_runs w' = cw_runs plain_world @ runs \<and>
      map (\<lambda>(p, fs). content fs (dst_of (plain_sys Map.empty 1024))) runs
        @ [content (cw_files w') (dst_of (plain_sys Map.empty 1024))]
        = map (snd \<circ> snd) [(1 :: int, ''/r'', replicate 1024 7), (0, ''/r'', replicate 476 7)]) \<and>
    paste_loop 2000 (\<lambda>_. backup_disc True) [] [] (backup_disc False) [] = Some (Paste_Exit 0, replicate 1500 7)"
proof (rule cut_paste_round_trip [where m = 1024 and c = 1024 and vc = "[0x31, 10]" and vf = "''v''"])
  show "disc_chain (\<lambda>_. backup_disc True) (backup_disc False)
      [(1, ''/r'', replicate 1024 7), (0, ''/r'', replicate 476 7)]"
    by (simp add: backup_disc_def disc_def bytes_of_def)
  show "map (snd \<circ> snd) [(1 :: int, ''/r'', replicate 1024 7), (0, ''/r'', replicate 476 7)]
      = volumes 1024 1024 (replicate 1500 7)"
    by (simp add: volumes.simps)
qed (simp_all add: plain_sys_def plain_world_def plain_files_def cut_ready_def dst_of_def content_def capacity_kb_def)

end
